(* ===== verification/Sz_Prelude.thy ===== *)
theory Sz_Prelude
  imports Main "HOL-Library.Word"
begin

text \<open>
  Shared vocabulary of the development: the machine integers of the Rust code at their width,
  results (\<open>Result<T, E>\<close> is the sum \<open>'e + 't\<close>, \<open>Err\<close> on the left), the few functions of
  Rust's standard library the program uses on strings (UTF-8 validation, \<open>trim\<close>, the
  \<open>filter(|s| !s.is_empty())\<close> idiom, decimal output), saturating arithmetic, and the
  collections of rewrite rules the component theories fill.

  A Rust \<open>String\<close>, \<open>&str\<close> or \<open>Vec<u8>\<close> is a \<open>string\<close>: an Isabelle \<open>char\<close> is one byte.
  The build is the release profile of \<open>Cargo.toml\<close> (no overflow checks): unsigned and
  signed arithmetic wraps.
\<close>

named_theorems sz_defs \<open>definitions a proof about one handler unfolds\<close>
named_theorems sz_frame \<open>what a step leaves unchanged\<close>

section \<open>Machine integers\<close>

type_synonym u8 = "8 word"
type_synonym u16 = "16 word"
type_synonym u32 = "32 word"
type_synonym u64 = "64 word"
type_synonym usize = "64 word"
type_synonym i32 = "32 word"
type_synonym i64 = "64 word"

text \<open>\<open>saturating_sub\<close>, \<open>saturating_add\<close>, \<open>saturating_mul\<close> of the unsigned types.\<close>

definition sat_sub :: "'a::len word \<Rightarrow> 'a word \<Rightarrow> 'a word" where
  "sat_sub a b = (if a \<le> b then 0 else a - b)"

definition sat_add :: "'a::len word \<Rightarrow> 'a word \<Rightarrow> 'a word" where
  "sat_add a b = (if unat a + unat b < 2 ^ LENGTH('a) then a + b else - 1)"

definition sat_mul :: "'a::len word \<Rightarrow> 'a word \<Rightarrow> 'a word" where
  "sat_mul a b = (if unat a * unat b < 2 ^ LENGTH('a) then a * b else - 1)"

lemma unat_max_word: "unat (- 1 :: 'a::len word) = 2 ^ LENGTH('a) - 1"
  by (simp add: unsigned_minus_1_eq_mask mask_eq_exp_minus_1)

lemma unat_sat_sub [simp]: "unat (sat_sub a b) = unat a - unat b"
  by (auto simp: sat_sub_def unat_sub word_le_nat_alt)

lemma unat_sat_add: "unat (sat_add (a :: 'a::len word) b) = min (unat a + unat b) (2 ^ LENGTH('a) - 1)"
  by (auto simp: sat_add_def unat_word_ariths unat_max_word)

lemma unat_sat_mul: "unat (sat_mul (a :: 'a::len word) b) = min (unat a * unat b) (2 ^ LENGTH('a) - 1)"
  by (auto simp: sat_mul_def unat_word_ariths unat_max_word)

section \<open>Results\<close>

abbreviation Err :: "'e \<Rightarrow> 'e + 'a" where
  "Err \<equiv> Inl"

abbreviation Ok :: "'a \<Rightarrow> 'e + 'a" where
  "Ok \<equiv> Inr"

definition is_err :: "'e + 'a \<Rightarrow> bool" where
  "is_err r = (case r of Inl _ \<Rightarrow> True | Inr _ \<Rightarrow> False)"

lemma is_err_simps [simp]: "is_err (Inl e)" "\<not> is_err (Inr v)"
  by (simp_all add: is_err_def)

lemma is_err_iff: "is_err r \<longleftrightarrow> (\<exists>e. r = Inl e)"
  by (cases r) auto

text \<open>\<open>ok_or(e)\<close> on an option.\<close>

definition ok_or :: "'e \<Rightarrow> 'a option \<Rightarrow> 'e + 'a" where
  "ok_or e v = (case v of None \<Rightarrow> Inl e | Some x \<Rightarrow> Inr x)"

lemma ok_or_simps [simp]: "ok_or e None = Inl e" "ok_or e (Some x) = Inr x"
  by (simp_all add: ok_or_def)

lemma ok_or_eq_Inr [simp]: "ok_or e v = Inr x \<longleftrightarrow> v = Some x"
  by (cases v) auto

lemma ok_or_eq_Inl [simp]: "ok_or e v = Inl e' \<longleftrightarrow> v = None \<and> e' = e"
  by (cases v) auto

section \<open>Strings\<close>

text \<open>\<open>opt.filter(|s| !s.is_empty())\<close>\<close>

definition non_empty :: "string option \<Rightarrow> string option" where
  "non_empty s = (case s of Some [] \<Rightarrow> None | _ \<Rightarrow> s)"

lemma non_empty_simps [simp]:
  "non_empty None = None" "non_empty (Some []) = None" "non_empty (Some (c # cs)) = Some (c # cs)"
  by (simp_all add: non_empty_def)

lemma non_empty_eq_Some [simp]: "non_empty s = Some t \<longleftrightarrow> s = Some t \<and> t \<noteq> []"
  by (cases s) (auto simp: non_empty_def split: list.splits)

lemma non_empty_eq_None [simp]: "non_empty s = None \<longleftrightarrow> s = None \<or> s = Some []"
  by (cases s) (auto simp: non_empty_def split: list.splits)

text \<open>Decimal output of an unsigned number.\<close>

fun show_nat :: "nat \<Rightarrow> string" where
  "show_nat n =
     (if n < 10 then [char_of (48 + n)] else show_nat (n div 10) @ [char_of (48 + n mod 10)])"

declare show_nat.simps [simp del]

abbreviation byte :: "char \<Rightarrow> nat" where
  "byte \<equiv> of_char"

subsection \<open>UTF-8 validation: \<open>std::str::from_utf8\<close>\<close>

definition cont_byte :: "nat \<Rightarrow> bool" where
  "cont_byte b \<longleftrightarrow> 128 \<le> b \<and> b \<le> 191"

text \<open>The well-formed byte sequences of the Unicode standard, as the library's table has them.\<close>

fun utf8_wf :: "nat list \<Rightarrow> bool" where
  "utf8_wf [] = True"
| "utf8_wf (a # bs) =
     (if a \<le> 127 then utf8_wf bs
      else if 194 \<le> a \<and> a \<le> 223 then
        (case bs of b # r \<Rightarrow> cont_byte b \<and> utf8_wf r | _ \<Rightarrow> False)
      else if 224 \<le> a \<and> a \<le> 239 then
        (case bs of b # c # r \<Rightarrow>
            (if a = 224 then 160 \<le> b \<and> b \<le> 191
             else if a = 237 then 128 \<le> b \<and> b \<le> 159
             else cont_byte b) \<and> cont_byte c \<and> utf8_wf r
         | _ \<Rightarrow> False)
      else if 240 \<le> a \<and> a \<le> 244 then
        (case bs of b # c # d # r \<Rightarrow>
            (if a = 240 then 144 \<le> b \<and> b \<le> 191
             else if a = 244 then 128 \<le> b \<and> b \<le> 143
             else cont_byte b) \<and> cont_byte c \<and> cont_byte d \<and> utf8_wf r
         | _ \<Rightarrow> False)
      else False)"

definition from_utf8 :: "string \<Rightarrow> string option" where
  "from_utf8 b = (if utf8_wf (map byte b) then Some b else None)"

lemma from_utf8_Some [simp]: "from_utf8 b = Some s \<longleftrightarrow> s = b \<and> utf8_wf (map byte b)"
  by (auto simp: from_utf8_def)

lemma utf8_wf_ascii: "\<forall>b \<in> set bs. b \<le> 127 \<Longrightarrow> utf8_wf bs"
  by (induction bs) auto

subsection \<open>\<open>str::trim\<close>: the characters with the Unicode property \<open>White_Space\<close>\<close>

text \<open>
  On the bytes: the white space characters are U+0009 to U+000D, U+0020, U+0085, U+00A0,
  U+1680, U+2000 to U+200A, U+2028, U+2029, U+202F, U+205F and U+3000. \<open>ws_prefix\<close> gives the
  number of bytes of the white space character a text starts with (0 for none);
  \<open>ws_suffix\<close> the same at the end of a text, on the reversed bytes.
\<close>

fun ws_prefix :: "nat list \<Rightarrow> nat" where
  "ws_prefix (a # b # c # _) =
     (if (9 \<le> a \<and> a \<le> 13) \<or> a = 32 then 1
      else if a = 194 \<and> (b = 133 \<or> b = 160) then 2
      else if (a = 225 \<and> b = 154 \<and> c = 128)
           \<or> (a = 226 \<and> b = 128 \<and> ((128 \<le> c \<and> c \<le> 138) \<or> c = 168 \<or> c = 169 \<or> c = 175))
           \<or> (a = 226 \<and> b = 129 \<and> c = 159)
           \<or> (a = 227 \<and> b = 128 \<and> c = 128) then 3 else 0)"
| "ws_prefix [a, b] =
     (if (9 \<le> a \<and> a \<le> 13) \<or> a = 32 then 1
      else if a = 194 \<and> (b = 133 \<or> b = 160) then 2 else 0)"
| "ws_prefix [a] = (if (9 \<le> a \<and> a \<le> 13) \<or> a = 32 then 1 else 0)"
| "ws_prefix [] = 0"

fun ws_suffix :: "nat list \<Rightarrow> nat" where
  "ws_suffix (a # r) =
     (if (9 \<le> a \<and> a \<le> 13) \<or> a = 32 then 1
      else if 2 \<le> ws_prefix (rev (take 2 (a # r))) \<and> length r \<ge> 1 then 2
      else if 3 \<le> ws_prefix (rev (take 3 (a # r))) then 3 else 0)"
| "ws_suffix [] = 0"

function trim_start :: "string \<Rightarrow> string" where
  "trim_start s =
     (if ws_prefix (map byte s) = 0 \<or> s = [] then s
      else trim_start (drop (ws_prefix (map byte s)) s))"
  by pat_completeness auto
termination
  by (relation "measure length") auto

function trim_end_rev :: "string \<Rightarrow> string" where
  "trim_end_rev s =
     (if ws_suffix (map byte s) = 0 \<or> s = [] then s
      else trim_end_rev (drop (ws_suffix (map byte s)) s))"
  by pat_completeness auto
termination
  by (relation "measure length") auto

declare trim_start.simps [simp del] trim_end_rev.simps [simp del]

definition trim :: "string \<Rightarrow> string" where
  "trim s = rev (trim_end_rev (rev (trim_start s)))"

lemma trim_Nil [simp]: "trim [] = []"
  by (simp add: trim_def trim_start.simps trim_end_rev.simps)

text \<open>ASCII lower case, \<open>str::to_lowercase\<close> on ASCII bytes.\<close>

definition lower_byte :: "char \<Rightarrow> char" where
  "lower_byte c = (if 65 \<le> byte c \<and> byte c \<le> 90 then char_of (byte c + 32) else c)"

definition to_lowercase :: "string \<Rightarrow> string" where
  "to_lowercase s = map lower_byte s"

section \<open>Hash maps\<close>

text \<open>
  What the code relies on of a \<open>HashMap\<close>: looking up after an insertion and after a removal. The
  model's map is a list of entries with distinct keys, newest first; the iteration order of a
  \<open>HashMap\<close> is not specified and the model's order is one of those possible.
\<close>

locale keyed_store =
  fixes get :: "'m \<Rightarrow> 'k \<Rightarrow> 'v option"
    and ins :: "'k \<Rightarrow> 'v \<Rightarrow> 'm \<Rightarrow> 'm"
    and del :: "'k \<Rightarrow> 'm \<Rightarrow> 'm"
  assumes get_ins: "get (ins k v m) = (get m)(k \<mapsto> v)"
    and get_del: "get (del k m) = (get m)(k := None)"
begin

lemma dom_ins: "dom (get (ins k v m)) = insert k (dom (get m))"
  by (simp add: get_ins)

lemma dom_del: "dom (get (del k m)) = dom (get m) - {k}"
  by (simp add: get_del)

text \<open>A bracket around a fresh key leaves the map as it was.\<close>

lemma del_ins_fresh: "get m k = None \<Longrightarrow> get (del k (ins k v m)) = get m"
  by (auto simp: get_ins get_del)

end

type_synonym ('k, 'v) hash_map = "('k \<times> 'v) list"

definition hm_remove :: "'k \<Rightarrow> ('k, 'v) hash_map \<Rightarrow> ('k, 'v) hash_map" where
  "hm_remove k m = filter (\<lambda>(k', _). k' \<noteq> k) m"

definition hm_insert :: "'k \<Rightarrow> 'v \<Rightarrow> ('k, 'v) hash_map \<Rightarrow> ('k, 'v) hash_map" where
  "hm_insert k v m = (k, v) # hm_remove k m"

lemma map_of_hm_remove: "map_of (hm_remove k m) = (map_of m)(k := None)"
  by (induction m) (auto simp: hm_remove_def fun_eq_iff)

interpretation hm: keyed_store map_of hm_insert hm_remove
  by unfold_locales (auto simp: hm_insert_def map_of_hm_remove)

lemma keys_hm_remove [simp]: "fst ` set (hm_remove k m) = fst ` set m - {k}"
  by (auto simp: hm_remove_def)

lemma distinct_hm_remove: "distinct (map fst m) \<Longrightarrow> distinct (map fst (hm_remove k m))"
  by (induction m) (auto simp: hm_remove_def)

lemma distinct_hm_insert: "distinct (map fst m) \<Longrightarrow> distinct (map fst (hm_insert k v m))"
  by (simp add: hm_insert_def distinct_hm_remove)

lemma hm_remove_fresh: "k \<notin> fst ` set m \<Longrightarrow> hm_remove k m = m"
  by (induction m) (auto simp: hm_remove_def)

lemma hm_remove_insert: "k \<notin> fst ` set m \<Longrightarrow> hm_remove k (hm_insert k v m) = m"
  by (simp add: hm_insert_def hm_remove_fresh) (simp add: hm_remove_def hm_remove_fresh [unfolded hm_remove_def])

lemma hm_remove_insert_eq: "hm_remove k (hm_insert k v m) = hm_remove k m"
  by (simp add: hm_insert_def hm_remove_def)

lemma length_hm_remove: "map_of m k = Some v \<Longrightarrow> length (hm_remove k m) < length m"
  by (induction m) (auto simp: hm_remove_def le_imp_less_Suc split: if_splits)

section \<open>The loop of a thread among others\<close>

text \<open>
  A loop body takes the loop's local variables and the state all threads share, and gives the
  locals of the next pass, or \<open>None\<close> to leave the loop. \<open>others n\<close> is whatever the other threads
  do to the shared state before the pass; \<open>n\<close> counts down. \<open>drive\<close> gives \<open>None\<close> when the loop has
  not ended within its bound.
\<close>

fun drive ::
  "nat \<Rightarrow> (nat \<Rightarrow> 's \<Rightarrow> 's) \<Rightarrow> ('l \<Rightarrow> 's \<Rightarrow> 'l option \<times> 's) \<Rightarrow> 'l \<Rightarrow> 's \<Rightarrow> 's option" where
  "drive 0 others body l s = None"
| "drive (Suc n) others body l s =
     (case body l (others n s) of
        (None, s') \<Rightarrow> Some s'
      | (Some l', s') \<Rightarrow> drive n others body l' s')"

text \<open>A loop ends in a pass that leaves it, in a state the invariant describes.\<close>

lemma drive_exit:
  assumes "drive n others body l s = Some t" and "I l s"
    and others: "\<And>k l s. I l s \<Longrightarrow> I l (others k s)"
    and body: "\<And>l s l' s'. I l s \<Longrightarrow> body l s = (Some l', s') \<Longrightarrow> I l' s'"
  shows "\<exists>l' s'. I l' s' \<and> body l' s' = (None, t)"
  using assms(1,2)
proof (induction n arbitrary: l s)
  case (Suc n)
  obtain r s1 where b: "body l (others n s) = (r, s1)" by fastforce
  show ?case
  proof (cases r)
    case None
    with Suc.prems b have "body l (others n s) = (None, t)" by simp
    with others [OF Suc.prems(2)] show ?thesis by blast
  next
    case (Some l1)
    with Suc.prems(1) b have "drive n others body l1 s1 = Some t" by simp
    moreover have "I l1 s1" using body [OF others [OF Suc.prems(2)]] b Some by blast
    ultimately show ?thesis by (rule Suc.IH)
  qed
qed simp

text \<open>A loop whose passes decrease a measure ends.\<close>

lemma drive_ends:
  assumes "I l s" and "m l s < n"
    and others: "\<And>k l s. I l s \<Longrightarrow> I l (others k s) \<and> m l (others k s) \<le> m l s"
    and body: "\<And>l s l' s'. I l s \<Longrightarrow> body l s = (Some l', s') \<Longrightarrow> I l' s' \<and> m l' s' < m l s"
  shows "\<exists>t. drive n others body l s = Some t"
  using assms(1,2)
proof (induction n arbitrary: l s)
  case (Suc n)
  obtain r s1 where b: "body l (others n s) = (r, s1)" by fastforce
  show ?case
  proof (cases r)
    case (Some l1)
    have "I l1 s1 \<and> m l1 s1 < m l (others n s)" using body others [OF Suc.prems(1)] b Some by blast
    then have "I l1 s1" "m l1 s1 < n" using others [OF Suc.prems(1), of n] Suc.prems(2) by auto
    from Suc.IH [OF this] show ?thesis using b Some by simp
  qed (use b in simp)
qed simp

text \<open>A body that also says what it did, run with the log of the whole loop beside the state.\<close>

definition logged ::
  "('l \<Rightarrow> 's \<Rightarrow> 'l option \<times> 's \<times> 'ev list) \<Rightarrow> 'l \<Rightarrow> 's \<times> 'ev list \<Rightarrow> 'l option \<times> ('s \<times> 'ev list)" where
  "logged body l st = (case body l (fst st) of (r, s', evs) \<Rightarrow> (r, (s', snd st @ evs)))"

definition with_log :: "(nat \<Rightarrow> 's \<Rightarrow> 's) \<Rightarrow> nat \<Rightarrow> 's \<times> 'ev list \<Rightarrow> 's \<times> 'ev list" where
  "with_log others n st = (others n (fst st), snd st)"

lemma logged_exit:
  assumes "logged body l st = (None, (t, evs))"
  obtains e where "body l (fst st) = (None, t, e)" "evs = snd st @ e"
proof -
  obtain r s' e where b: "body l (fst st) = (r, s', e)" by (metis prod_cases3)
  then have "r = None" "s' = t" "evs = snd st @ e" using assms by (simp_all add: logged_def)
  with b that show ?thesis by blast
qed

end
