(* ===== verification/Sz_F64.thy ===== *)
theory Sz_F64
  imports Complex_Main Sz_Prelude
begin

text \<open>
  The \<open>f64\<close> arithmetic the program uses. A finite \<open>f64\<close> is the rational number it denotes and
  every operation is the exact rational operation followed by rounding to 53 significant bits,
  ties to even (\<open>f64_rnd\<close>), which is what IEEE 754 prescribes. The exponent is not bounded: the
  model is that of values in the normal range, which every value the program computes is in
  (thread counts, percentages, seconds, counters; none is infinite, NaN or subnormal).
  \<open>f64_round\<close> is \<open>f64::round\<close> (half away from zero) and \<open>f64_as_usize\<close> the saturating cast.
\<close>

type_synonym f64 = rat

section \<open>Rounding\<close>

fun nbits :: "nat \<Rightarrow> nat" where
  "nbits n = (if n = 0 then 0 else Suc (nbits (n div 2)))"

declare nbits.simps [simp del]

text \<open>The exponent of the binade of a positive number: \<open>2 ^ e \<le> x < 2 ^ (e + 1)\<close>.\<close>

definition binade :: "rat \<Rightarrow> int" where
  "binade x =
     (let (p, q) = quotient_of x; k = int (nbits (nat p)) - int (nbits (nat q))
      in if 2 powi k \<le> x then k else k - 1)"

text \<open>Nearest integer, ties to even.\<close>

definition rne :: "rat \<Rightarrow> int" where
  "rne y = (let f = \<lfloor>y\<rfloor>; d = y - of_int f
            in if d < 1 / 2 then f else if d > 1 / 2 then f + 1 else if even f then f else f + 1)"

definition f64_rnd :: "rat \<Rightarrow> f64" where
  "f64_rnd x =
     (if x = 0 then 0
      else let u = 2 powi (binade \<bar>x\<bar> - 52) in of_int (rne (x / u)) * u)"

definition f64_mul :: "f64 \<Rightarrow> f64 \<Rightarrow> f64" where "f64_mul a b = f64_rnd (a * b)"
definition f64_add :: "f64 \<Rightarrow> f64 \<Rightarrow> f64" where "f64_add a b = f64_rnd (a + b)"
definition f64_sub :: "f64 \<Rightarrow> f64 \<Rightarrow> f64" where "f64_sub a b = f64_rnd (a - b)"
definition f64_div :: "f64 \<Rightarrow> f64 \<Rightarrow> f64" where "f64_div a b = f64_rnd (a / b)"

text \<open>\<open>n as f64\<close> for an unsigned and a signed 64-bit integer.\<close>

definition f64_of_u64 :: "u64 \<Rightarrow> f64" where "f64_of_u64 n = f64_rnd (of_nat (unat n))"
definition f64_of_i64 :: "i64 \<Rightarrow> f64" where "f64_of_i64 n = f64_rnd (of_int (sint n))"

definition f64_round :: "f64 \<Rightarrow> f64" where
  "f64_round x = of_int (if 0 \<le> x then \<lfloor>x + 1 / 2\<rfloor> else - \<lfloor>1 / 2 - x\<rfloor>)"

definition f64_as_usize :: "f64 \<Rightarrow> usize" where
  "f64_as_usize x = (if x < 0 then 0 else if of_int (2 ^ 64) \<le> x then - 1 else of_int \<lfloor>x\<rfloor>)"

section \<open>Facts\<close>

lemma nbits_bounds: "0 < n \<Longrightarrow> 2 ^ (nbits n - 1) \<le> n \<and> n < 2 ^ nbits n \<and> 0 < nbits n"
proof (induction n rule: nbits.induct)
  case (1 n)
  show ?case
  proof (cases "n = 1")
    case True
    moreover have "nbits (Suc 0) = Suc 0"
      by (simp add: nbits.simps [of "Suc 0"] nbits.simps [of 0])
    ultimately show ?thesis by simp
  next
    case False
    with "1.prems" have gt: "0 < n div 2" by auto
    with "1.IH" "1.prems" have ih: "2 ^ (nbits (n div 2) - 1) \<le> n div 2"
      "n div 2 < 2 ^ nbits (n div 2)" "0 < nbits (n div 2)" by auto
    have eq: "nbits n = Suc (nbits (n div 2))" using "1.prems" by (simp add: nbits.simps [of n])
    have "(2::nat) ^ nbits (n div 2) = 2 * 2 ^ (nbits (n div 2) - 1)"
      using ih(3) by (metis Suc_diff_1 power_Suc)
    moreover have "2 * (n div 2) \<le> n" "n < 2 * (n div 2) + 2" by auto
    ultimately have "2 ^ nbits (n div 2) \<le> n" "n < 2 * 2 ^ nbits (n div 2)" using ih(1,2) by linarith+
    with eq show ?thesis by simp
  qed
qed

lemma nbits_powi:
  assumes "0 < p"
  shows "(2::rat) powi (int (nbits (nat p)) - 1) \<le> of_int p \<and> of_int p < (2::rat) powi int (nbits (nat p))"
proof -
  define a where "a = nbits (nat p)"
  have a: "2 ^ (a - 1) \<le> nat p" "nat p < 2 ^ a" "0 < a"
    using nbits_bounds [of "nat p"] assms by (auto simp: a_def)
  have "(2::rat) powi (int a - 1) = 2 powi int (a - 1)" using a(3) by (simp add: of_nat_diff)
  also have "\<dots> = of_nat (2 ^ (a - 1))" by (simp add: power_int_of_nat)
  also have "\<dots> \<le> of_nat (nat p)" using a(1) by (simp only: of_nat_le_iff)
  finally have lo: "(2::rat) powi (int a - 1) \<le> of_int p" using assms by simp
  have "(of_nat (nat p) :: rat) < of_nat (2 ^ a)" using a(2) by (simp only: of_nat_less_iff)
  then have "of_int p < (2::rat) powi int a" using assms by (simp add: power_int_of_nat)
  with lo show ?thesis by (simp add: a_def)
qed

lemma powi_diff: "(2::rat) powi i / 2 powi j = 2 powi (i - j)"
  by (simp add: power_int_diff)

lemma binade_bounds:
  assumes "0 < x"
  shows "2 powi binade x \<le> x \<and> x < 2 powi (binade x + 1)"
proof -
  obtain p q where pq: "quotient_of x = (p, q)" by fastforce
  have q0: "0 < q" using quotient_of_denom_pos [OF pq] .
  have xe: "x = of_int p / of_int q" using quotient_of_div [OF pq] .
  have p0: "0 < p" using assms q0 xe by (simp add: zero_less_divide_iff)
  define a where "a = nbits (nat p)"
  define b where "b = nbits (nat q)"
  have P: "(2::rat) powi (int a - 1) \<le> of_int p" "of_int p < (2::rat) powi int a"
    using nbits_powi [of p] p0 by (auto simp: a_def)
  have Q: "(2::rat) powi (int b - 1) \<le> of_int q" "of_int q < (2::rat) powi int b"
    using nbits_powi [of q] q0 by (auto simp: b_def)
  have up: "x < 2 powi (int a - int b + 1)"
  proof -
    have "x < 2 powi int a / 2 powi (int b - 1)"
      unfolding xe using P(2) Q(1) p0 q0 by (intro frac_less) auto
    also have "\<dots> = 2 powi (int a - int b + 1)"
      by (simp only: powi_diff) (simp add: algebra_simps)
    finally show ?thesis .
  qed
  have lo: "2 powi (int a - int b - 1) < x"
  proof -
    have "2 powi (int a - int b - 1) = (2::rat) powi (int a - 1) / 2 powi int b"
      by (simp only: powi_diff) (simp add: algebra_simps)
    also have "\<dots> < x"
      unfolding xe using P(1) Q(2) p0 q0 by (intro frac_less2) auto
    finally show ?thesis .
  qed
  from pq have bin: "binade x = (if 2 powi (int a - int b) \<le> x then int a - int b else int a - int b - 1)"
    by (simp add: binade_def a_def b_def Let_def)
  show ?thesis using up lo by (auto simp: bin)
qed

lemma rne_err: "\<bar>of_int (rne y) - y\<bar> \<le> 1 / 2"
proof -
  have fl: "of_int \<lfloor>y\<rfloor> \<le> y" "y < of_int \<lfloor>y\<rfloor> + 1" by linarith+
  have "rne y = \<lfloor>y\<rfloor> \<and> y - of_int \<lfloor>y\<rfloor> \<le> 1 / 2 \<or> rne y = \<lfloor>y\<rfloor> + 1 \<and> 1 / 2 \<le> y - of_int \<lfloor>y\<rfloor>"
    unfolding rne_def Let_def by (simp only: split: if_split) linarith
  then show ?thesis using fl by (auto simp: abs_le_iff)
qed

lemma rne_of_int [simp]: "rne (of_int k) = k"
  by (simp add: rne_def)

lemma rne_le:
  assumes "y \<le> of_int k"
  shows "rne y \<le> k"
proof (cases "y = of_int k")
  case False
  with assms have "\<lfloor>y\<rfloor> + 1 \<le> k" by (metis add1_zle_eq floor_less_iff order_le_less)
  then show ?thesis by (auto simp: rne_def Let_def)
qed simp

lemma rne_ge:
  assumes "of_int k \<le> y"
  shows "k \<le> rne y"
proof -
  from assms have "k \<le> \<lfloor>y\<rfloor>" by (simp add: le_floor_iff)
  then show ?thesis by (auto simp: rne_def Let_def)
qed

lemma f64_rnd_0 [simp]: "f64_rnd 0 = 0"
  by (simp add: f64_rnd_def)

text \<open>The rounding error is at most one part in \<open>2 ^ 53\<close>.\<close>

lemma f64_rnd_err: "\<bar>f64_rnd x - x\<bar> \<le> \<bar>x\<bar> / 2 ^ 53"
proof (cases "x = 0")
  case False
  define u where "u = (2::rat) powi (binade \<bar>x\<bar> - 52)"
  have u0: "0 < u" by (simp add: u_def)
  have r: "f64_rnd x = of_int (rne (x / u)) * u" using False by (simp add: f64_rnd_def u_def Let_def)
  have "f64_rnd x - x = (of_int (rne (x / u)) - x / u) * u"
    using u0 by (simp add: r algebra_simps)
  then have "\<bar>f64_rnd x - x\<bar> = \<bar>of_int (rne (x / u)) - x / u\<bar> * u"
    using u0 by (simp add: abs_mult)
  also have "\<dots> \<le> (1 / 2) * u" using rne_err [of "x / u"] u0 by (intro mult_right_mono) auto
  also have "\<dots> \<le> \<bar>x\<bar> / 2 ^ 53"
  proof -
    have "2 powi binade \<bar>x\<bar> \<le> \<bar>x\<bar>" using binade_bounds [of "\<bar>x\<bar>"] False by simp
    moreover have "u = 2 powi binade \<bar>x\<bar> / 2 ^ 52"
      by (simp add: u_def power_int_diff)
    ultimately show ?thesis by simp
  qed
  finally show ?thesis .
qed simp

text \<open>A number with at most 53 significant bits is not changed.\<close>

lemma f64_rnd_exact:
  assumes x: "x = of_int m * 2 powi k" and m: "\<bar>m\<bar> \<le> 2 ^ 53"
  shows "f64_rnd x = x"
proof (cases "x = 0")
  case False
  define e where "e = binade \<bar>x\<bar>"
  define u where "u = (2::rat) powi (e - 52)"
  have u0: "u \<noteq> 0" by (simp add: u_def)
  have ax: "\<bar>x\<bar> = of_int \<bar>m\<bar> * 2 powi k" by (simp add: x abs_mult)
  have lo: "2 powi e \<le> \<bar>x\<bar>" using binade_bounds [of "\<bar>x\<bar>"] False by (simp add: e_def)
  have hi: "\<bar>x\<bar> < 2 powi (e + 1)" using binade_bounds [of "\<bar>x\<bar>"] False by (simp add: e_def)
  have "\<exists>j. x / u = of_int j"
  proof (cases "e - 52 \<le> k")
    case True
    have "x / u = of_int m * 2 powi (k - (e - 52))"
      by (simp add: x u_def power_int_diff)
    also have "\<dots> = of_int (m * 2 ^ nat (k - (e - 52)))"
      using True by (simp add: power_int_def)
    finally show ?thesis by blast
  next
    case False
    have "(2::rat) powi (e - k) \<le> of_int \<bar>m\<bar>"
      using lo ax by (simp add: power_int_diff divide_le_eq)
    moreover have "(2::rat) powi 53 \<le> 2 powi (e - k)"
      using False by (intro power_int_increasing) auto
    moreover have "of_int \<bar>m\<bar> \<le> (2::rat) powi 53"
      using m by (simp add: of_int_le_iff [of "\<bar>m\<bar>" "2 ^ 53", where 'a = rat, symmetric] del: of_int_le_iff)
    ultimately have eq: "(2::rat) powi (e - k) = of_int \<bar>m\<bar>" by linarith
    have "\<bar>x\<bar> = 2 powi (e - k) * 2 powi k" by (simp only: ax eq)
    also have "\<dots> = 2 powi e" by (simp add: power_int_diff)
    finally have "\<bar>x\<bar> = 2 powi e" .
    then have "x = 2 powi e \<or> x = - (2 powi e)" by linarith
    then have "x / u = 2 ^ 52 \<or> x / u = - (2 ^ 52)"
      by (auto simp: u_def power_int_diff)
    then show ?thesis by (metis of_int_minus of_int_numeral of_int_power)
  qed
  then obtain j where j: "x / u = of_int j" by blast
  have "f64_rnd x = of_int (rne (x / u)) * u"
    using False by (simp add: f64_rnd_def u_def e_def Let_def)
  also have "\<dots> = x" using j u0 by (metis nonzero_eq_divide_eq rne_of_int)
  finally show ?thesis .
qed simp

lemma f64_rnd_of_int: "\<bar>m\<bar> \<le> 2 ^ 53 \<Longrightarrow> f64_rnd (of_int m) = of_int m"
  by (rule f64_rnd_exact [of _ m 0]) auto

lemma f64_rnd_of_nat:
  assumes "n \<le> 2 ^ 53"
  shows "f64_rnd (of_nat n) = of_nat n"
proof -
  from assms have "int n \<le> int (2 ^ 53)" by (simp only: of_nat_le_iff)
  then have "\<bar>int n\<bar> \<le> 2 ^ 53" by simp
  from f64_rnd_of_int [OF this] show ?thesis by simp
qed

lemma f64_rnd_nonneg: "0 \<le> x \<Longrightarrow> 0 \<le> f64_rnd x"
  by (auto simp: f64_rnd_def Let_def intro!: mult_nonneg_nonneg rne_ge)

text \<open>Rounding does not carry a positive number past a power of two above it.\<close>

lemma f64_rnd_le_pow2:
  assumes "0 < x" and "x \<le> 2 powi k"
  shows "f64_rnd x \<le> 2 powi k"
proof (cases "x = 2 powi k")
  case True
  then have "f64_rnd x = x" by (intro f64_rnd_exact [of _ 1 k]) auto
  with True show ?thesis by simp
next
  case False
  define e where "e = binade x"
  define u where "u = (2::rat) powi (e - 52)"
  have u0: "0 < u" by (simp add: u_def)
  have b: "2 powi e \<le> x" "x < 2 powi (e + 1)" using binade_bounds [of x] assms(1) by (auto simp: e_def)
  from b(1) assms(2) False have lt: "2 powi e < (2::rat) powi k" by linarith
  have ek: "e + 1 \<le> k"
  proof (rule ccontr)
    assume "\<not> e + 1 \<le> k"
    then have "(2::rat) powi k \<le> 2 powi e" by (intro power_int_increasing) auto
    with lt show False by simp
  qed
  have "x / u \<le> of_int (2 ^ 53)"
  proof -
    have "x / u \<le> 2 powi (e + 1) / u" using b(2) u0 by (intro divide_right_mono) auto
    also have "\<dots> = 2 ^ 53" by (simp add: u_def power_int_diff power_int_add)
    finally show ?thesis by simp
  qed
  then have "rne (x / u) \<le> 2 ^ 53" by (rule rne_le)
  then have "(of_int (rne (x / u)) :: rat) \<le> of_int (2 ^ 53)" by (simp only: of_int_le_iff)
  then have "of_int (rne (x / u)) * u \<le> of_int (2 ^ 53) * u" using u0 by (intro mult_right_mono) auto
  also have "\<dots> = 2 powi (e + 1)" by (simp add: u_def power_int_diff power_int_add)
  also have "\<dots> \<le> 2 powi k" using ek by (intro power_int_increasing) auto
  finally show ?thesis using assms(1) by (simp add: f64_rnd_def u_def e_def Let_def)
qed

corollary f64_rnd_le_1: "0 \<le> x \<Longrightarrow> x \<le> 1 \<Longrightarrow> f64_rnd x \<le> 1"
  using f64_rnd_le_pow2 [of x 0] by (cases "x = 0") auto

lemma rne_mono:
  assumes "x \<le> y"
  shows "rne x \<le> rne y"
proof (cases "\<lfloor>x\<rfloor> = \<lfloor>y\<rfloor>")
  case True
  have "y - of_int \<lfloor>y\<rfloor> < 1 / 2 \<Longrightarrow> x - of_int \<lfloor>x\<rfloor> < 1 / 2" using assms True by simp
  moreover have "x - of_int \<lfloor>x\<rfloor> > 1 / 2 \<Longrightarrow> y - of_int \<lfloor>y\<rfloor> > 1 / 2" using assms True by simp
  ultimately show ?thesis using True unfolding rne_def Let_def by (simp split: if_splits)
next
  case False
  with assms have lt: "\<lfloor>x\<rfloor> + 1 \<le> \<lfloor>y\<rfloor>" by (metis add1_zle_eq floor_mono order_le_less)
  have "rne x \<le> \<lfloor>x\<rfloor> + 1" by (rule rne_le) linarith
  moreover have "\<lfloor>y\<rfloor> \<le> rne y" by (rule rne_ge) simp
  ultimately show ?thesis using lt by simp
qed

lemma f64_rnd_mono:
  assumes "0 \<le> x" "x \<le> y"
  shows "f64_rnd x \<le> f64_rnd y"
proof (cases "x = 0")
  case True
  with assms show ?thesis by (simp add: f64_rnd_nonneg)
next
  case False
  with assms have x0: "0 < x" and y0: "0 < y" by auto
  define u where "u e = (2::rat) powi (e - 52)" for e
  have u0: "0 < u e" for e by (simp add: u_def)
  have fx: "f64_rnd x = of_int (rne (x / u (binade x))) * u (binade x)"
    and fy: "f64_rnd y = of_int (rne (y / u (binade y))) * u (binade y)"
    using x0 y0 by (simp_all add: f64_rnd_def u_def Let_def)
  show ?thesis
  proof (cases "binade x = binade y")
    case True
    have "rne (x / u (binade y)) \<le> rne (y / u (binade y))"
      using assms(2) u0 [of "binade y"] by (intro rne_mono divide_right_mono) auto
    then show ?thesis unfolding fx fy True using u0 [of "binade y"] by (intro mult_right_mono) auto
  next
    case False
    have "2 powi binade x < (2::rat) powi (binade y + 1)"
      using binade_bounds [OF x0] binade_bounds [OF y0] assms(2) by linarith
    then have "binade x < binade y + 1"
      by (metis linorder_not_less one_le_numeral power_int_increasing)
    with False have lt: "binade x + 1 \<le> binade y" by simp
    have "f64_rnd x \<le> 2 powi (binade x + 1)"
      using binade_bounds [OF x0] by (intro f64_rnd_le_pow2 [OF x0]) simp
    also have "\<dots> \<le> 2 powi binade y" using lt by (intro power_int_increasing) auto
    also have "\<dots> = of_int (2 ^ 52) * u (binade y)" by (simp add: u_def power_int_diff)
    also have "\<dots> \<le> f64_rnd y"
    proof -
      have "of_int (2 ^ 52) \<le> y / u (binade y)"
        using binade_bounds [OF y0] u0 [of "binade y"] by (simp add: u_def power_int_diff field_simps)
      then have "2 ^ 52 \<le> rne (y / u (binade y))" by (rule rne_ge)
      then have "(of_int (2 ^ 52) :: rat) \<le> of_int (rne (y / u (binade y)))" by (simp only: of_int_le_iff)
      then show ?thesis unfolding fy using u0 [of "binade y"] by (intro mult_right_mono) auto
    qed
    finally show ?thesis .
  qed
qed

text \<open>Rounding a share to a number of thousandths keeps it between 0 and 1.\<close>

lemma share_bounds:
  assumes "a \<le> b"
  shows "0 \<le> f64_div (f64_round (f64_mul (f64_div (f64_rnd (of_nat a)) (f64_rnd (of_nat b))) 1000)) 1000
    \<and> f64_div (f64_round (f64_mul (f64_div (f64_rnd (of_nat a)) (f64_rnd (of_nat b))) 1000)) 1000 \<le> 1"
proof -
  define s where "s = f64_div (f64_rnd (of_nat a)) (f64_rnd (of_nat b))"
  have ab: "0 \<le> f64_rnd (of_nat a)" "f64_rnd (of_nat a) \<le> f64_rnd (of_nat b)"
    using assms by (auto intro: f64_rnd_nonneg f64_rnd_mono)
  have s: "0 \<le> s" "s \<le> 1"
    unfolding s_def f64_div_def using ab
    by (auto intro!: f64_rnd_nonneg f64_rnd_le_1 divide_nonneg_nonneg simp: divide_le_eq_1)
  define m where "m = f64_mul s 1000"
  have m0: "0 \<le> m" using s by (simp add: m_def f64_mul_def f64_rnd_nonneg)
  have "m \<le> f64_rnd (of_nat 1000)" unfolding m_def f64_mul_def using s by (intro f64_rnd_mono) auto
  also have "\<dots> = 1000" by (subst f64_rnd_of_nat) auto
  finally have m1: "m \<le> 1000" .
  have "0 \<le> \<lfloor>m + 1 / 2\<rfloor>" "\<lfloor>m + 1 / 2\<rfloor> \<le> 1000" using m0 m1 by linarith+
  then have "0 \<le> f64_round m" "f64_round m \<le> 1000" using m0 by (auto simp: f64_round_def)
  then have "0 \<le> f64_div (f64_round m) 1000" "f64_div (f64_round m) 1000 \<le> 1"
    unfolding f64_div_def by (auto intro!: f64_rnd_nonneg f64_rnd_le_1)
  then show ?thesis by (simp add: m_def s_def)
qed

end
