(* ===== verification/Sz_Record.thy ===== *)
theory Sz_Record
  imports Sz_F64
begin

text \<open>
  \<open>crates/core/src/record.rs\<close>: what a message body must hold to be a record, how engine errors
  are classified, and the identifier a redo record is logged under.

  \<open>serde_json\<close> and the Senzing SDK are not part of the repository. The JSON parser is a
  parameter (\<open>string \<Rightarrow> json option\<close>, \<open>None\<close> for text that is not JSON) whose result has the
  shape \<open>serde_json::Value\<close> documents; the error accessors of the SDK are the fields of
  \<open>err_api\<close>, for an arbitrary type \<open>'e\<close> of errors.
\<close>

section \<open>The external types\<close>

datatype jnum = JUInt u64 | JInt i64 | JFloat f64

datatype json =
    JNull
  | JBool bool
  | JNumber jnum
  | JString string
  | JArray "json list"
  | JObject "(string \<times> json) list"

fun as_object :: "json \<Rightarrow> (string \<times> json) list option" where
  "as_object (JObject obj) = Some obj"
| "as_object _ = None"

fun as_str :: "json \<Rightarrow> string option" where
  "as_str (JString s) = Some s"
| "as_str _ = None"

text \<open>\<open>Value::get\<close> with a key and with an index.\<close>

fun get_key :: "json \<Rightarrow> string \<Rightarrow> json option" where
  "get_key (JObject obj) k = map_of obj k"
| "get_key _ k = None"

fun get_idx :: "json \<Rightarrow> nat \<Rightarrow> json option" where
  "get_idx (JArray xs) i = (if i < length xs then Some (xs ! i) else None)"
| "get_idx _ i = None"

record 'e err_api =
  is_bad_input :: "'e \<Rightarrow> bool"
  is_retryable :: "'e \<Rightarrow> bool"
  error_code :: "'e \<Rightarrow> i64 option"
  err_display :: "'e \<Rightarrow> string"

section \<open>\<open>RecordInfo\<close>, \<open>ParseError\<close>, \<open>parse_record\<close>\<close>

record record_info =
  data_source :: string
  record_id :: string

definition record_info_empty :: record_info where
  "record_info_empty = \<lparr>data_source = [], record_id = []\<rparr>"

datatype parse_error = InvalidJson | NotAnObject | MissingField string

fun parse_error_display :: "parse_error \<Rightarrow> string" where
  "parse_error_display InvalidJson = ''record body is not valid JSON''"
| "parse_error_display NotAnObject = ''record body is not a JSON object''"
| "parse_error_display (MissingField key) =
     ''record is missing required string field '' @ [CHR 0x27] @ key @ [CHR 0x27]"

text \<open>The closure \<open>get\<close> of \<open>parse_record\<close>.\<close>

definition get_field :: "(string \<times> json) list \<Rightarrow> string \<Rightarrow> parse_error + string" where
  "get_field obj key = ok_or (MissingField key) (Option.bind (map_of obj key) as_str)"

definition parse_record :: "(string \<Rightarrow> json option) \<Rightarrow> string \<Rightarrow> parse_error + record_info" where
  "parse_record from_slice body =
     (case ok_or InvalidJson (from_slice body) of
        Inl e \<Rightarrow> Err e
      | Inr value \<Rightarrow>
         (case ok_or NotAnObject (as_object value) of
            Inl e \<Rightarrow> Err e
          | Inr obj \<Rightarrow>
             (case get_field obj ''DATA_SOURCE'' of
                Inl e \<Rightarrow> Err e
              | Inr ds \<Rightarrow>
                 (case get_field obj ''RECORD_ID'' of
                    Inl e \<Rightarrow> Err e
                  | Inr rid \<Rightarrow> Ok \<lparr>data_source = ds, record_id = rid\<rparr>))))"

section \<open>\<open>classify_error\<close>\<close>

datatype error_class = BadInputOrTimeout | FatalClass

definition SENZ_DQM_ERROR_CODE :: i64 where
  "SENZ_DQM_ERROR_CODE = 82"

definition classify_error :: "('e, 'z) err_api_scheme \<Rightarrow> 'e \<Rightarrow> error_class" where
  "classify_error X err =
     (if is_bad_input X err \<or> is_retryable X err then BadInputOrTimeout
      else if error_code X err = Some SENZ_DQM_ERROR_CODE then BadInputOrTimeout
      else FatalClass)"

section \<open>\<open>logging_id\<close>\<close>

definition logging_id :: "(string \<Rightarrow> json option) \<Rightarrow> string \<Rightarrow> string" where
  "logging_id from_str rec =
     (case from_str rec of
        None \<Rightarrow> ''UNKNOWN RECORD''
      | Some value \<Rightarrow>
         (case (Option.bind (get_key value ''DATA_SOURCE'') as_str,
                Option.bind (get_key value ''RECORD_ID'') as_str) of
            (Some dsrc, Some rec_id) \<Rightarrow> dsrc @ '' : '' @ rec_id
          | _ \<Rightarrow>
             (case get_key value ''UMF_PROC'' of
                Some umf_proc \<Rightarrow>
                 (case Option.bind (Option.bind (Option.bind (Option.bind (get_key umf_proc ''PARAMS'')
                          (\<lambda>p. get_idx p 0)) (\<lambda>p. get_key p ''PARAM'')) (\<lambda>p. get_key p ''VALUE'')) as_str of
                    Some param_value \<Rightarrow> param_value @ '' : REPAIR_ENTITY''
                  | None \<Rightarrow> ''UMF_PROC : REPAIR_ENTITY'')
              | None \<Rightarrow> ''UNKNOWN RECORD'')))"

section \<open>Lemmas\<close>

lemma as_object_Some [simp]: "as_object v = Some obj \<longleftrightarrow> v = JObject obj"
  by (cases v) auto

lemma as_str_Some [simp]: "as_str v = Some s \<longleftrightarrow> v = JString s"
  by (cases v) auto

lemma get_field_Ok [simp]: "get_field obj k = Inr s \<longleftrightarrow> map_of obj k = Some (JString s)"
  by (auto simp: get_field_def bind_eq_Some_conv)

lemma get_field_Err [simp]:
  "get_field obj k = Inl e \<longleftrightarrow> e = MissingField k \<and> (\<nexists>s. map_of obj k = Some (JString s))"
proof (cases "map_of obj k")
  case (Some v)
  then show ?thesis by (cases v) (auto simp: get_field_def)
qed (auto simp: get_field_def)

lemma parse_record_InvalidJson: "parse_record f b = Inl InvalidJson \<longleftrightarrow> f b = None"
  by (auto simp: parse_record_def split: sum.splits)

lemma parse_record_NotAnObject:
  "parse_record f b = Inl NotAnObject \<longleftrightarrow> (\<exists>v. f b = Some v \<and> as_object v = None)"
  by (auto simp: parse_record_def split: sum.splits)

lemma parse_record_Ok:
  "parse_record f b = Inr ri \<longleftrightarrow>
     (\<exists>obj. f b = Some (JObject obj) \<and>
        map_of obj ''DATA_SOURCE'' = Some (JString (data_source ri)) \<and>
        map_of obj ''RECORD_ID'' = Some (JString (record_id ri)))"
  by (cases ri) (auto simp: parse_record_def split: sum.splits)

lemma classify_error_Fatal:
  "classify_error X err = FatalClass \<longleftrightarrow>
     \<not> is_bad_input X err \<and> \<not> is_retryable X err \<and> error_code X err \<noteq> Some 82"
  by (simp add: classify_error_def SENZ_DQM_ERROR_CODE_def)

end
