(* ===== verification/Sz_Config.thy ===== *)
theory Sz_Config
  imports Sz_Record
begin

text \<open>
  \<open>crates/core/src/config.rs\<close> and the argument handling of \<open>crates/sqs/src/main.rs\<close>: the parsed
  command line (\<open>clap\<close> fills it from arguments, environment and defaults), the validated
  \<open>Config\<close>, the topology check, and the size of the redo-preferring worker class.

  The environment and the processor count are the parameter \<open>host\<close>; whether a text is JSON is
  asked of the parameter \<open>from_str\<close>. A function that can panic (\<open>Ord::clamp\<close> with
  \<open>min > max\<close>) returns an option, \<open>None\<close> for the panic.
\<close>

section \<open>Arguments, configuration, constants\<close>

record args =
  a_url :: "string option"
  a_queue :: "string option"
  a_input_file :: "string option"
  a_skip_lines :: u64
  a_redo_percent :: u8
  a_threads_per_process :: usize
  a_prefetch :: "u16 option"
  a_mq_recheck_secs :: u64
  a_redo_sleep_secs :: u64
  a_long_record :: u64
  a_info :: bool
  a_debug_trace :: bool

record config =
  c_engine_config :: string
  c_url :: "string option"
  c_queue :: "string option"
  c_input_file :: "string option"
  c_skip_lines :: u64
  c_redo_percent :: u8
  c_threads :: usize
  c_prefetch :: u16
  c_mq_recheck_secs :: u64
  c_redo_sleep_secs :: u64
  c_long_record_secs :: u64
  c_info :: bool
  c_debug_trace :: bool

record host =
  env_var :: "string \<Rightarrow> string option"
  num_cpus :: usize

definition DEFAULT_LONG_RECORD_SECS :: u64 where "DEFAULT_LONG_RECORD_SECS = 300"
definition DEFAULT_REDO_PERCENT :: u8 where "DEFAULT_REDO_PERCENT = 20"
definition DEFAULT_THREADS :: usize where "DEFAULT_THREADS = 12"
definition DEFAULT_MQ_RECHECK_SECS :: u64 where "DEFAULT_MQ_RECHECK_SECS = 30"
definition DEFAULT_REDO_SLEEP_SECS :: u64 where "DEFAULT_REDO_SLEEP_SECS = 60"

text \<open>The messages of a rejected configuration, one constructor each.\<close>

datatype config_error =
    EngineConfigUnset
  | EngineConfigNotJson
  | RedoPercentRange u8
  | FileModeNoThreads
  | NoUrl
  | NoQueue
  | TooFewThreads usize
  | NoQueueUrl
  | WaitTimeRange i32
  | MaxMessagesRange i32

section \<open>\<open>config.rs\<close>\<close>

definition engine_config_from_env :: "(string \<Rightarrow> json option) \<Rightarrow> host \<Rightarrow> config_error + string" where
  "engine_config_from_env from_str h =
     (case ok_or EngineConfigUnset (non_empty (env_var h ''SENZING_ENGINE_CONFIGURATION_JSON'')) of
        Inl e \<Rightarrow> Err e
      | Inr ec \<Rightarrow> (if from_str ec = None then Err EngineConfigNotJson else Ok ec))"

text \<open>\<open>is_none_or(str::is_empty)\<close> is \<open>non_empty v = None\<close>.\<close>

definition validate_topology ::
  "usize \<Rightarrow> u8 \<Rightarrow> string option \<Rightarrow> string option \<Rightarrow> config_error + unit" where
  "validate_topology threads redo_percent url queue =
     (if redo_percent < 100 \<and> non_empty url = None then Err NoUrl
      else if redo_percent < 100 \<and> non_empty queue = None then Err NoQueue
      else if redo_percent > 0 \<and> redo_percent < 100 \<and> threads < 2 then Err (TooFewThreads threads)
      else Ok ())"

definition clamp :: "usize \<Rightarrow> usize \<Rightarrow> usize \<Rightarrow> usize option" where
  "clamp lo hi x = (if hi < lo then None else Some (if x < lo then lo else if x > hi then hi else x))"

definition redo_preferring_count :: "usize \<Rightarrow> u8 \<Rightarrow> usize option" where
  "redo_preferring_count threads redo_percent =
     (if redo_percent = 0 then Some 0
      else if redo_percent = 100 then Some threads
      else
        (let raw = f64_as_usize (f64_round
               (f64_div (f64_mul (f64_of_u64 threads) (of_nat (unat redo_percent))) 100))
         in clamp 1 (sat_sub threads 1) raw))"

definition redo_pref_workers :: "config \<Rightarrow> usize option" where
  "redo_pref_workers c = redo_preferring_count (c_threads c) (c_redo_percent c)"

definition default_prefetch :: "usize \<Rightarrow> u16" where
  "default_prefetch threads =
     (let n = sat_add threads 2 in if unat n < 2 ^ 16 then ucast n else - 1)"

definition resolve :: "(string \<Rightarrow> json option) \<Rightarrow> host \<Rightarrow> args \<Rightarrow> config_error + config" where
  "resolve from_str h a =
     (case engine_config_from_env from_str h of
        Inl e \<Rightarrow> Err e
      | Inr ec \<Rightarrow>
         if a_redo_percent a > 100 then Err (RedoPercentRange (a_redo_percent a))
         else
           (let thr = (if a_threads_per_process a = 0 then num_cpus h else a_threads_per_process a);
                file = non_empty (a_input_file a);
                u = non_empty (a_url a);
                q = non_empty (a_queue a);
                topology =
                  (if file \<noteq> None then
                     (if thr = 0 then Err FileModeNoThreads else Ok (None, None))
                   else
                     (case validate_topology thr (a_redo_percent a) u q of
                        Inl e \<Rightarrow> Err e
                      | Inr _ \<Rightarrow> Ok (u, q)))
            in (case topology of
                  Inl e \<Rightarrow> Err e
                | Inr (u', q') \<Rightarrow>
                    Ok \<lparr>c_engine_config = ec, c_url = u', c_queue = q', c_input_file = file,
                        c_skip_lines = a_skip_lines a, c_redo_percent = a_redo_percent a,
                        c_threads = thr,
                        c_prefetch = (case a_prefetch a of Some p \<Rightarrow> p | None \<Rightarrow> default_prefetch thr),
                        c_mq_recheck_secs = a_mq_recheck_secs a,
                        c_redo_sleep_secs = a_redo_sleep_secs a,
                        c_long_record_secs = a_long_record a,
                        c_info = a_info a, c_debug_trace = a_debug_trace a\<rparr>)))"

section \<open>\<open>crates/sqs/src/main.rs\<close>\<close>

record sqs_args =
  q_queue_url :: "string option"
  q_visibility_timeout :: i32
  q_wait_time :: i32
  q_max_messages :: i32
  q_input_file :: "string option"
  q_skip_lines :: u64
  q_redo_percent :: u8
  q_threads_per_process :: usize
  q_redo_sleep_secs :: u64
  q_long_record :: u64
  q_info :: bool
  q_debug_trace :: bool

record sqs_params =
  p_queue_url :: string
  p_visibility_timeout :: i32
  p_wait_time :: i32
  p_max_messages :: i32

definition DEFAULT_WAIT_TIME_SECS :: i32 where "DEFAULT_WAIT_TIME_SECS = 20"
definition DEFAULT_MAX_MESSAGES :: i32 where "DEFAULT_MAX_MESSAGES = 10"
definition DEFAULT_VISIBILITY_TIMEOUT_SECS :: i32 where
  "DEFAULT_VISIBILITY_TIMEOUT_SECS = ucast DEFAULT_LONG_RECORD_SECS * 2"

definition build_config :: "(string \<Rightarrow> json option) \<Rightarrow> host \<Rightarrow> sqs_args \<Rightarrow> config_error + config" where
  "build_config from_str h a =
     (case engine_config_from_env from_str h of
        Inl e \<Rightarrow> Err e
      | Inr ec \<Rightarrow>
         if q_redo_percent a > 100 then Err (RedoPercentRange (q_redo_percent a))
         else
           (let thr = (if q_threads_per_process a = 0 then num_cpus h else q_threads_per_process a)
            in if q_redo_percent a > 0 \<and> q_redo_percent a < 100 \<and> thr < 2
               then Err (TooFewThreads thr)
               else Ok \<lparr>c_engine_config = ec, c_url = None, c_queue = None,
                        c_input_file = non_empty (q_input_file a),
                        c_skip_lines = q_skip_lines a, c_redo_percent = q_redo_percent a,
                        c_threads = thr, c_prefetch = 0, c_mq_recheck_secs = 0,
                        c_redo_sleep_secs = q_redo_sleep_secs a,
                        c_long_record_secs = q_long_record a,
                        c_info = q_info a, c_debug_trace = q_debug_trace a\<rparr>))"

text \<open>
  The second component of the result says whether the warning about the visibility timeout is
  printed; \<open>args.long_record as i32\<close> truncates.
\<close>

definition sqs_params_of :: "sqs_args \<Rightarrow> config_error + (sqs_params \<times> bool)" where
  "sqs_params_of a =
     (case ok_or NoQueueUrl (non_empty (q_queue_url a)) of
        Inl e \<Rightarrow> Err e
      | Inr qu \<Rightarrow>
         if \<not> (0 \<le> sint (q_wait_time a) \<and> sint (q_wait_time a) \<le> 20)
         then Err (WaitTimeRange (q_wait_time a))
         else if \<not> (1 \<le> sint (q_max_messages a) \<and> sint (q_max_messages a) \<le> 10)
         then Err (MaxMessagesRange (q_max_messages a))
         else Ok (\<lparr>p_queue_url = qu, p_visibility_timeout = q_visibility_timeout a,
                   p_wait_time = q_wait_time a, p_max_messages = q_max_messages a\<rparr>,
                  sint (q_visibility_timeout a) \<le> sint (ucast (q_long_record a) :: i32)))"

section \<open>Lemmas: the worker split\<close>

lemma clamp_bounds: "clamp lo hi x = Some y \<Longrightarrow> lo \<le> y \<and> y \<le> hi"
  by (auto simp: clamp_def split: if_splits)

lemma clamp_None [simp]: "clamp lo hi x = None \<longleftrightarrow> hi < lo"
  by (simp add: clamp_def)

lemma word_unat_Rep_inverse: "of_nat (unat (w :: 'a::len word)) = w"
  by simp

lemma word_ge_2_iff: "(2 :: usize) \<le> n \<longleftrightarrow> 2 \<le> unat n"
  by (simp add: word_le_nat_alt)

lemma sat_sub_1_ge: "2 \<le> n \<Longrightarrow> (1 :: usize) \<le> sat_sub n 1"
  by (simp add: word_le_nat_alt)

lemma interior_count:
  assumes "0 < pct" "pct < 100"
  shows "redo_preferring_count n pct =
    clamp 1 (sat_sub n 1) (f64_as_usize (f64_round
               (f64_div (f64_mul (f64_of_u64 n) (of_nat (unat pct))) 100)))"
  using assms by (auto simp: redo_preferring_count_def Let_def)

text \<open>The floating-point share \<open>round(n / 100)\<close> is the exact one for every \<open>n \<le> 2 ^ 52\<close>.\<close>

lemma floor_rnd_share:
  assumes "n \<le> 2 ^ 52"
  shows "\<lfloor>f64_rnd (of_nat n / 100) + 1 / 2\<rfloor> = int ((n + 50) div 100)"
proof -
  define q where "q = (of_nat n :: rat) / 100"
  define m where "m = int ((n + 50) div 100)"
  have nn: "(of_nat n :: rat) \<le> 2 ^ 52"
    using assms by (metis of_nat_le_iff of_nat_numeral of_nat_power)
  have "\<bar>q\<bar> / 2 ^ 53 < 1 / 100" using nn by (simp add: q_def)
  then have err: "\<bar>f64_rnd q - q\<bar> < 1 / 100" using f64_rnd_err [of q] by linarith
  have "n + 50 = 100 * ((n + 50) div 100) + (n + 50) mod 100" "(n + 50) mod 100 < 100" by simp_all
  then have mlo: "100 * m \<le> int n + 50" and mhi: "int n + 50 \<le> 100 * m + 99"
    unfolding m_def by linarith+
  have "(of_int m :: rat) \<le> f64_rnd q + 1 / 2"
  proof (cases "int n + 50 = 100 * m")
    case True
    then have "(of_int (int n + 50) :: rat) = of_int (100 * m)" by simp
    then have qh: "q = of_int (2 * m - 1) * 2 powi (- 1)" by (simp add: q_def field_simps)
    have "\<bar>2 * m - 1\<bar> \<le> 2 ^ 53" using True assms by auto
    then have "f64_rnd q = q" by (rule f64_rnd_exact [OF qh])
    with qh show ?thesis by (simp add: field_simps)
  next
    case False
    then have "100 * m + 1 \<le> int n + 50" using mlo by simp
    then have "(of_int (100 * m + 1) :: rat) \<le> of_int (int n + 50)" by (simp only: of_int_le_iff)
    then have "of_int m + 1 / 100 \<le> q + 1 / 2" by (simp add: q_def field_simps)
    with err show ?thesis by linarith
  qed
  moreover have "f64_rnd q + 1 / 2 < of_int m + 1"
  proof -
    have "(of_int (int n + 50) :: rat) \<le> of_int (100 * m + 99)" using mhi by (simp only: of_int_le_iff)
    then have "q + 1 / 2 \<le> of_int m + 99 / 100" by (simp add: q_def field_simps)
    with err show ?thesis by linarith
  qed
  ultimately show ?thesis by (simp add: q_def m_def floor_eq_iff)
qed

lemma raw_share:
  assumes small: "unat n * unat pct \<le> 2 ^ 52" and pct: "0 < unat pct"
  shows "f64_as_usize (f64_round (f64_div (f64_mul (f64_of_u64 n) (of_nat (unat pct))) 100))
    = of_nat ((unat n * unat pct + 50) div 100)"
proof -
  have "unat n \<le> unat n * unat pct" using pct by simp
  then have "unat n \<le> 2 ^ 52" using small by (rule order_trans)
  then have N: "f64_of_u64 n = of_nat (unat n)"
    unfolding f64_of_u64_def by (intro f64_rnd_of_nat) simp
  have P: "f64_mul (f64_of_u64 n) (of_nat (unat pct)) = of_nat (unat n * unat pct)"
    unfolding f64_mul_def N of_nat_mult [symmetric] using small by (intro f64_rnd_of_nat) simp
  define s where "s = (unat n * unat pct + 50) div 100"
  have nonneg: "0 \<le> f64_rnd (of_nat (unat n * unat pct) / 100)"
    by (intro f64_rnd_nonneg divide_nonneg_nonneg of_nat_0_le_iff) simp
  have "\<lfloor>f64_rnd (of_nat (unat n * unat pct) / 100) + 1 / 2\<rfloor> = int s"
    using floor_rnd_share [OF small] by (simp only: s_def)
  then have r: "f64_round (f64_div (of_nat (unat n * unat pct)) 100) = of_nat s"
    using nonneg unfolding f64_round_def f64_div_def by simp
  have "s < 2 ^ 64" using small unfolding s_def by simp
  then have "(of_nat s :: rat) < 2 ^ 64" by (metis of_nat_less_iff of_nat_numeral of_nat_power)
  then have "f64_as_usize (of_nat s) = of_nat s" by (simp add: f64_as_usize_def not_le)
  with P r show ?thesis by (simp add: s_def)
qed

lemma validated_split_aux:
  assumes "validate_topology n pct u q = Ok ()" "pct \<le> 100"
  shows "\<exists>b. redo_preferring_count n pct = Some b \<and> b \<le> n \<and>
    (pct = 0 \<longrightarrow> b = 0) \<and> (pct = 100 \<longrightarrow> b = n) \<and>
    (0 < pct \<and> pct < 100 \<longrightarrow> 1 \<le> unat b \<and> unat b \<le> unat n - 1 \<and> 2 \<le> unat n)"
proof (cases "0 < pct \<and> pct < 100")
  case True
  then have n2: "2 \<le> n"
    using assms(1) by (auto simp: validate_topology_def not_less split: if_splits)
  have "\<not> sat_sub n 1 < 1" using sat_sub_1_ge [OF n2] by (simp only: not_less)
  then obtain b where b: "redo_preferring_count n pct = Some b"
    using True by (metis clamp_None interior_count option.exhaust)
  then have "1 \<le> b \<and> b \<le> sat_sub n 1" using True by (auto simp: interior_count dest: clamp_bounds)
  then show ?thesis using b n2 True by (auto simp: word_le_nat_alt word_less_nat_alt)
next
  case False
  with assms(2) have "pct = 0 \<or> pct = 100" by (auto simp: word_gt_0)
  then show ?thesis by (auto simp: redo_preferring_count_def)
qed

section \<open>Properties\<close>

text \<open>The floating-point computation of the redo-preferring class is the exact integer share,
  rounded half up and clamped so that both classes have a worker.\<close>

theorem redo_preferring_count_exact:
  assumes "0 < pct" "pct < 100" "2 \<le> n" "unat n * unat pct \<le> 2 ^ 52"
  shows "redo_preferring_count n pct =
    Some (of_nat (max 1 (min (unat n - 1) ((unat n * unat pct + 50) div 100))))"
proof -
  define s where "s = (unat n * unat pct + 50) div 100"
  have s64: "s < 2 ^ 64" using assms(4) unfolding s_def by simp
  have p0: "0 < unat pct" using assms(1) by (simp add: word_less_nat_alt)
  have us: "unat (of_nat s :: usize) = s" using s64 by (simp add: unat_of_nat take_bit_nat_eq_self)
  have n2: "2 \<le> unat n" using assms(3) by (simp add: word_ge_2_iff)
  have "redo_preferring_count n pct = clamp 1 (sat_sub n 1) (of_nat s)"
    unfolding interior_count [OF assms(1,2)] raw_share [OF assms(4) p0] s_def ..
  also have "\<dots> = Some (if unat (of_nat s :: usize) < 1 then 1
      else if unat (of_nat s :: usize) > unat n - 1 then sat_sub n 1 else of_nat s)"
    using n2 by (auto simp: clamp_def word_less_nat_alt)
  also have "\<dots> = Some (of_nat (max 1 (min (unat n - 1) s)))"
  proof -
    have "sat_sub n 1 = of_nat (unat n - 1)" by (metis unat_1 unat_sat_sub word_unat_Rep_inverse)
    with n2 us show ?thesis by (auto simp: max_def min_def)
  qed
  finally show ?thesis by (simp add: s_def)
qed

theorem redo_preferring_count_exact_witness:
  "redo_preferring_count 12 20 = Some 2 \<and> redo_preferring_count 12 99 = Some 11
   \<and> redo_preferring_count 12 1 = Some 1"
  using redo_preferring_count_exact [of 20 12] redo_preferring_count_exact [of 99 12]
    redo_preferring_count_exact [of 1 12] by simp

text \<open>A topology the program accepts never makes the computation of the class size panic;
  strictly between 0 and 100 percent both preference classes are populated, at 0 none prefers
  redo and at 100 all do.\<close>

theorem validated_split:
  assumes "validate_topology n pct u q = Ok ()" "pct \<le> 100"
  shows "\<exists>b. redo_preferring_count n pct = Some b \<and> b \<le> n \<and>
    (pct = 0 \<longrightarrow> b = 0) \<and> (pct = 100 \<longrightarrow> b = n) \<and>
    (0 < pct \<and> pct < 100 \<longrightarrow> 1 \<le> unat b \<and> unat b \<le> unat n - 1 \<and> 2 \<le> unat n)"
  by (rule validated_split_aux [OF assms])

theorem validated_split_witness:
  "\<exists>b. redo_preferring_count 2 50 = Some b \<and> 1 \<le> unat b \<and> unat b \<le> 1"
  using validated_split [of 2 50 "Some ''amqp://x''" "Some ''q''"]
  by (auto simp: validate_topology_def)

lemma unat_default_prefetch: "unat (default_prefetch n) = min (unat n + 2) (2 ^ 16 - 1)"
proof -
  have two: "unat (2 :: usize) = 2" by simp
  have u: "unat (sat_add n 2) = min (unat n + 2) (2 ^ 64 - 1)" by (simp add: unat_sat_add)
  show ?thesis
  proof (cases "unat n + 2 < 2 ^ 16")
    case True
    then have "unat (sat_add n 2) = unat n + 2" using u by simp
    with True show ?thesis
      by (simp add: default_prefetch_def Let_def unsigned_ucast_eq take_bit_nat_eq_self)
  next
    case False
    then have "\<not> unat (sat_add n 2) < 2 ^ 16" using u by simp
    with False show ?thesis by (simp add: default_prefetch_def Let_def unat_max_word)
  qed
qed

lemma resolve_Ok_cases:
  assumes "resolve f h a = Ok c"
  shows "c_redo_percent c \<le> 100" "c_engine_config c \<noteq> []" "f (c_engine_config c) \<noteq> None"
    "c_input_file c \<noteq> None \<Longrightarrow> c_url c = None \<and> c_queue c = None \<and> c_threads c \<noteq> 0"
    "c_input_file c = None \<Longrightarrow> validate_topology (c_threads c) (c_redo_percent c) (c_url c) (c_queue c) = Ok ()"
    "c_prefetch c = (case a_prefetch a of Some p \<Rightarrow> p | None \<Rightarrow> default_prefetch (c_threads c))"
  using assms
  by (auto simp: resolve_def engine_config_from_env_def Let_def split: sum.splits if_splits prod.splits cong: option.case_cong)

lemma validate_topology_Ok:
  "validate_topology n pct u q = Ok () \<longleftrightarrow>
     (pct < 100 \<longrightarrow> non_empty u \<noteq> None \<and> non_empty q \<noteq> None) \<and> (0 < pct \<and> pct < 100 \<longrightarrow> 2 \<le> n)"
  by (auto simp: validate_topology_def not_less)

text \<open>C38: every configuration \<open>Config::resolve\<close> accepts is runnable. The engine configuration
  is non-empty JSON, the percentage is in range, file mode has no broker and at least one
  worker, broker mode below 100 percent has a non-empty URL and queue, and the number of
  redo-preferring workers is defined and at most the number of workers.\<close>

theorem resolve_runnable:
  assumes "resolve f h a = Ok c"
  shows "c_engine_config c \<noteq> [] \<and> f (c_engine_config c) \<noteq> None \<and> c_redo_percent c \<le> 100 \<and>
    (case c_input_file c of
       Some _ \<Rightarrow> c_url c = None \<and> c_queue c = None \<and> c_threads c \<noteq> 0
     | None \<Rightarrow>
         (c_redo_percent c < 100 \<longrightarrow>
            (\<exists>u q. c_url c = Some u \<and> u \<noteq> [] \<and> c_queue c = Some q \<and> q \<noteq> [])) \<and>
         (\<exists>b. redo_pref_workers c = Some b \<and> b \<le> c_threads c))"
proof (cases "c_input_file c")
  case None
  then have v: "validate_topology (c_threads c) (c_redo_percent c) (c_url c) (c_queue c) = Ok ()"
    using resolve_Ok_cases(5) [OF assms] by simp
  from validated_split_aux [OF v resolve_Ok_cases(1) [OF assms]]
  have "\<exists>b. redo_pref_workers c = Some b \<and> b \<le> c_threads c" by (auto simp: redo_pref_workers_def)
  with v None resolve_Ok_cases(1-3) [OF assms] show ?thesis by (auto simp: validate_topology_Ok)
next
  case (Some x)
  with resolve_Ok_cases(1-4) [OF assms] show ?thesis by auto
qed

definition sample_host :: host where
  "sample_host = \<lparr>env_var = (\<lambda>v. if v = ''SENZING_ENGINE_CONFIGURATION_JSON'' then Some ''{}'' else None),
     num_cpus = 8\<rparr>"

definition sample_from_str :: "string \<Rightarrow> json option" where
  "sample_from_str t = (if t = ''{}'' then Some (JObject []) else None)"

definition sample_args :: args where
  "sample_args = \<lparr>a_url = Some ''amqp://h'', a_queue = Some ''q'', a_input_file = None,
     a_skip_lines = 0, a_redo_percent = 20, a_threads_per_process = 0, a_prefetch = None,
     a_mq_recheck_secs = 30, a_redo_sleep_secs = 60, a_long_record = 300, a_info = False,
     a_debug_trace = False\<rparr>"

lemmas sample_config_simps = sample_host_def sample_from_str_def sample_args_def
  engine_config_from_env_def Let_def

lemma sample_resolve: "\<exists>c. resolve sample_from_str sample_host sample_args = Ok c \<and>
    c_threads c = 8 \<and> c_input_file c = None"
  by (simp add: resolve_def validate_topology_def sample_config_simps)

theorem resolve_runnable_witness:
  "\<exists>c b. resolve sample_from_str sample_host sample_args = Ok c \<and> redo_pref_workers c = Some b \<and> b \<le> 8"
proof -
  obtain c where c: "resolve sample_from_str sample_host sample_args = Ok c"
    "c_threads c = 8" "c_input_file c = None" using sample_resolve by blast
  from resolve_runnable [OF c(1)] c show ?thesis by auto
qed

text \<open>With a single worker thread, file mode and a redo percentage strictly between 0 and 100
  (the default is 20), the RabbitMQ binary accepts the configuration and the SQS binary rejects
  it, although file mode ignores the percentage.\<close>

theorem sqs_file_mode_single_thread_rejected:
  assumes "engine_config_from_env f h = Ok ec" "non_empty file \<noteq> None" "0 < pct" "pct < 100"
    "a_input_file a = file" "a_redo_percent a = pct" "a_threads_per_process a = 1"
    "q_input_file q = file" "q_redo_percent q = pct" "q_threads_per_process q = 1"
  shows "(\<exists>c. resolve f h a = Ok c \<and> c_input_file c = file \<and> c_threads c = 1)
    \<and> build_config f h q = Err (TooFewThreads 1)"
proof -
  obtain p where p: "file = Some p" "p \<noteq> []" using assms(2) by (auto simp: non_empty_eq_None)
  have "\<not> pct > 100" using assms(4) by simp
  with assms p show ?thesis
    by (auto simp: resolve_def build_config_def Let_def split: option.splits)
qed

definition sample_sqs_args :: sqs_args where
  "sample_sqs_args = \<lparr>q_queue_url = None, q_visibility_timeout = 600, q_wait_time = 20,
     q_max_messages = 10, q_input_file = Some ''/data/r.jsonl'', q_skip_lines = 0,
     q_redo_percent = 20, q_threads_per_process = 1, q_redo_sleep_secs = 60,
     q_long_record = 300, q_info = False, q_debug_trace = False\<rparr>"

theorem sqs_file_mode_single_thread_rejected_witness:
  "build_config sample_from_str sample_host sample_sqs_args = Err (TooFewThreads 1)"
proof -
  have "engine_config_from_env sample_from_str sample_host = Ok ''{}''"
    by (simp add: sample_config_simps)
  from sqs_file_mode_single_thread_rejected [OF this, of "Some ''/data/r.jsonl''" 20
      "sample_args\<lparr>a_input_file := Some ''/data/r.jsonl'', a_threads_per_process := 1\<rparr>" sample_sqs_args]
  show ?thesis by (simp add: sample_args_def sample_sqs_args_def)
qed

text \<open>The documentation of \<open>Config.url\<close> says it is \<open>Some\<close> exactly below 100 percent outside
  file mode; the code keeps a URL given at 100 percent.\<close>

theorem resolve_keeps_url_at_100:
  assumes "engine_config_from_env f h = Ok ec" "non_empty (a_input_file a) = None"
    "a_redo_percent a = 100" "a_url a = Some u" "u \<noteq> []"
  shows "\<exists>c. resolve f h a = Ok c \<and> c_redo_percent c = 100 \<and> c_url c = Some u"
  using assms by (auto simp: resolve_def validate_topology_def Let_def)

theorem resolve_keeps_url_at_100_witness:
  "\<exists>c. resolve sample_from_str sample_host (sample_args\<lparr>a_redo_percent := 100\<rparr>) = Ok c
     \<and> c_url c = Some ''amqp://h''"
proof -
  have "engine_config_from_env sample_from_str sample_host = Ok ''{}''"
    by (simp add: sample_config_simps)
  from resolve_keeps_url_at_100 [OF this, of "sample_args\<lparr>a_redo_percent := 100\<rparr>" "''amqp://h''"]
  show ?thesis by (auto simp: sample_args_def)
qed

end
