(* ===== verification/Sz_Stats.thy ===== *)
theory Sz_Stats
  imports Sz_Config
begin

text \<open>
  \<open>crates/core/src/stats.rs\<close>: the process-global atomics, the moving average of the backlog
  slope, the \<open>Combined stats:\<close> line and the redo-floor guard.

  The statics are the fields of the record \<open>globals\<close>, under their names; \<open>fetch_add\<close> and
  \<open>fetch_sub\<close> wrap at the width of the counter. A printed line is a value of \<open>out_line\<close>.
\<close>

section \<open>The statics\<close>

record globals =
  RUNNING :: bool
  WORKER_FATAL :: bool
  ADDS_PROCESSED :: usize
  ADDS_REJECTED :: usize
  REDOS_PROCESSED :: usize
  REDOS_DROPPED :: usize
  ERRORS :: usize
  REDO_IN_FLIGHT :: usize
  LOAD_BUSY_NS :: u64
  REDO_BUSY_NS :: u64
  SAMPLE_REDO_RECORDS :: bool

definition init_globals :: globals where
  "init_globals = \<lparr>RUNNING = True, WORKER_FATAL = False, ADDS_PROCESSED = 0, ADDS_REJECTED = 0,
     REDOS_PROCESSED = 0, REDOS_DROPPED = 0, ERRORS = 0, REDO_IN_FLIGHT = 0,
     LOAD_BUSY_NS = 0, REDO_BUSY_NS = 0, SAMPLE_REDO_RECORDS = False\<rparr>"

text \<open>What the handler of \<open>install_shutdown_handler\<close> (\<open>runtime.rs\<close>) does on a signal.\<close>

definition request_shutdown :: "globals \<Rightarrow> globals" where
  [simp]: "request_shutdown g = g\<lparr>RUNNING := False\<rparr>"

text \<open>\<open>START_TIME\<close> is a cell set once: the first call stores the clock, later ones read it.\<close>

definition start_time :: "nat \<Rightarrow> nat option \<Rightarrow> nat \<times> nat option" where
  "start_time now cell = (case cell of None \<Rightarrow> (now, Some now) | Some t \<Rightarrow> (t, cell))"

lemma start_time_first_call_wins:
  "start_time later (snd (start_time now cell)) = start_time now cell"
  by (simp add: start_time_def split: option.splits)

section \<open>\<open>Ewma\<close>\<close>

record ewma =
  ew_alpha :: f64
  ew_value :: "f64 option"

definition ewma_new :: "f64 \<Rightarrow> ewma" where
  "ewma_new alpha = \<lparr>ew_alpha = alpha, ew_value = None\<rparr>"

definition ewma_update :: "ewma \<Rightarrow> f64 \<Rightarrow> f64 \<times> ewma" where
  "ewma_update e sample =
     (let v = (case ew_value e of
                 None \<Rightarrow> sample
               | Some prev \<Rightarrow>
                   f64_add (f64_mul (ew_alpha e) sample) (f64_mul (f64_sub 1 (ew_alpha e)) prev))
      in (v, e\<lparr>ew_value := Some v\<rparr>))"

section \<open>The status line\<close>

record status_line =
  sl_redo_percent :: u8
  sl_load_pref :: usize
  sl_redo_pref :: usize
  sl_adds :: usize
  sl_adds_rate :: f64
  sl_redos :: usize
  sl_redos_rate :: f64
  sl_mq_depth :: "u32 option"
  sl_redo_backlog :: "i64 option"
  sl_redo_backlog_slope :: "f64 option"

definition round1 :: "f64 \<Rightarrow> f64" where
  "round1 v = f64_div (f64_round (f64_mul v 10)) 10"

definition mode :: "status_line \<Rightarrow> string" where
  "mode s =
     (if sl_redo_percent s = 0 then ''load_only''
      else if sl_redo_percent s = 100 then ''redo_only''
      else if sl_mq_depth s = Some 0 then ''redo_drain'' else ''mixed'')"

abbreviation ju :: "usize \<Rightarrow> json" where "ju n \<equiv> JNumber (JUInt n)"
abbreviation jf :: "f64 \<Rightarrow> json" where "jf x \<equiv> JNumber (JFloat x)"

definition insert_opt :: "string \<Rightarrow> json option \<Rightarrow> (string \<rightharpoonup> json) \<Rightarrow> (string \<rightharpoonup> json)" where
  "insert_opt k v obj = (case v of None \<Rightarrow> obj | Some x \<Rightarrow> obj(k \<mapsto> x))"

definition add_fields :: "globals \<Rightarrow> status_line \<Rightarrow> (string \<rightharpoonup> json) \<Rightarrow> (string \<rightharpoonup> json)" where
  "add_fields g s obj =
     (if sl_redo_percent s < 100 then
        insert_opt ''mq_depth'' (map_option (\<lambda>d. ju (ucast d)) (sl_mq_depth s))
          (obj(''adds'' \<mapsto> ju (sl_adds s), ''adds_rate'' \<mapsto> jf (round1 (sl_adds_rate s)),
               ''adds_rejected'' \<mapsto> ju (ADDS_REJECTED g)))
      else obj)"

definition redo_fields :: "globals \<Rightarrow> status_line \<Rightarrow> (string \<rightharpoonup> json) \<Rightarrow> (string \<rightharpoonup> json)" where
  "redo_fields g s obj =
     (if sl_redo_percent s > 0 then
        insert_opt ''redo_backlog_slope'' (map_option (\<lambda>x. jf (round1 x)) (sl_redo_backlog_slope s))
          (insert_opt ''redo_backlog'' (map_option (\<lambda>b. JNumber (JInt b)) (sl_redo_backlog s))
            (obj(''redos'' \<mapsto> ju (sl_redos s), ''redos_rate'' \<mapsto> jf (round1 (sl_redos_rate s)),
                 ''redos_dropped'' \<mapsto> ju (REDOS_DROPPED g))))
      else obj)"

text \<open>\<open>redo_share_effective\<close>: \<open>None\<close> when no engine time has been measured.\<close>

definition redo_share :: "globals \<Rightarrow> f64 option" where
  "redo_share g =
     (let load_ns = LOAD_BUSY_NS g; redo_ns = REDO_BUSY_NS g
      in if load_ns + redo_ns > 0 then
           (let share = f64_div (f64_of_u64 redo_ns) (f64_of_u64 (load_ns + redo_ns))
            in Some (f64_div (f64_round (f64_mul share 1000)) 1000))
         else None)"

definition emit_status_line :: "globals \<Rightarrow> status_line \<Rightarrow> (string \<rightharpoonup> json)" where
  "emit_status_line g s =
     (insert_opt ''redo_share_effective'' (map_option jf (redo_share g))
       ((redo_fields g s (add_fields g s Map.empty))(''errors'' \<mapsto> ju (ERRORS g))))
     (''mode'' \<mapsto> JString (mode s),
      ''threads'' \<mapsto> JObject [(''load_pref'', ju (sl_load_pref s)), (''redo_pref'', ju (sl_redo_pref s))])"

section \<open>The redo-floor guard\<close>

definition FLOOR_GUARD_INTERVALS :: u32 where "FLOOR_GUARD_INTERVALS = 5"
definition FLOOR_BACKLOG_SMALL :: int where "FLOOR_BACKLOG_SMALL = 1000"
definition FLOOR_BACKLOG_FLAT_DELTA :: int where "FLOOR_BACKLOG_FLAT_DELTA = 5"

datatype guard_transition = Tripped | Cleared | Unchanged

record floor_guard =
  fg_consecutive :: u32
  fg_prev_backlog :: "i64 option"
  fg_prev_redos :: usize
  fg_active :: bool

definition floor_guard_default :: floor_guard where
  "floor_guard_default = \<lparr>fg_consecutive = 0, fg_prev_backlog = None, fg_prev_redos = 0, fg_active = False\<rparr>"

text \<open>\<open>i64::abs\<close> in the release profile: \<open>i64::MIN\<close> stays \<open>i64::MIN\<close>.\<close>

definition i64_abs :: "i64 \<Rightarrow> i64" where
  "i64_abs x = (if sint x < 0 then - x else x)"

definition backlog_small_flat :: "i64 option \<Rightarrow> i64 option \<Rightarrow> bool" where
  "backlog_small_flat backlog prev =
     (case (backlog, prev) of
        (Some b, Some p) \<Rightarrow>
          sint b > 0 \<and> sint b \<le> FLOOR_BACKLOG_SMALL \<and> sint (i64_abs (b - p)) \<le> FLOOR_BACKLOG_FLAT_DELTA
      | _ \<Rightarrow> False)"

definition suspicious :: "floor_guard \<Rightarrow> usize \<Rightarrow> i64 option \<Rightarrow> u32 option \<Rightarrow> bool" where
  "suspicious g redos_total backlog mq_depth =
     (redos_total > fg_prev_redos g \<and> (case mq_depth of None \<Rightarrow> True | Some d \<Rightarrow> d = 0)
      \<and> backlog_small_flat backlog (fg_prev_backlog g))"

definition observe ::
  "floor_guard \<Rightarrow> usize \<Rightarrow> i64 option \<Rightarrow> u32 option \<Rightarrow> guard_transition \<times> floor_guard" where
  "observe g redos_total backlog mq_depth =
     (let susp = suspicious g redos_total backlog mq_depth;
          g1 = g\<lparr>fg_prev_backlog := backlog, fg_prev_redos := redos_total\<rparr>
      in if susp then
           (let g2 = g1\<lparr>fg_consecutive := fg_consecutive g1 + 1\<rparr>
            in if fg_consecutive g2 \<ge> FLOOR_GUARD_INTERVALS \<and> \<not> fg_active g2
               then (Tripped, g2\<lparr>fg_active := True\<rparr>) else (Unchanged, g2))
         else
           (let g2 = g1\<lparr>fg_consecutive := 0\<rparr>
            in if fg_active g2 then (Cleared, g2\<lparr>fg_active := False\<rparr>) else (Unchanged, g2)))"

section \<open>What the guard watches for\<close>

text \<open>
  The specification of the guard: an interval is suspicious when, against the interval before
  it, redo has progressed, the queue is empty or unknown, and the backlog is small and flat.
  \<open>run_len\<close> counts the suspicious intervals that end an observation history (latest first).
\<close>

type_synonym observation = "usize \<times> i64 option \<times> u32 option"

definition interval_suspicious :: "observation option \<Rightarrow> observation \<Rightarrow> bool" where
  "interval_suspicious before now =
     (case (before, now) of
        (Some (r0, Some p, _), (r, Some b, d)) \<Rightarrow>
          r0 < r \<and> (d = None \<or> d = Some 0) \<and> 0 < sint b \<and> sint b \<le> 1000 \<and> sint (i64_abs (b - p)) \<le> 5
      | _ \<Rightarrow> False)"

fun run_len :: "observation list \<Rightarrow> nat" where
  "run_len [] = 0"
| "run_len (ob # rest) =
     (if interval_suspicious (case rest of [] \<Rightarrow> None | p # _ \<Rightarrow> Some p) ob then Suc (run_len rest) else 0)"

text \<open>The guard after an observation history, latest first.\<close>

fun guard_after :: "observation list \<Rightarrow> floor_guard" where
  "guard_after [] = floor_guard_default"
| "guard_after ((r, b, d) # rest) = snd (observe (guard_after rest) r b d)"

definition guard_emits :: "observation list \<Rightarrow> observation \<Rightarrow> guard_transition" where
  "guard_emits rest ob = (case ob of (r, b, d) \<Rightarrow> fst (observe (guard_after rest) r b d))"

lemmas guard_defs = observe_def Let_def FLOOR_GUARD_INTERVALS_def

lemma run_len_le: "run_len os \<le> length os"
  by (induction os) auto

lemma guard_after_prev:
  "fg_prev_backlog (guard_after os) = (case os of [] \<Rightarrow> None | (_, b, _) # _ \<Rightarrow> b)"
  "fg_prev_redos (guard_after os) = (case os of [] \<Rightarrow> 0 | (r, _, _) # _ \<Rightarrow> r)"
  by (cases os; auto simp: floor_guard_default_def guard_defs split: prod.splits)+

lemma suspicious_iff:
  "suspicious (guard_after rest) r b d =
     interval_suspicious (case rest of [] \<Rightarrow> None | p # _ \<Rightarrow> Some p) (r, b, d)"
  by (auto simp: suspicious_def interval_suspicious_def backlog_small_flat_def guard_after_prev
      FLOOR_BACKLOG_SMALL_def FLOOR_BACKLOG_FLAT_DELTA_def split: list.splits option.splits prod.splits)

lemma unat_plus_one_u32: "unat (w :: u32) + 1 < 2 ^ 32 \<Longrightarrow> unat (w + 1) = unat w + 1"
  by (simp add: unat_word_ariths)

lemma guard_after_run:
  "length os < 2 ^ 32 \<Longrightarrow>
     unat (fg_consecutive (guard_after os)) = run_len os \<and> fg_active (guard_after os) = (5 \<le> run_len os)"
proof (induction os)
  case Nil
  then show ?case by (simp add: floor_guard_default_def)
next
  case (Cons ob rest)
  obtain r b d where ob: "ob = (r, b, d)" by (cases ob)
  have ih: "unat (fg_consecutive (guard_after rest)) = run_len rest"
    "fg_active (guard_after rest) = (5 \<le> run_len rest)" using Cons by auto
  show ?case
  proof (cases "suspicious (guard_after rest) r b d")
    case True
    have "run_len rest + 1 < 2 ^ 32" using run_len_le [of rest] Cons.prems by simp
    then have u: "unat (fg_consecutive (guard_after rest) + 1) = run_len rest + 1"
      using unat_plus_one_u32 [of "fg_consecutive (guard_after rest)"] ih(1) by simp
    then have c5: "(5 \<le> fg_consecutive (guard_after rest) + 1) = (5 \<le> run_len rest + 1)"
      by (simp add: word_le_nat_alt)
    show ?thesis using True u ih c5 by (auto simp: ob guard_defs suspicious_iff [symmetric])
  next
    case False
    then show ?thesis by (auto simp: ob guard_defs suspicious_iff [symmetric])
  qed
qed

section \<open>Properties\<close>

text \<open>C37: the guard trips exactly at the fifth consecutive suspicious interval, clears exactly at
  the first interval that is not suspicious after it tripped, and reports nothing otherwise.\<close>

theorem floor_guard_transitions:
  assumes "length rest < 2 ^ 32 - 1"
  shows "guard_emits rest ob =
    (if run_len (ob # rest) = 5 then Tripped
     else if run_len (ob # rest) = 0 \<and> 5 \<le> run_len rest then Cleared else Unchanged)"
proof -
  obtain r b d where ob: "ob = (r, b, d)" by (cases ob)
  have ih: "unat (fg_consecutive (guard_after rest)) = run_len rest"
    "fg_active (guard_after rest) = (5 \<le> run_len rest)" using guard_after_run [of rest] assms by auto
  have "run_len rest + 1 < 2 ^ 32" using run_len_le [of rest] assms by simp
  then have "unat (fg_consecutive (guard_after rest) + 1) = run_len rest + 1"
    using unat_plus_one_u32 [of "fg_consecutive (guard_after rest)"] ih(1) by simp
  then have "(5 \<le> fg_consecutive (guard_after rest) + 1) = (4 \<le> run_len rest)"
    by (simp add: word_le_nat_alt)
  then show ?thesis using ih
    by (auto simp: ob guard_emits_def guard_defs suspicious_iff [symmetric])
qed

definition flat_history :: "observation list" where
  "flat_history = [(104, Some 50, None), (103, Some 50, None), (102, Some 50, None),
     (101, Some 50, None), (100, Some 50, None)]"

theorem floor_guard_transitions_witness:
  "guard_emits flat_history (105, Some 50, None) = Tripped
   \<and> guard_emits flat_history (105, Some 500, None) = Unchanged"
  using floor_guard_transitions [of flat_history "(105, Some 50, None)"]
    floor_guard_transitions [of flat_history "(105, Some 500, None)"]
  by (simp add: flat_history_def interval_suspicious_def i64_abs_def)

text \<open>Since the backlog gauge was removed every caller passes \<open>None\<close> for the backlog, and with
  it the guard can never trip, whatever the redo counter and the queue depth do.\<close>

theorem floor_guard_never_trips_without_backlog:
  "guard_emits (map (\<lambda>(r, d). (r, None, d)) obs) (r, None, d) = Unchanged"
proof -
  have act: "\<not> fg_active (guard_after (map (\<lambda>(r, d). (r, None, d)) obs))"
    by (induction obs)
      (auto simp: floor_guard_default_def guard_defs suspicious_def backlog_small_flat_def)
  then show ?thesis
    by (auto simp: guard_emits_def guard_defs suspicious_def backlog_small_flat_def)
qed

text \<open>The status line at the endpoints. At 0 percent it has no redo field, at 100 percent no
  load or queue field, and in between it has both counters; the mode, the thread split and the
  error count are always present.\<close>

theorem status_line_fields:
  "(sl_redo_percent s = 0 \<longrightarrow>
      dom (emit_status_line g s) \<inter> {''redos'', ''redos_rate'', ''redos_dropped'', ''redo_backlog'',
        ''redo_backlog_slope''} = {}) \<and>
   (sl_redo_percent s = 100 \<longrightarrow>
      dom (emit_status_line g s) \<inter> {''adds'', ''adds_rate'', ''adds_rejected'', ''mq_depth''} = {}) \<and>
   (0 < sl_redo_percent s \<and> sl_redo_percent s < 100 \<longrightarrow>
      emit_status_line g s ''adds'' = Some (ju (sl_adds s)) \<and>
      emit_status_line g s ''redos'' = Some (ju (sl_redos s))) \<and>
   emit_status_line g s ''mode'' = Some (JString (mode s)) \<and>
   emit_status_line g s ''errors'' = Some (ju (ERRORS g)) \<and>
   ''threads'' \<in> dom (emit_status_line g s)"
  by (auto simp: emit_status_line_def insert_opt_def redo_fields_def add_fields_def
      split: option.splits)

theorem status_line_fields_witness:
  "emit_status_line init_globals
     \<lparr>sl_redo_percent = 0, sl_load_pref = 12, sl_redo_pref = 0, sl_adds = 7, sl_adds_rate = 1,
      sl_redos = 0, sl_redos_rate = 0, sl_mq_depth = None, sl_redo_backlog = None,
      sl_redo_backlog_slope = None\<rparr> ''redos'' = None"
  using status_line_fields [where g = init_globals and s = "\<lparr>sl_redo_percent = 0, sl_load_pref = 12,
      sl_redo_pref = 0, sl_adds = 7, sl_adds_rate = 1, sl_redos = 0, sl_redos_rate = 0,
      sl_mq_depth = None, sl_redo_backlog = None, sl_redo_backlog_slope = None\<rparr>"] by auto

text \<open>The reported share of engine time spent on redo is a number between 0 and 1, and it is
  missing exactly when no engine time has been measured (for measured times whose sum fits in 64 bits).\<close>

theorem redo_share_bounds:
  assumes "unat (LOAD_BUSY_NS g) + unat (REDO_BUSY_NS g) < 2 ^ 64"
  shows "(redo_share g = None \<longleftrightarrow> LOAD_BUSY_NS g = 0 \<and> REDO_BUSY_NS g = 0) \<and>
    (case redo_share g of None \<Rightarrow> True | Some v \<Rightarrow> 0 \<le> v \<and> v \<le> 1)"
proof -
  let ?l = "LOAD_BUSY_NS g" and ?r = "REDO_BUSY_NS g"
  have sum: "unat (?l + ?r) = unat ?l + unat ?r" using assms by (simp add: unat_word_ariths)
  then have "unat ?r \<le> unat (?l + ?r)" by simp
  from share_bounds [OF this]
  have b: "redo_share g = Some v \<Longrightarrow> 0 \<le> v \<and> v \<le> 1" for v
    unfolding redo_share_def Let_def f64_of_u64_def by (auto split: if_splits)
  have "?l + ?r = 0 \<longleftrightarrow> ?l = 0 \<and> ?r = 0"
    using sum by (metis add_is_0 unat_eq_zero)
  then have "redo_share g = None \<longleftrightarrow> ?l = 0 \<and> ?r = 0"
    by (auto simp: redo_share_def Let_def word_gt_0)
  with b show ?thesis by (auto split: option.splits)
qed

theorem redo_share_bounds_witness:
  "(\<exists>v. redo_share (init_globals\<lparr>LOAD_BUSY_NS := 3, REDO_BUSY_NS := 1\<rparr>) = Some v \<and> v \<le> 1)"
  using redo_share_bounds [of "init_globals\<lparr>LOAD_BUSY_NS := 3, REDO_BUSY_NS := 1\<rparr>"]
  by (auto simp: init_globals_def split: option.splits)

end
