(* ===== verification/Sz_Ext.thy ===== *)
theory Sz_Ext
  imports Sz_Stats
begin

text \<open>
  The code the program calls and the repository does not hold, as one record of parameters:
  the Senzing SDK (\<open>sz_rust_sdk\<close>), \<open>serde_json\<close> and the operating system's clock and sleep.

  \<open>'w\<close> is the state of the outside world (engine, database, time) and \<open>'e\<close> the SDK's error type.
  A call takes the world and returns its result with the world after it; nothing is assumed of
  a call here. Properties that rely on documented behaviour name it as a hypothesis.
  The handles of the SDK (\<open>get_engine\<close>, \<open>get_config_manager\<close>) carry no state: \<open>unit\<close>.
\<close>

record ('w, 'e) ext = "'e err_api" +
  json_parse :: "string \<Rightarrow> json option"
  default_add_flags :: u64
  get_engine :: "'w \<Rightarrow> ('e + unit) \<times> 'w"
  add_record :: "string \<Rightarrow> string \<Rightarrow> string \<Rightarrow> u64 option \<Rightarrow> 'w \<Rightarrow> ('e + string) \<times> 'w"
  process_redo_record :: "string \<Rightarrow> u64 option \<Rightarrow> 'w \<Rightarrow> ('e + string) \<times> 'w"
  get_redo_record :: "'w \<Rightarrow> ('e + string) \<times> 'w"
  get_stats :: "'w \<Rightarrow> ('e + string) \<times> 'w"
  get_config_manager :: "'w \<Rightarrow> ('e + unit) \<times> 'w"
  get_default_config_id :: "'w \<Rightarrow> ('e + i64) \<times> 'w"
  reinitialize :: "i64 \<Rightarrow> 'w \<Rightarrow> ('e + unit) \<times> 'w"
  get_active_config_id :: "'w \<Rightarrow> ('e + i64) \<times> 'w"
  get_license :: "'w \<Rightarrow> ('e + string) \<times> 'w"
  now_ns :: "'w \<Rightarrow> nat"
  sleep_ns :: "nat \<Rightarrow> 'w \<Rightarrow> 'w"

text \<open>What a process prints on standard output, line by line.\<close>

datatype out_line =
    InfoPayload string
  | EngineStats string
  | CombinedStats "string \<rightharpoonup> json"
  | AddsProgress u64 i64
  | Rejecting record_info
  | RejectingBadData record_info
  | AllStuck usize
  | ProcessedTotal u64 usize usize usize
  | FileLoadSummary usize u64

section \<open>A concrete instance\<close>

text \<open>
  A small engine used by the witnesses: the world is the registered default configuration, the
  one the engine runs and a clock; a record is accepted unless its id is \<open>bad\<close> (bad input) or
  \<open>dead\<close> (an unrecoverable error).
\<close>

datatype demo_error = DemoBadInput | DemoRetry | DemoDatabase | DemoDqm

record demo_world =
  dw_default :: i64
  dw_active :: i64
  dw_time :: nat
  dw_redo :: "string list"

definition demo_json :: "string \<Rightarrow> json option" where
  "demo_json t =
     (if t = ''{}'' then Some (JObject [])
      else if t = ''r1'' then Some (JObject [(''DATA_SOURCE'', JString ''T''), (''RECORD_ID'', JString ''r1'')])
      else if t = ''bad'' then Some (JObject [(''DATA_SOURCE'', JString ''T''), (''RECORD_ID'', JString ''bad'')])
      else if t = ''dead'' then Some (JObject [(''DATA_SOURCE'', JString ''T''), (''RECORD_ID'', JString ''dead'')])
      else None)"

definition demo_ext :: "(demo_world, demo_error) ext" where
  "demo_ext = \<lparr>
     is_bad_input = (\<lambda>e. e = DemoBadInput), is_retryable = (\<lambda>e. e = DemoRetry),
     error_code = (\<lambda>e. if e = DemoDqm then Some 82 else None),
     err_display = (\<lambda>e. ''engine error''),
     json_parse = demo_json, default_add_flags = 0,
     get_engine = (\<lambda>w. (Ok (), w)),
     add_record = (\<lambda>ds rid body fl w.
       (if rid = ''bad'' then Err DemoBadInput else if rid = ''dead'' then Err DemoDatabase
        else Ok ''done'', w\<lparr>dw_time := dw_time w + 5\<rparr>)),
     process_redo_record = (\<lambda>r fl w.
       (if r = ''bad'' then Err DemoRetry else if r = ''dead'' then Err DemoDatabase else Ok [],
        w\<lparr>dw_time := dw_time w + 5\<rparr>)),
     get_redo_record = (\<lambda>w. case dw_redo w of [] \<Rightarrow> (Ok [], w) | r # rs \<Rightarrow> (Ok r, w\<lparr>dw_redo := rs\<rparr>)),
     get_stats = (\<lambda>w. (Ok ''stats'', w)),
     get_config_manager = (\<lambda>w. (Ok (), w)),
     get_default_config_id = (\<lambda>w. (Ok (dw_default w), w)),
     reinitialize = (\<lambda>d w. (Ok (), w\<lparr>dw_active := d\<rparr>)),
     get_active_config_id = (\<lambda>w. (Ok 0, w)),
     get_license = (\<lambda>w. (Ok ''license'', w)),
     now_ns = dw_time, sleep_ns = (\<lambda>n w. w\<lparr>dw_time := dw_time w + n\<rparr>)\<rparr>"

definition demo_world0 :: demo_world where
  "demo_world0 = \<lparr>dw_default = 7, dw_active = 7, dw_time = 0, dw_redo = []\<rparr>"

lemmas demo_defs = demo_ext_def demo_world0_def demo_json_def

end
