(* ===== verification/Sz_Channel.thy ===== *)
theory Sz_Channel
  imports Sz_Ext
begin

text \<open>
  The bounded channels between the threads. \<open>TryOutcome\<close> and the two wrappers \<open>try_recv_load\<close> and
  \<open>try_recv_redo\<close> are those of \<open>crates/core/src/worker.rs\<close>.

  What the clients of a channel rely on is the locale \<open>bounded_fifo\<close>; the channel of the model
  (a buffer, its capacity, the number of live senders, whether the receiver lives) is
  \<open>std::sync::mpsc::sync_channel\<close>, and \<open>tokio::sync::mpsc::channel\<close> documents the same contract.
\<close>

datatype 'a try_outcome = Item 'a | Empty | Closed

datatype send_outcome = Sent | Full | Disconnected

section \<open>The interface\<close>

datatype 'a chan_op = OpSend 'a | OpRecv

locale bounded_fifo =
  fixes contents :: "'c \<Rightarrow> 'a list"
    and capacity :: "'c \<Rightarrow> nat"
    and closed :: "'c \<Rightarrow> bool"
    and recv :: "'c \<Rightarrow> 'a try_outcome \<times> 'c"
    and send :: "'c \<Rightarrow> 'a \<Rightarrow> send_outcome \<times> 'c"
  assumes recv_item: "contents c = x # xs \<Longrightarrow>
      fst (recv c) = Item x \<and> contents (snd (recv c)) = xs \<and>
      capacity (snd (recv c)) = capacity c \<and> closed (snd (recv c)) = closed c"
    and recv_none: "contents c = [] \<Longrightarrow> recv c = (if closed c then Closed else Empty, c)"
    and send_Sent: "send c x = (Sent, c') \<Longrightarrow>
      contents c' = contents c @ [x] \<and> capacity c' = capacity c \<and> length (contents c) < capacity c"
    and send_no: "send c x = (r, c') \<Longrightarrow> r \<noteq> Sent \<Longrightarrow> c' = c"
begin

text \<open>Runs of operations: what was accepted for sending and what was received, in order.\<close>

fun run_ops :: "'c \<Rightarrow> 'a chan_op list \<Rightarrow> 'a list \<times> 'a list \<times> 'c" where
  "run_ops c [] = ([], [], c)"
| "run_ops c (OpSend x # ops) =
     (case send c x of (r, c') \<Rightarrow>
       (case run_ops c' ops of (acc, got, c'') \<Rightarrow> (if r = Sent then x # acc else acc, got, c'')))"
| "run_ops c (OpRecv # ops) =
     (case recv c of (r, c') \<Rightarrow>
       (case run_ops c' ops of (acc, got, c'') \<Rightarrow>
         (acc, (case r of Item x \<Rightarrow> x # got | _ \<Rightarrow> got), c'')))"

lemma recv_cases:
  obtains (item) x where "fst (recv c) = Item x" "contents c = x # contents (snd (recv c))"
      "capacity (snd (recv c)) = capacity c"
    | (none) "contents c = []" "snd (recv c) = c" "fst (recv c) = Empty \<or> fst (recv c) = Closed"
proof (cases "contents c")
  case Nil
  with recv_none [OF Nil] show ?thesis by (intro none) auto
next
  case (Cons x xs)
  with recv_item [OF Cons] show ?thesis by (intro item [of x]) auto
qed

text \<open>Nothing is lost, duplicated or reordered.\<close>

lemma fifo_conservation:
  "run_ops c ops = (acc, got, c') \<Longrightarrow> got @ contents c' = contents c @ acc"
proof (induction ops arbitrary: c acc got)
  case (Cons op ops)
  show ?case
  proof (cases op)
    case (OpSend x)
    obtain r c1 where s: "send c x = (r, c1)" by fastforce
    obtain acc1 where r1: "run_ops c1 ops = (acc1, got, c')" and acc: "acc = (if r = Sent then x # acc1 else acc1)"
      using Cons.prems by (auto simp: OpSend s split: prod.splits)
    show ?thesis
    proof (cases "r = Sent")
      case True
      then show ?thesis using Cons.IH [OF r1] send_Sent s acc by simp
    next
      case False
      then show ?thesis using Cons.IH [OF r1] send_no [OF s] acc by simp
    qed
  next
    case OpRecv
    obtain r c1 where s: "recv c = (r, c1)" by fastforce
    obtain got1 where r1: "run_ops c1 ops = (acc, got1, c')"
      and got: "got = (case r of Item x \<Rightarrow> x # got1 | _ \<Rightarrow> got1)"
      using Cons.prems by (auto simp: OpRecv s split: prod.splits)
    show ?thesis
      by (rule recv_cases [of c]) (use Cons.IH [OF r1] s got in auto)
  qed
qed simp

lemma bounded_run:
  "length (contents c) \<le> capacity c \<Longrightarrow> run_ops c ops = (acc, got, c') \<Longrightarrow>
     length (contents c') \<le> capacity c' \<and> capacity c' = capacity c"
proof (induction ops arbitrary: c acc got)
  case (Cons op ops)
  show ?case
  proof (cases op)
    case (OpSend x)
    obtain r c1 where s: "send c x = (r, c1)" by fastforce
    obtain acc1 where r1: "run_ops c1 ops = (acc1, got, c')"
      using Cons.prems(2) by (auto simp: OpSend s split: prod.splits)
    have "length (contents c1) \<le> capacity c1 \<and> capacity c1 = capacity c"
      using send_Sent [of c x c1] send_no [OF s] s Cons.prems(1) by (cases "r = Sent") auto
    then show ?thesis using Cons.IH [OF _ r1] by simp
  next
    case OpRecv
    obtain r c1 where s: "recv c = (r, c1)" by fastforce
    obtain got1 where r1: "run_ops c1 ops = (acc, got1, c')"
      using Cons.prems(2) by (auto simp: OpRecv s split: prod.splits)
    have "length (contents c1) \<le> capacity c1 \<and> capacity c1 = capacity c"
      by (rule recv_cases [of c]) (use s Cons.prems(1) in auto)
    then show ?thesis using Cons.IH [OF _ r1] by simp
  qed
qed simp

end

section \<open>The channel of the model\<close>

record 'a chan =
  ch_buf :: "'a list"
  ch_cap :: nat
  ch_senders :: nat
  ch_rx :: bool

definition chan_new :: "nat \<Rightarrow> nat \<Rightarrow> 'a chan" where
  "chan_new capacity n = \<lparr>ch_buf = [], ch_cap = capacity, ch_senders = n, ch_rx = True\<rparr>"

definition chan_recv :: "'a chan \<Rightarrow> 'a try_outcome \<times> 'a chan" where
  "chan_recv c =
     (case ch_buf c of
        x # xs \<Rightarrow> (Item x, c\<lparr>ch_buf := xs\<rparr>)
      | [] \<Rightarrow> (if ch_senders c = 0 then Closed else Empty, c))"

definition chan_send :: "'a chan \<Rightarrow> 'a \<Rightarrow> send_outcome \<times> 'a chan" where
  "chan_send c x =
     (if \<not> ch_rx c then (Disconnected, c)
      else if length (ch_buf c) < ch_cap c then (Sent, c\<lparr>ch_buf := ch_buf c @ [x]\<rparr>)
      else (Full, c))"

text \<open>
  A blocking send returns once there is room, or with an error once the receiver is gone: its
  effect when it returns. The waiting itself is in the step relations, as a guard.
\<close>

definition chan_blocking_send :: "'a chan \<Rightarrow> 'a \<Rightarrow> bool \<times> 'a chan" where
  "chan_blocking_send c x = (if ch_rx c then (True, c\<lparr>ch_buf := ch_buf c @ [x]\<rparr>) else (False, c))"

definition chan_drop_sender :: "'a chan \<Rightarrow> 'a chan" where
  "chan_drop_sender c = c\<lparr>ch_senders := ch_senders c - 1\<rparr>"

interpretation ch: bounded_fifo ch_buf ch_cap "\<lambda>c. ch_senders c = 0" chan_recv chan_send
  by unfold_locales (auto simp: chan_recv_def chan_send_def split: if_splits)

end
