(* ===== verification/Sz_Config_Reload.thy ===== *)
theory Sz_Config_Reload
  imports Sz_Channel
begin

text \<open>
  \<open>crates/core/src/config_reload.rs\<close>: adopting a new registered default configuration without a
  restart. The first part is the code of one thread, call by call. The second part splits
  \<open>reconcile\<close> and the throttle of \<open>poll\<close> at their atomic operations and runs them in any number of
  threads, interleaved in any order.
\<close>

section \<open>The statics\<close>

record reload =
  ADOPTED_DEFAULT :: i64
  LAST_POLL_MS :: u64
  POLL_BASE :: "nat option"

text \<open>\<open>i64::MIN\<close>\<close>

definition NO_DEFAULT :: i64 where
  "NO_DEFAULT = push_bit 63 1"

definition init_reload :: reload where
  "init_reload = \<lparr>ADOPTED_DEFAULT = NO_DEFAULT, LAST_POLL_MS = 0, POLL_BASE = None\<rparr>"

section \<open>The poll interval\<close>

text \<open>\<open>str::parse::<u64>\<close>: an optional \<open>+\<close>, at least one digit, no overflow.\<close>

fun digits_val :: "string \<Rightarrow> nat \<Rightarrow> nat option" where
  "digits_val [] acc = Some acc"
| "digits_val (c # cs) acc =
     (if 48 \<le> byte c \<and> byte c \<le> 57 then digits_val cs (10 * acc + (byte c - 48)) else None)"

definition parse_u64 :: "string \<Rightarrow> u64 option" where
  "parse_u64 s =
     (let ds = (case s of c # r \<Rightarrow> if byte c = 43 then r else s | [] \<Rightarrow> s)
      in if ds = [] then None
         else (case digits_val ds 0 of
                 None \<Rightarrow> None
               | Some n \<Rightarrow> if n < 2 ^ 64 then Some (of_nat n) else None))"

definition poll_interval :: "host \<Rightarrow> u64 option" where
  "poll_interval h =
     (let secs = (case Option.bind (env_var h ''SENZING_CONFIG_RELOAD_SECS'') parse_u64 of
                    Some n \<Rightarrow> n | None \<Rightarrow> 60)
      in if secs > 0 then Some secs else None)"

section \<open>\<open>reconcile\<close>, \<open>poll\<close>, \<open>reinit_if_stale\<close>, \<open>log_startup_config\<close>\<close>

text \<open>\<open>env.get_config_manager()?.get_default_config_id()?\<close>\<close>

definition fetch_default :: "('w, 'e) ext \<Rightarrow> 'w \<Rightarrow> ('e + i64) \<times> 'w" where
  "fetch_default X w =
     (case get_config_manager X w of
        (Inl e, w1) \<Rightarrow> (Err e, w1)
      | (Inr _, w1) \<Rightarrow> get_default_config_id X w1)"

definition reconcile :: "('w, 'e) ext \<Rightarrow> reload \<Rightarrow> 'w \<Rightarrow> ('e + bool) \<times> reload \<times> 'w" where
  "reconcile X st w =
     (case fetch_default X w of
        (Inl e, w1) \<Rightarrow> (Err e, st, w1)
      | (Inr dflt, w1) \<Rightarrow>
         (let adopted = ADOPTED_DEFAULT st
          in if adopted = NO_DEFAULT then (Ok False, st\<lparr>ADOPTED_DEFAULT := dflt\<rparr>, w1)
             else if dflt = adopted then (Ok False, st, w1)
             else
               (case fetch_default X w1 of
                  (Inl e, w2) \<Rightarrow> (Err e, st, w2)
                | (Inr dflt', w2) \<Rightarrow>
                    if dflt' = ADOPTED_DEFAULT st then (Ok True, st, w2)
                    else
                      (case reinitialize X dflt' w2 of
                         (Inl e, w3) \<Rightarrow> (Err e, st, w3)
                       | (Inr _, w3) \<Rightarrow>
                           (Ok True, st\<lparr>ADOPTED_DEFAULT := dflt'\<rparr>,
                            snd (get_license X (snd (get_active_config_id X w3))))))))"

definition reinit_if_stale :: "('w, 'e) ext \<Rightarrow> reload \<Rightarrow> 'w \<Rightarrow> bool \<times> reload \<times> 'w" where
  "reinit_if_stale X st w =
     (case reconcile X st w of
        (Inr reinit_warranted, st1, w1) \<Rightarrow> (reinit_warranted, st1, w1)
      | (Inl _, st1, w1) \<Rightarrow> (False, st1, w1))"

definition log_startup_config :: "('w, 'e) ext \<Rightarrow> reload \<Rightarrow> 'w \<Rightarrow> reload \<times> 'w" where
  "log_startup_config X st w =
     (let w1 = snd (get_active_config_id X w)
      in case fetch_default X w1 of
           (Inr d, w2) \<Rightarrow> (st\<lparr>ADOPTED_DEFAULT := d\<rparr>, w2)
         | (Inl _, w2) \<Rightarrow> (st, w2))"

text \<open>Milliseconds since the anchor, and the throttle test.\<close>

definition poll_due :: "u64 \<Rightarrow> u64 \<Rightarrow> u64 \<Rightarrow> bool" where
  "poll_due interval now prev \<longleftrightarrow> \<not> (sat_sub now prev < interval)"

definition interval_ms :: "u64 \<Rightarrow> u64" where
  "interval_ms secs = of_nat (unat secs * 1000)"

definition poll :: "('w, 'e) ext \<Rightarrow> u64 option \<Rightarrow> reload \<Rightarrow> 'w \<Rightarrow> reload \<times> 'w" where
  "poll X interval st w =
     (case interval of
        None \<Rightarrow> (st, w)
      | Some secs \<Rightarrow>
         (let base = (case POLL_BASE st of None \<Rightarrow> now_ns X w | Some b \<Rightarrow> b);
              st1 = st\<lparr>POLL_BASE := Some base\<rparr>;
              now = of_nat ((now_ns X w - base) div 1000000);
              prev = LAST_POLL_MS st1
          in if \<not> poll_due (interval_ms secs) now prev then (st1, w)
             else (case reconcile X (st1\<lparr>LAST_POLL_MS := now\<rparr>) w of (_, st2, w2) \<Rightarrow> (st2, w2))))"

lemmas reload_defs = reconcile_def fetch_default_def reinit_if_stale_def log_startup_config_def
  poll_def Let_def

section \<open>Lemmas\<close>

lemma show_nat_nonempty: "show_nat n \<noteq> []"
  by (subst show_nat.simps) simp

lemma byte_digit: "n < 10 \<Longrightarrow> byte (char_of (48 + n)) = (48 + n :: nat)"
  by (simp add: of_char_of)

lemma digits_val_append:
  "digits_val (xs @ ys) acc = Option.bind (digits_val xs acc) (digits_val ys)"
  by (induction xs arbitrary: acc) auto

lemma digits_val_digit: "n < 10 \<Longrightarrow> digits_val [char_of (48 + n :: nat)] acc = Some (10 * acc + n)"
  by (simp add: byte_digit)

lemma digits_val_show: "digits_val (show_nat n) 0 = Some n"
proof (induction n rule: show_nat.induct)
  case (1 n)
  show ?case
  proof (cases "n < 10")
    case True
    then show ?thesis by (subst show_nat.simps) (simp add: byte_digit)
  next
    case False
    then have "digits_val (show_nat n) 0 =
        Option.bind (digits_val (show_nat (n div 10)) 0) (digits_val [char_of (48 + n mod 10)])"
      by (subst show_nat.simps) (simp only: digits_val_append if_False)
    also have "\<dots> = digits_val [char_of (48 + n mod 10)] (n div 10)"
      using "1.IH" False by (simp only: Option.bind.simps not_False_eq_True)
    also have "\<dots> = Some n" by (subst digits_val_digit) auto
    finally show ?thesis .
  qed
qed

lemma show_nat_hd: "\<exists>c cs. show_nat n = c # cs \<and> 48 \<le> byte c"
proof (induction n rule: show_nat.induct)
  case (1 n)
  show ?case
  proof (cases "n < 10")
    case True
    then show ?thesis by (subst show_nat.simps) (simp add: byte_digit)
  next
    case False
    with 1 obtain c cs where "show_nat (n div 10) = c # cs" "48 \<le> byte c" by auto
    with False show ?thesis by (subst show_nat.simps) auto
  qed
qed

lemma parse_show_u64: "parse_u64 (show_nat (unat w)) = Some w"
proof -
  obtain c cs where c: "show_nat (unat w) = c # cs" "48 \<le> byte c" using show_nat_hd by blast
  have "unat w < 2 ^ 64" using unsigned_less [of w] by simp
  with c digits_val_show [of "unat w"] show ?thesis by (simp add: parse_u64_def Let_def)
qed

section \<open>The engine and the adopted default\<close>

text \<open>
  What the SDK documents of the calls \<open>reconcile\<close> makes, for a reading \<open>eng\<close> of the configuration
  the engine runs: only a successful \<open>reinitialize\<close> changes it, to its argument.
\<close>

definition config_sdk :: "('w, 'e) ext \<Rightarrow> ('w \<Rightarrow> i64) \<Rightarrow> bool" where
  "config_sdk X eng \<longleftrightarrow>
     (\<forall>w. eng (snd (get_config_manager X w)) = eng w \<and> eng (snd (get_default_config_id X w)) = eng w \<and>
          eng (snd (get_active_config_id X w)) = eng w \<and> eng (snd (get_license X w)) = eng w \<and>
          (\<forall>d. eng (snd (reinitialize X d w)) = (if is_err (fst (reinitialize X d w)) then eng w else d)))"

lemma config_sdk_fetch:
  "config_sdk X eng \<Longrightarrow> fetch_default X w = (r, w1) \<Longrightarrow> eng w1 = eng w"
proof -
  assume sdk: "config_sdk X eng" and f: "fetch_default X w = (r, w1)"
  obtain m wm where m: "get_config_manager X w = (m, wm)" by fastforce
  have wm: "eng wm = eng w" using sdk m unfolding config_sdk_def by (metis snd_conv)
  have "eng (snd (get_default_config_id X wm)) = eng wm" using sdk unfolding config_sdk_def by blast
  with f m wm show "eng w1 = eng w" by (auto simp: fetch_default_def split: sum.splits)
qed

lemma config_sdk_reinit:
  "config_sdk X eng \<Longrightarrow> reinitialize X d w = (r, w1) \<Longrightarrow> eng w1 = (if is_err r then eng w else d)"
  unfolding config_sdk_def by (metis fst_conv snd_conv)

lemma config_sdk_log:
  "config_sdk X eng \<Longrightarrow> eng (snd (get_license X (snd (get_active_config_id X w)))) = eng w"
  unfolding config_sdk_def by simp

lemma reconcile_eng:
  assumes sdk: "config_sdk X eng" and r: "reconcile X st w = (r, st', w')"
    and seeded: "ADOPTED_DEFAULT st \<noteq> NO_DEFAULT" and step: "eng w = ADOPTED_DEFAULT st"
  shows "eng w' = ADOPTED_DEFAULT st'"
proof -
  obtain f1 w1 where f1: "fetch_default X w = (f1, w1)" by fastforce
  have e1: "eng w1 = eng w" using config_sdk_fetch [OF sdk f1] .
  obtain f2 w2 where f2: "fetch_default X w1 = (f2, w2)" by fastforce
  have e2: "eng w2 = eng w" using config_sdk_fetch [OF sdk f2] e1 by simp
  obtain f3 w3 where f3: "reinitialize X (case f2 of Inr d \<Rightarrow> d | Inl _ \<Rightarrow> 0) w2 = (f3, w3)" by fastforce
  have e3: "eng w3 = (if is_err f3 then eng w else (case f2 of Inr d \<Rightarrow> d | Inl _ \<Rightarrow> 0))"
    using config_sdk_reinit [OF sdk f3] e2 by simp
  show ?thesis using r f1 f2 f3 seeded step e1 e2 e3
    by (auto simp: reconcile_def Let_def config_sdk_log [OF sdk] split: sum.splits if_splits)
qed

section \<open>Properties\<close>

text \<open>C16: once the adopted default is seeded, the engine runs the adopted default before and after
  every \<open>reconcile\<close>, also when an SDK call in it fails; and a \<open>reconcile\<close> that reports a warranted
  reinitialisation leaves the adopted default at one the registry returned during the call.\<close>

theorem reconcile_keeps_engine_in_step:
  assumes "config_sdk X eng" "reconcile X st w = (r, st', w')"
    "ADOPTED_DEFAULT st \<noteq> NO_DEFAULT" "eng w = ADOPTED_DEFAULT st"
  shows "eng w' = ADOPTED_DEFAULT st' \<and>
    (r = Ok True \<longrightarrow> (\<exists>w1 w2. fetch_default X w1 = (Ok (ADOPTED_DEFAULT st'), w2)))"
proof
  show "eng w' = ADOPTED_DEFAULT st'" by (rule reconcile_eng [OF assms])
  show "r = Ok True \<longrightarrow> (\<exists>w1 w2. fetch_default X w1 = (Ok (ADOPTED_DEFAULT st'), w2))"
    using assms(2,3) by (auto simp: reconcile_def Let_def split: prod.splits sum.splits if_splits) blast+
qed

lemma demo_config_sdk: "config_sdk demo_ext dw_active"
  by (auto simp: config_sdk_def demo_ext_def)

theorem reconcile_keeps_engine_in_step_witness:
  "dw_active (snd (snd (reconcile demo_ext (init_reload\<lparr>ADOPTED_DEFAULT := 7\<rparr>)
      (demo_world0\<lparr>dw_default := 9\<rparr>)))) = 9"
proof -
  let ?st = "init_reload\<lparr>ADOPTED_DEFAULT := 7\<rparr>" and ?w = "demo_world0\<lparr>dw_default := 9\<rparr>"
  have r: "reconcile demo_ext ?st ?w = (Ok True, init_reload\<lparr>ADOPTED_DEFAULT := 9\<rparr>,
      demo_world0\<lparr>dw_default := 9, dw_active := 9\<rparr>)"
    by (simp add: reload_defs demo_defs init_reload_def NO_DEFAULT_def)
  have "ADOPTED_DEFAULT ?st \<noteq> NO_DEFAULT" by (simp add: NO_DEFAULT_def)
  from reconcile_keeps_engine_in_step [OF demo_config_sdk r this]
  have "dw_active (demo_world0\<lparr>dw_default := 9, dw_active := 9\<rparr>) = 9" by (simp add: demo_world0_def)
  then show ?thesis unfolding r by simp
qed

text \<open>A process that never seeded the adopted default (the SQS loop does not call
  \<open>log_startup_config\<close>) takes the registered default of its first check as the one the engine
  runs, without reinitialising. If the default changed since start-up the engine keeps the old
  configuration, and while the default stays the same no later check reinitialises it.\<close>

theorem unseeded_reload_is_missed:
  assumes sdk: "config_sdk X eng" and dflt: "\<And>w. \<exists>w'. fetch_default X w = (Ok d, w')" and "d \<noteq> NO_DEFAULT"
    and unseeded: "ADOPTED_DEFAULT st = NO_DEFAULT"
    and first: "reconcile X st w = (r1, st1, w1)" and again: "reconcile X st1 w1' = (r2, st2, w2)"
  shows "r1 = Ok False \<and> eng w1 = eng w \<and> r2 = Ok False \<and> eng w2 = eng w1' \<and> ADOPTED_DEFAULT st2 = d"
proof -
  obtain wa where a: "fetch_default X w = (Ok d, wa)" using dflt by blast
  obtain wb where b: "fetch_default X w1' = (Ok d, wb)" using dflt by blast
  have 1: "r1 = Ok False" "w1 = wa" "st1 = st\<lparr>ADOPTED_DEFAULT := d\<rparr>"
    using first a unseeded by (auto simp: reconcile_def Let_def)
  have 2: "r2 = Ok False" "w2 = wb" "st2 = st1"
    using again b assms(3) by (auto simp: reconcile_def Let_def 1)
  show ?thesis using 1 2 config_sdk_fetch [OF sdk a] config_sdk_fetch [OF sdk b] by simp
qed

theorem unseeded_reload_is_missed_witness:
  "dw_active (snd (snd (reconcile demo_ext init_reload (demo_world0\<lparr>dw_default := 9\<rparr>)))) = 7"
proof -
  let ?X = "demo_ext\<lparr>get_default_config_id := (\<lambda>w. (Ok 9, w))\<rparr>" and ?w = "demo_world0\<lparr>dw_default := 9\<rparr>"
  let ?st1 = "init_reload\<lparr>ADOPTED_DEFAULT := 9\<rparr>"
  have sdk: "config_sdk ?X dw_active" by (auto simp: config_sdk_def demo_ext_def)
  have f: "\<And>w. \<exists>w'. fetch_default ?X w = (Ok 9, w')" by (simp add: fetch_default_def demo_ext_def)
  have r: "reconcile ?X init_reload ?w = (Ok False, ?st1, ?w)"
    "reconcile ?X ?st1 ?w = (Ok False, ?st1, ?w)"
    by (simp_all add: reload_defs demo_ext_def init_reload_def NO_DEFAULT_def)
  have same: "reconcile demo_ext init_reload ?w = reconcile ?X init_reload ?w"
    by (simp add: reload_defs demo_ext_def init_reload_def)
  have "dw_active ?w = dw_active ?w"
    using unseeded_reload_is_missed [OF sdk f _ _ r] by (simp add: init_reload_def NO_DEFAULT_def)
  then show ?thesis unfolding same r by (simp add: demo_world0_def)
qed

text \<open>C40: \<open>SENZING_CONFIG_RELOAD_SECS\<close> set to the decimal digits of a 64-bit number gives that
  many seconds, 0 disabling the periodic check; unset it is 60 seconds.\<close>

theorem poll_interval_round_trip:
  "(env_var h ''SENZING_CONFIG_RELOAD_SECS'' = Some (show_nat (unat n)) \<longrightarrow>
      poll_interval h = (if n = 0 then None else Some n)) \<and>
   (env_var h ''SENZING_CONFIG_RELOAD_SECS'' = None \<longrightarrow> poll_interval h = Some 60)"
  by (auto simp: poll_interval_def parse_show_u64 Let_def word_gt_0)

theorem poll_interval_round_trip_witness:
  "poll_interval \<lparr>env_var = (\<lambda>v. Some (show_nat 90)), num_cpus = 1\<rparr> = Some 90
   \<and> poll_interval sample_host = Some 60"
  using poll_interval_round_trip [of "\<lparr>env_var = (\<lambda>v. Some (show_nat 90)), num_cpus = 1\<rparr>" 90]
    poll_interval_round_trip [of sample_host 90] by (simp add: sample_host_def)

end
