(* ===== verification/Sz_Reload_Steps.thy ===== *)
theory Sz_Reload_Steps
  imports Sz_Config_Reload
begin

text \<open>
  \<open>reconcile\<close> and the throttle of \<open>poll\<close> (\<open>crates/core/src/config_reload.rs\<close>) in any number of
  threads. A thread's position in \<open>reconcile\<close> is a value of \<open>rpc\<close>; each event of \<open>rc_step\<close> is one
  atomic operation of the code (an SDK call, an atomic load or store, taking or releasing
  \<open>REINIT_LOCK\<close>) of one thread, or the operator registering a new default. \<open>None\<close> means that the
  event is not possible in the state.

  \<open>rc_changes\<close>, \<open>rc_adopted_at\<close> and the second arguments of \<open>Reread\<close> and \<open>Reinited\<close> are history
  variables: they number the registrations and are not read by any guard.
\<close>

section \<open>The interleaved \<open>reconcile\<close>\<close>

datatype rpc =
    RIdle
  | RRead i64               \<comment> \<open>has read the registered default, outside the lock\<close>
  | RSawNone i64            \<comment> \<open>loaded \<open>NO_DEFAULT\<close>, about to store the default it read\<close>
  | RWaiting                \<comment> \<open>the default differs from the adopted one: waits for the lock\<close>
  | RHolding                \<comment> \<open>holds the lock, about to read the default again\<close>
  | RReread i64 nat         \<comment> \<open>has read the default again under the lock\<close>
  | RReinited i64 nat       \<comment> \<open>\<open>reinitialize\<close> succeeded, about to store the adopted default\<close>

record rc_state =
  rc_registered :: i64
  rc_adopted :: i64
  rc_lock :: "nat option"
  rc_pc :: "nat \<Rightarrow> rpc"
  rc_reinits :: "i64 list"
  rc_changes :: nat
  rc_adopted_at :: nat

datatype rc_event =
    Register i64
  | ReadDefault nat
  | ReadFails nat
  | LoadAdopted nat
  | StoreFirst nat
  | TakeLock nat
  | Reread nat
  | RereadFails nat
  | Compare nat
  | Reinit nat
  | ReinitFails nat
  | StoreAdopted nat

definition set_pc :: "nat \<Rightarrow> rpc \<Rightarrow> rc_state \<Rightarrow> rc_state" where
  "set_pc i p s = s\<lparr>rc_pc := (rc_pc s)(i := p)\<rparr>"

definition release :: "nat \<Rightarrow> rc_state \<Rightarrow> rc_state" where
  "release i s = set_pc i RIdle (s\<lparr>rc_lock := None\<rparr>)"

text \<open>
  \<open>Compare\<close> and \<open>Reinit\<close> both start at \<open>RReread\<close>: the first is the early return when a peer has
  adopted the default meanwhile, the second the call of \<open>reinitialize\<close>.
\<close>

fun rc_step :: "rc_state \<Rightarrow> rc_event \<Rightarrow> rc_state option" where
  "rc_step s (Register d) =
     (if d = rc_registered s \<or> d = NO_DEFAULT then None
      else Some (s\<lparr>rc_registered := d, rc_changes := Suc (rc_changes s)\<rparr>))"
| "rc_step s (ReadDefault i) =
     (if rc_pc s i = RIdle then Some (set_pc i (RRead (rc_registered s)) s) else None)"
| "rc_step s (ReadFails i) = (if rc_pc s i = RIdle then Some s else None)"
| "rc_step s (LoadAdopted i) =
     (case rc_pc s i of
        RRead d \<Rightarrow>
          Some (set_pc i (if rc_adopted s = NO_DEFAULT then RSawNone d
                          else if d = rc_adopted s then RIdle else RWaiting) s)
      | _ \<Rightarrow> None)"
| "rc_step s (StoreFirst i) =
     (case rc_pc s i of RSawNone d \<Rightarrow> Some (set_pc i RIdle (s\<lparr>rc_adopted := d\<rparr>)) | _ \<Rightarrow> None)"
| "rc_step s (TakeLock i) =
     (if rc_pc s i = RWaiting \<and> rc_lock s = None
      then Some (set_pc i RHolding (s\<lparr>rc_lock := Some i\<rparr>)) else None)"
| "rc_step s (Reread i) =
     (if rc_pc s i = RHolding then Some (set_pc i (RReread (rc_registered s) (rc_changes s)) s) else None)"
| "rc_step s (RereadFails i) = (if rc_pc s i = RHolding then Some (release i s) else None)"
| "rc_step s (Compare i) =
     (case rc_pc s i of
        RReread d e \<Rightarrow> (if d = rc_adopted s then Some (release i s) else None)
      | _ \<Rightarrow> None)"
| "rc_step s (Reinit i) =
     (case rc_pc s i of
        RReread d e \<Rightarrow>
          (if d = rc_adopted s then None
           else Some (set_pc i (RReinited d e) (s\<lparr>rc_reinits := d # rc_reinits s\<rparr>)))
      | _ \<Rightarrow> None)"
| "rc_step s (ReinitFails i) =
     (case rc_pc s i of
        RReread d e \<Rightarrow> (if d = rc_adopted s then None else Some (release i s))
      | _ \<Rightarrow> None)"
| "rc_step s (StoreAdopted i) =
     (case rc_pc s i of
        RReinited d e \<Rightarrow> Some (release i (s\<lparr>rc_adopted := d, rc_adopted_at := e\<rparr>))
      | _ \<Rightarrow> None)"

fun rc_run :: "rc_state \<Rightarrow> rc_event list \<Rightarrow> rc_state option" where
  "rc_run s [] = Some s"
| "rc_run s (e # es) = (case rc_step s e of None \<Rightarrow> None | Some t \<Rightarrow> rc_run t es)"

text \<open>The start: the engine was initialised with the default \<open>d\<close>; \<open>a\<close> is the adopted default, \<open>d\<close>
  itself where \<open>log_startup_config\<close> has seeded it and \<open>NO_DEFAULT\<close> where it has not.\<close>

definition rc_init :: "i64 \<Rightarrow> i64 \<Rightarrow> rc_state" where
  "rc_init d a = \<lparr>rc_registered = d, rc_adopted = a, rc_lock = None, rc_pc = (\<lambda>_. RIdle),
     rc_reinits = [], rc_changes = 0, rc_adopted_at = 0\<rparr>"

section \<open>The invariant\<close>

definition holds_lock :: "rpc \<Rightarrow> bool" where
  "holds_lock p = (case p of RHolding \<Rightarrow> True | RReread _ _ \<Rightarrow> True | RReinited _ _ \<Rightarrow> True | _ \<Rightarrow> False)"

definition lock_ok :: "rc_state \<Rightarrow> bool" where
  "lock_ok s \<longleftrightarrow> (\<forall>i. holds_lock (rc_pc s i) \<longleftrightarrow> rc_lock s = Some i)"

text \<open>Where the thread that holds the lock is.\<close>

definition crit :: "rc_state \<Rightarrow> rpc" where
  "crit s = (case rc_lock s of None \<Rightarrow> RIdle | Some i \<Rightarrow> rc_pc s i)"

definition seeded_ok :: "rc_state \<Rightarrow> bool" where
  "seeded_ok s \<longleftrightarrow>
     rc_adopted s \<noteq> NO_DEFAULT \<and> rc_registered s \<noteq> NO_DEFAULT \<and> (\<forall>i d. rc_pc s i \<noteq> RSawNone d)"

text \<open>The number of the registration a value was read at bounds the reinitialisations so far.\<close>

definition crit_ok :: "i64 \<Rightarrow> rc_state \<Rightarrow> bool" where
  "crit_ok d0 s \<longleftrightarrow>
     (case crit s of
        RReinited d e \<Rightarrow>
          d \<noteq> NO_DEFAULT \<and> e \<le> rc_changes s \<and> (e = rc_changes s \<longrightarrow> d = rc_registered s) \<and>
          length (rc_reinits s) \<le> e \<and> (\<exists>rest. rc_reinits s = d # rest)
      | p \<Rightarrow>
          length (rc_reinits s) \<le> rc_adopted_at s \<and> rc_adopted s = hd (rc_reinits s @ [d0]) \<and>
          (case p of
             RReread d e \<Rightarrow>
               d \<noteq> NO_DEFAULT \<and> e \<le> rc_changes s \<and> rc_adopted_at s \<le> e \<and>
               (e = rc_changes s \<longrightarrow> d = rc_registered s) \<and> (rc_adopted_at s = e \<longrightarrow> d = rc_adopted s)
           | _ \<Rightarrow> True))"

definition epoch_ok :: "rc_state \<Rightarrow> bool" where
  "epoch_ok s \<longleftrightarrow> rc_adopted_at s \<le> rc_changes s \<and>
     (rc_adopted_at s = rc_changes s \<longrightarrow> rc_adopted s = rc_registered s)"

definition rc_inv :: "i64 \<Rightarrow> rc_state \<Rightarrow> bool" where
  "rc_inv d0 s \<longleftrightarrow> lock_ok s \<and> seeded_ok s \<and> epoch_ok s \<and> crit_ok d0 s \<and> distinct_adj (rc_reinits s @ [d0])"

lemma holds_lock_simps [simp]:
  "\<not> holds_lock RIdle" "\<not> holds_lock (RRead d)" "\<not> holds_lock (RSawNone d)" "\<not> holds_lock RWaiting"
  "holds_lock RHolding" "holds_lock (RReread d e)" "holds_lock (RReinited d e)"
  by (simp_all add: holds_lock_def)

lemma lock_ok_fields [simp]:
  "lock_ok (s\<lparr>rc_registered := d\<rparr>) = lock_ok s" "lock_ok (s\<lparr>rc_adopted := d\<rparr>) = lock_ok s"
  "lock_ok (s\<lparr>rc_reinits := rs\<rparr>) = lock_ok s" "lock_ok (s\<lparr>rc_changes := n\<rparr>) = lock_ok s"
  "lock_ok (s\<lparr>rc_adopted_at := n\<rparr>) = lock_ok s"
  by (simp_all add: lock_ok_def)

lemma crit_fields [simp]:
  "crit (s\<lparr>rc_registered := d\<rparr>) = crit s" "crit (s\<lparr>rc_adopted := d\<rparr>) = crit s"
  "crit (s\<lparr>rc_reinits := rs\<rparr>) = crit s" "crit (s\<lparr>rc_changes := n\<rparr>) = crit s"
  "crit (s\<lparr>rc_adopted_at := n\<rparr>) = crit s"
  by (simp_all add: crit_def split: option.splits)

lemma set_pc_fields [simp]:
  "rc_registered (set_pc i p s) = rc_registered s" "rc_adopted (set_pc i p s) = rc_adopted s"
  "rc_reinits (set_pc i p s) = rc_reinits s" "rc_changes (set_pc i p s) = rc_changes s"
  "rc_adopted_at (set_pc i p s) = rc_adopted_at s" "rc_lock (set_pc i p s) = rc_lock s"
  "rc_pc (set_pc i p s) = (rc_pc s)(i := p)"
  by (simp_all add: set_pc_def)

lemma release_fields [simp]:
  "rc_registered (release i s) = rc_registered s" "rc_adopted (release i s) = rc_adopted s"
  "rc_reinits (release i s) = rc_reinits s" "rc_changes (release i s) = rc_changes s"
  "rc_adopted_at (release i s) = rc_adopted_at s" "rc_pc (release i s) = (rc_pc s)(i := RIdle)"
  by (simp_all add: release_def)

lemma lock_ok_set_pc: "lock_ok s \<Longrightarrow> holds_lock p = holds_lock (rc_pc s i) \<Longrightarrow> lock_ok (set_pc i p s)"
  by (simp add: lock_ok_def)

lemma lock_ok_release: "lock_ok s \<Longrightarrow> holds_lock (rc_pc s i) \<Longrightarrow> lock_ok (release i s)"
  by (auto simp: lock_ok_def release_def)

lemma lock_ok_take: "lock_ok s \<Longrightarrow> rc_lock s = None \<Longrightarrow> lock_ok (set_pc i RHolding (s\<lparr>rc_lock := Some i\<rparr>))"
  by (auto simp: lock_ok_def)

lemma crit_holder: "lock_ok s \<Longrightarrow> holds_lock (rc_pc s i) \<Longrightarrow> crit s = rc_pc s i"
  by (simp add: lock_ok_def crit_def)

lemma crit_set_holder: "lock_ok s \<Longrightarrow> holds_lock (rc_pc s i) \<Longrightarrow> crit (set_pc i p s) = p"
  by (simp add: lock_ok_def crit_def)

lemma crit_other: "lock_ok s \<Longrightarrow> \<not> holds_lock (rc_pc s i) \<Longrightarrow> crit (set_pc i p s) = crit s"
  by (auto simp: lock_ok_def crit_def split: option.splits)

lemma crit_release [simp]: "crit (release i s) = RIdle"
  by (simp add: crit_def release_def)

lemma crit_take [simp]: "crit (set_pc i p (s\<lparr>rc_lock := Some i\<rparr>)) = p"
  by (simp add: crit_def)

lemma crit_free: "rc_lock s = None \<Longrightarrow> crit s = RIdle"
  by (simp add: crit_def)

text \<open>
  What a step does to the part of the state that the lock protects: nothing, a registration, or
  the next move of the thread that holds the lock.
\<close>

definition shared_eq :: "rc_state \<Rightarrow> rc_state \<Rightarrow> bool" where
  "shared_eq s t \<longleftrightarrow> rc_registered t = rc_registered s \<and> rc_changes t = rc_changes s \<and>
     rc_adopted t = rc_adopted s \<and> rc_adopted_at t = rc_adopted_at s \<and> rc_reinits t = rc_reinits s"

lemma shared_eq_refl [simp]: "shared_eq s s"
  by (simp add: shared_eq_def)

lemma rc_step_shared:
  assumes step: "rc_step s e = Some t" and lock: "lock_ok s" and seeded: "seeded_ok s"
  obtains
      (quiet) "shared_eq s t" "crit t = crit s"
    | (register) d where "t = s\<lparr>rc_registered := d, rc_changes := Suc (rc_changes s)\<rparr>"
        "d \<noteq> NO_DEFAULT" "crit t = crit s"
    | (take_lock) "shared_eq s t" "crit s = RIdle" "crit t = RHolding"
    | (reread) "shared_eq s t" "crit s = RHolding" "crit t = RReread (rc_registered s) (rc_changes s)"
    | (give_up) "shared_eq s t" "crit s = RHolding \<or> (\<exists>d n. crit s = RReread d n)" "crit t = RIdle"
    | (reinit) d n where "crit s = RReread d n" "d \<noteq> rc_adopted s" "crit t = RReinited d n"
        "shared_eq (s\<lparr>rc_reinits := d # rc_reinits s\<rparr>) t"
    | (adopt) d n where "crit s = RReinited d n" "crit t = RIdle"
        "shared_eq (s\<lparr>rc_adopted := d, rc_adopted_at := n\<rparr>) t"
proof (cases e)
  case (Register d)
  with step show ?thesis by (auto split: if_splits intro: register)
next
  case (ReadDefault i)
  with step lock show ?thesis
    by (auto simp: crit_other shared_eq_def split: if_splits intro!: quiet)
next
  case (ReadFails i)
  with step show ?thesis by (auto split: if_splits intro!: quiet)
next
  case (LoadAdopted i)
  with step lock show ?thesis
    by (auto simp: crit_other shared_eq_def split: rpc.splits intro!: quiet)
next
  case (StoreFirst i)
  with step seeded show ?thesis by (auto simp: seeded_ok_def split: rpc.splits)
next
  case (TakeLock i)
  with step show ?thesis
    by (auto simp: crit_free shared_eq_def split: if_splits intro!: take_lock)
next
  case (Reread i)
  then have pc: "rc_pc s i = RHolding" and t: "t = set_pc i (RReread (rc_registered s) (rc_changes s)) s"
    using step by (auto split: if_splits)
  show ?thesis using crit_holder [OF lock, of i] crit_set_holder [OF lock, of i] pc t
    by (intro reread) (auto simp: shared_eq_def)
next
  case (RereadFails i)
  then have pc: "rc_pc s i = RHolding" and t: "t = release i s"
    using step by (auto split: if_splits)
  show ?thesis using crit_holder [OF lock, of i] pc t by (intro give_up) (auto simp: shared_eq_def)
next
  case (Compare i)
  then obtain d n where pc: "rc_pc s i = RReread d n" and t: "t = release i s"
    using step by (auto split: rpc.splits if_splits)
  show ?thesis using crit_holder [OF lock, of i] pc t by (intro give_up) (auto simp: shared_eq_def)
next
  case (Reinit i)
  then obtain d n where pc: "rc_pc s i = RReread d n" and d: "d \<noteq> rc_adopted s"
    and t: "t = set_pc i (RReinited d n) (s\<lparr>rc_reinits := d # rc_reinits s\<rparr>)"
    using step by (auto split: rpc.splits if_splits)
  have "crit t = RReinited d n" unfolding t by (rule crit_set_holder) (simp_all add: lock pc)
  then show ?thesis using crit_holder [OF lock, of i] pc t d by (intro reinit) (auto simp: shared_eq_def)
next
  case (ReinitFails i)
  then obtain d n where pc: "rc_pc s i = RReread d n" and t: "t = release i s"
    using step by (auto split: rpc.splits if_splits)
  show ?thesis using crit_holder [OF lock, of i] pc t by (intro give_up) (auto simp: shared_eq_def)
next
  case (StoreAdopted i)
  then obtain d n where pc: "rc_pc s i = RReinited d n"
    and t: "t = release i (s\<lparr>rc_adopted := d, rc_adopted_at := n\<rparr>)"
    using step by (auto split: rpc.splits)
  show ?thesis using crit_holder [OF lock, of i] pc t by (intro adopt) (auto simp: shared_eq_def)
qed

lemma lock_ok_step: "rc_step s e = Some t \<Longrightarrow> lock_ok s \<Longrightarrow> lock_ok t"
  by (cases e) (auto intro!: lock_ok_set_pc lock_ok_release lock_ok_take split: if_splits rpc.splits)

lemma no_saw_none_step:
  "rc_step s e = Some t \<Longrightarrow> rc_adopted s \<noteq> NO_DEFAULT \<Longrightarrow> rc_pc s j \<noteq> RSawNone d \<Longrightarrow> rc_pc t j \<noteq> RSawNone d"
  by (cases e) (auto split: if_splits rpc.splits)

lemma shared_inv_step:
  assumes step: "rc_step s e = Some t" and inv: "rc_inv d0 s"
  shows "rc_adopted t \<noteq> NO_DEFAULT \<and> rc_registered t \<noteq> NO_DEFAULT \<and> epoch_ok t \<and> crit_ok d0 t \<and>
    distinct_adj (rc_reinits t @ [d0])"
proof -
  note rc_inv_def [simp] seeded_ok_def [simp] epoch_ok_def [simp] crit_ok_def [simp] shared_eq_def [simp]
  have lock: "lock_ok s" and seeded: "seeded_ok s" using inv by (auto simp del: seeded_ok_def)
  from step lock seeded show ?thesis
  proof (cases rule: rc_step_shared)
    case quiet then show ?thesis using inv by (auto split: rpc.splits)
  next
    case register then show ?thesis using inv by (auto split: rpc.splits)
  next
    case take_lock then show ?thesis using inv by auto
  next
    case reread then show ?thesis using inv by auto
  next
    case give_up then show ?thesis using inv by auto
  next
    case reinit then show ?thesis using inv by (cases "rc_reinits s") (auto simp: distinct_adj_Cons)
  next
    case adopt then show ?thesis using inv by auto
  qed
qed

lemma rc_inv_step: "rc_step s e = Some t \<Longrightarrow> rc_inv d0 s \<Longrightarrow> rc_inv d0 t"
  using lock_ok_step shared_inv_step no_saw_none_step unfolding rc_inv_def seeded_ok_def by blast

lemma rc_inv_run: "rc_run s es = Some t \<Longrightarrow> rc_inv d0 s \<Longrightarrow> rc_inv d0 t"
  by (induction es arbitrary: s) (auto split: option.splits dest: rc_inv_step)

lemma rc_inv_init: "d \<noteq> NO_DEFAULT \<Longrightarrow> rc_inv d (rc_init d d)"
  by (simp add: rc_inv_def rc_init_def lock_ok_def seeded_ok_def epoch_ok_def crit_ok_def crit_def)

lemma rc_inv_bound: "rc_inv d0 s \<Longrightarrow> length (rc_reinits s) \<le> rc_changes s"
  by (cases "crit s") (auto simp: rc_inv_def epoch_ok_def crit_ok_def)

lemma rc_inv_engine: "rc_inv d0 s \<Longrightarrow> rc_lock s = None \<Longrightarrow> rc_adopted s = hd (rc_reinits s @ [d0])"
  by (simp add: rc_inv_def crit_ok_def crit_free)

section \<open>The throttle of \<open>poll\<close>\<close>

text \<open>
  \<open>pt_clock\<close> is the time since the anchor in milliseconds, \<open>pt_last\<close> is \<open>LAST_POLL_MS\<close>, and a
  thread is outside \<open>poll\<close>, has sampled the clock, or has also loaded \<open>LAST_POLL_MS\<close> and found
  the check due. \<open>pt_claims\<close> counts the compare-and-exchanges that succeeded: the calls of
  \<open>reconcile\<close>. The clock stops short of its 64-bit range.
\<close>

datatype ppc = POut | PSampled u64 | PDue u64 u64

record pt_state =
  pt_clock :: u64
  pt_last :: u64
  pt_pc :: "nat \<Rightarrow> ppc"
  pt_claims :: nat

datatype pt_event = Tick | Sample nat | LoadLast nat | Claim nat

fun pt_step :: "u64 \<Rightarrow> pt_state \<Rightarrow> pt_event \<Rightarrow> pt_state option" where
  "pt_step iv s Tick = (if pt_clock s = - 1 then None else Some (s\<lparr>pt_clock := pt_clock s + 1\<rparr>))"
| "pt_step iv s (Sample i) =
     (if pt_pc s i = POut then Some (s\<lparr>pt_pc := (pt_pc s)(i := PSampled (pt_clock s))\<rparr>) else None)"
| "pt_step iv s (LoadLast i) =
     (case pt_pc s i of
        PSampled now \<Rightarrow>
          Some (s\<lparr>pt_pc := (pt_pc s)(i := if poll_due iv now (pt_last s) then PDue now (pt_last s) else POut)\<rparr>)
      | _ \<Rightarrow> None)"
| "pt_step iv s (Claim i) =
     (case pt_pc s i of
        PDue now prev \<Rightarrow>
          Some (if pt_last s = prev
                then s\<lparr>pt_last := now, pt_claims := Suc (pt_claims s), pt_pc := (pt_pc s)(i := POut)\<rparr>
                else s\<lparr>pt_pc := (pt_pc s)(i := POut)\<rparr>)
      | _ \<Rightarrow> None)"

fun pt_run :: "u64 \<Rightarrow> pt_state \<Rightarrow> pt_event list \<Rightarrow> pt_state option" where
  "pt_run iv s [] = Some s"
| "pt_run iv s (e # es) = (case pt_step iv s e of None \<Rightarrow> None | Some t \<Rightarrow> pt_run iv t es)"

definition pt_init :: pt_state where
  "pt_init = \<lparr>pt_clock = 0, pt_last = 0, pt_pc = (\<lambda>_. POut), pt_claims = 0\<rparr>"

definition pt_inv :: "u64 \<Rightarrow> pt_state \<Rightarrow> bool" where
  "pt_inv iv s \<longleftrightarrow>
     pt_claims s * unat iv \<le> unat (pt_last s) \<and> pt_last s \<le> pt_clock s \<and>
     (\<forall>i now. pt_pc s i = PSampled now \<longrightarrow> now \<le> pt_clock s) \<and>
     (\<forall>i now prev. pt_pc s i = PDue now prev \<longrightarrow>
        now \<le> pt_clock s \<and> unat prev + unat iv \<le> unat now)"

lemma poll_due_unat: "poll_due iv now prev \<longleftrightarrow> unat iv \<le> unat now - unat prev"
  by (simp add: poll_due_def word_less_nat_alt not_less)

lemma inc_ge: "c \<noteq> (- 1 :: u64) \<Longrightarrow> c \<le> c + 1"
  using unatSuc [of c] by (auto simp: word_le_nat_alt add.commute eq_neg_iff_add_eq_0)

lemma pt_inv_step: "pt_step iv s e = Some t \<Longrightarrow> iv \<noteq> 0 \<Longrightarrow> pt_inv iv s \<Longrightarrow> pt_inv iv t"
proof (cases e)
  case Tick
  moreover assume "pt_step iv s e = Some t" "pt_inv iv s"
  ultimately have t: "t = s\<lparr>pt_clock := pt_clock s + 1\<rparr>" and le: "pt_clock s \<le> pt_clock s + 1"
    and inv: "pt_inv iv s" using inc_ge by (auto split: if_splits)
  show ?thesis using inv le unfolding pt_inv_def t
    by simp (meson order_trans)
next
  case (Sample i)
  moreover assume "pt_step iv s e = Some t" "pt_inv iv s"
  ultimately show ?thesis by (auto simp: pt_inv_def split: if_splits)
next
  case (LoadLast i)
  moreover assume "pt_step iv s e = Some t" "pt_inv iv s" "iv \<noteq> 0"
  moreover from \<open>iv \<noteq> 0\<close> have "0 < unat iv" by (simp add: unat_gt_0)
  ultimately show ?thesis by (auto simp: pt_inv_def poll_due_unat split: ppc.splits if_splits)
next
  case (Claim i)
  assume step: "pt_step iv s e = Some t" and inv: "pt_inv iv s"
  obtain now prev where pc: "pt_pc s i = PDue now prev" using step Claim by (auto split: ppc.splits)
  then have "now \<le> pt_clock s" "unat prev + unat iv \<le> unat now" using inv by (auto simp: pt_inv_def)
  moreover have "pt_claims s * unat iv \<le> unat (pt_last s)" using inv by (simp add: pt_inv_def)
  ultimately have "prev = pt_last s \<Longrightarrow> unat iv + pt_claims s * unat iv \<le> unat now" by simp
  with \<open>now \<le> pt_clock s\<close> show ?thesis using step inv pc unfolding Claim
    by (auto simp: pt_inv_def split: if_splits)
qed

lemma pt_inv_run: "pt_run iv s es = Some t \<Longrightarrow> iv \<noteq> 0 \<Longrightarrow> pt_inv iv s \<Longrightarrow> pt_inv iv t"
  by (induction es arbitrary: s) (auto split: option.splits dest: pt_inv_step)

lemma pt_inv_init: "pt_inv iv pt_init"
  by (simp add: pt_inv_def pt_init_def)

section \<open>Properties\<close>

text \<open>C15: with the adopted default seeded at start-up, any number of threads in \<open>reconcile\<close>,
  interleaved in any way with each other, with failing SDK calls and with the operator registering
  defaults: at most one thread is in the critical section, the engine is reinitialised at most
  once per registration, never twice in a row with the same configuration, and while the lock is
  free the adopted default is the one of the last reinitialisation.\<close>

theorem seeded_reload_never_stacks:
  assumes "d \<noteq> NO_DEFAULT" "rc_run (rc_init d d) es = Some t"
  shows "length (rc_reinits t) \<le> rc_changes t \<and> distinct_adj (rc_reinits t @ [d]) \<and>
    (\<forall>i j. holds_lock (rc_pc t i) \<and> holds_lock (rc_pc t j) \<longrightarrow> i = j) \<and>
    (rc_lock t = None \<longrightarrow> rc_adopted t = hd (rc_reinits t @ [d]))"
proof -
  have inv: "rc_inv d t" using rc_inv_run [OF assms(2) rc_inv_init [OF assms(1)]] .
  then have "lock_ok t" "distinct_adj (rc_reinits t @ [d])" by (simp_all add: rc_inv_def)
  with rc_inv_bound [OF inv] rc_inv_engine [OF inv] show ?thesis by (auto simp: lock_ok_def)
qed

definition two_waiters :: "rc_event list" where
  "two_waiters = [Register 9, ReadDefault 0, ReadDefault 1, LoadAdopted 0, LoadAdopted 1,
     TakeLock 0, Reread 0, Reinit 0, StoreAdopted 0, TakeLock 1, Reread 1, Compare 1]"

theorem seeded_reload_never_stacks_witness:
  "\<exists>t. rc_run (rc_init 7 7) two_waiters = Some t \<and> rc_reinits t = [9] \<and> rc_adopted t = 9 \<and>
     length (rc_reinits t) \<le> rc_changes t"
proof -
  obtain t where t: "rc_run (rc_init 7 7) two_waiters = Some t" "rc_reinits t = [9]" "rc_adopted t = 9"
    by (simp add: two_waiters_def rc_init_def NO_DEFAULT_def set_pc_def release_def)
  have "(7 :: i64) \<noteq> NO_DEFAULT" by (simp add: NO_DEFAULT_def)
  from seeded_reload_never_stacks [OF this t(1)] t show ?thesis by blast
qed

text \<open>Without the seeding the adopted default can be set back: two threads that both
  saw no adopted default store what they read, the second an older default than the first, and the
  engine is reinitialised twice for one registration.\<close>

theorem unseeded_reload_can_stack:
  "\<exists>es t. rc_run (rc_init 7 NO_DEFAULT) es = Some t \<and> rc_changes t = 1 \<and> rc_reinits t = [9, 9]"
proof -
  let ?check = "\<lambda>i. [ReadDefault i, LoadAdopted i, TakeLock i, Reread i, Reinit i, StoreAdopted i]"
  let ?es = "[ReadDefault 0, LoadAdopted 0, ReadDefault 1, LoadAdopted 1, StoreFirst 0, Register 9] @
    ?check 2 @ [StoreFirst 1] @ ?check 2"
  have "\<exists>t. rc_run (rc_init 7 NO_DEFAULT) ?es = Some t \<and> rc_changes t = 1 \<and> rc_reinits t = [9, 9]"
    by (simp add: rc_init_def NO_DEFAULT_def set_pc_def release_def)
  then show ?thesis by blast
qed

text \<open>C39: the threads of a process call \<open>reconcile\<close> from \<open>poll\<close> at most once per interval:
  after any interleaving of clock, samples, loads and compare-and-exchanges, the number of checks
  times the interval is at most the time since the anchor.\<close>

theorem poll_at_most_once_per_interval:
  assumes "iv \<noteq> 0" "pt_run iv pt_init es = Some t"
  shows "pt_claims t * unat iv \<le> unat (pt_clock t)"
  using pt_inv_run [OF assms(2,1) pt_inv_init] by (simp add: pt_inv_def word_le_nat_alt)

theorem poll_at_most_once_per_interval_witness:
  "\<exists>t. pt_run 2 pt_init [Tick, Tick, Sample 0, Sample 1, LoadLast 0, LoadLast 1, Claim 0, Claim 1] = Some t
     \<and> pt_claims t = 1 \<and> pt_claims t * unat (2 :: u64) \<le> unat (pt_clock t)"
proof -
  obtain t where t: "pt_run 2 pt_init [Tick, Tick, Sample 0, Sample 1, LoadLast 0, LoadLast 1, Claim 0, Claim 1] = Some t"
    "pt_claims t = 1" by (simp add: pt_init_def poll_due_def sat_sub_def)
  from poll_at_most_once_per_interval [OF _ t(1)] t show ?thesis by auto
qed

end
