(* ===== verification/Sz_Worker.thy ===== *)
theory Sz_Worker
  imports Sz_Reload_Steps
begin

text \<open>
  \<open>crates/core/src/worker.rs\<close>: what one worker thread does with a load item and with a redo
  record, and the three dispatch loops.

  The state all threads of the process share is the record \<open>proc\<close>. A handler is the code of one
  thread without interruption; where the interleaving matters (dispatch loops, settlement of
  deliveries) the loops run one pass at a time among the other threads (\<open>drive\<close>) and the step
  relation of \<open>Sz_Rabbit_System\<close> uses the parts of \<open>process_load\<close>.
  Logging is not modelled; the payloads printed on standard output are. No thread panics while it
  holds a lock, so locking does not fail.
\<close>

section \<open>Flags and constants\<close>

definition SZ_WITH_INFO_BITS :: u64 where "SZ_WITH_INFO_BITS = push_bit 62 1"

definition add_record_flags :: "('w, 'e) ext \<Rightarrow> bool \<Rightarrow> u64 option" where
  "add_record_flags X info = (if info then Some SZ_WITH_INFO_BITS else Some (default_add_flags X))"

definition redo_flags :: "bool \<Rightarrow> u64 option" where
  "redo_flags info = (if info then Some SZ_WITH_INFO_BITS else None)"

text \<open>Durations are in nanoseconds.\<close>

definition SHORT_POLL :: nat where "SHORT_POLL = 1000000"
definition SHORT_POLL_PASSES :: u32 where "SHORT_POLL_PASSES = 25"
definition IDLE_BACKOFF :: nat where "IDLE_BACKOFF = 50000000"
definition SHUTDOWN_GRACE :: nat where "SHUTDOWN_GRACE = 10000000000"

section \<open>Work items and results\<close>

record load_item =
  delivery_tag :: u64
  body :: string
  info :: record_info

type_synonym redo_job = "usize \<times> string"

datatype action = Ack "string option" | RejectNoRequeue | Fatal string

record outcome =
  o_delivery_tag :: u64
  o_info :: record_info
  o_action :: action

datatype worker_class = LoadPreferring | RedoPreferring

text \<open>\<open>load: Option<LoadSide>\<close> and \<open>redo: Option<RedoSide>\<close>: the channels they name are in \<open>proc\<close>.\<close>

record worker_ctx =
  worker_id :: usize
  wclass :: worker_class
  has_load :: bool
  has_redo :: bool
  add_flags :: "u64 option"
  w_redo_flags :: "u64 option"
  want_info :: bool
  poll_iv :: "u64 option"

record 'w proc =
  glob :: globals
  rload :: reload
  world :: 'w
  out :: "out_line list"
  started :: "u64 set"
  redo_in_flight_map :: "(usize, nat \<times> string) hash_map"
  work_ch :: "load_item chan"
  redo_ch :: "redo_job chan"
  result_ch :: "outcome chan"
  notified :: nat

section \<open>Calls, with the shared state threaded through\<close>

definition call :: "('w \<Rightarrow> 'a \<times> 'w) \<Rightarrow> 'w proc \<Rightarrow> 'a \<times> 'w proc" where
  "call f s = (case f (world s) of (r, w) \<Rightarrow> (r, s\<lparr>world := w\<rparr>))"

definition poll_p :: "('w, 'e) ext \<Rightarrow> worker_ctx \<Rightarrow> 'w proc \<Rightarrow> 'w proc" where
  "poll_p X c s = (case poll X (poll_iv c) (rload s) (world s) of (r, w) \<Rightarrow> s\<lparr>rload := r, world := w\<rparr>)"

text \<open>\<open>if result.is_err() && reinit_if_stale(env) { result = ... }\<close>, in both handlers.\<close>

definition retry_once ::
  "('w, 'e) ext \<Rightarrow> ('w \<Rightarrow> ('e + 'a) \<times> 'w) \<Rightarrow> 'w proc \<Rightarrow> ('e + 'a) \<times> 'w proc" where
  "retry_once X f s =
     (case call f s of
        (result, s1) \<Rightarrow>
          if is_err result then
            (case reinit_if_stale X (rload s1) (world s1) of
               (warranted, r, w) \<Rightarrow>
                 (let s2 = s1\<lparr>rload := r, world := w\<rparr>
                  in if warranted then call f s2 else (result, s2)))
          else (result, s1))"

definition send_outcome_p :: "outcome \<Rightarrow> 'w proc \<Rightarrow> bool \<times> 'w proc" where
  "send_outcome_p o' s =
     (case chan_blocking_send (result_ch s) o' of (ok, ch') \<Rightarrow> (ok, s\<lparr>result_ch := ch'\<rparr>))"

text \<open>The three stores every fatal error makes.\<close>

definition mark_fatal :: "globals \<Rightarrow> globals" where
  "mark_fatal g = g\<lparr>ERRORS := ERRORS g + 1, WORKER_FATAL := True, RUNNING := False\<rparr>"

text \<open>The durable fatal signal of a worker without a delivery, and the wake-up.\<close>

definition signal_fatal :: "string \<Rightarrow> 'w proc \<Rightarrow> 'w proc" where
  "signal_fatal msg s =
     (let s1 = snd (send_outcome_p \<lparr>o_delivery_tag = 0, o_info = record_info_empty, o_action = Fatal msg\<rparr> s)
      in s1\<lparr>notified := Suc (notified s1)\<rparr>)"

definition fatal_no_engine :: "('w, 'e) ext \<Rightarrow> worker_ctx \<Rightarrow> 'e \<Rightarrow> 'w proc \<Rightarrow> 'w proc" where
  "fatal_no_engine X c e s =
     (let s1 = s\<lparr>glob := mark_fatal (glob s)\<rparr>
      in if has_load c then
           signal_fatal (''worker '' @ show_nat (unat (worker_id c)) @ '' could not initialize engine: '' @
             err_display X e) s1
         else s1)"

section \<open>\<open>process_load\<close>\<close>

definition begin_load :: "('w, 'e) ext \<Rightarrow> worker_ctx \<Rightarrow> load_item \<Rightarrow> 'w proc \<Rightarrow> 'w proc" where
  "begin_load X c item s =
     (let s1 = poll_p X c s in s1\<lparr>started := insert (delivery_tag item) (started s1)\<rparr>)"

definition load_action :: "('w, 'e) ext \<Rightarrow> worker_ctx \<Rightarrow> load_item \<Rightarrow> 'w proc \<Rightarrow> action \<times> 'w proc" where
  "load_action X c item s =
     (case from_utf8 (body item) of
        None \<Rightarrow> (RejectNoRequeue, s)
      | Some body_str \<Rightarrow>
         (case retry_once X
                 (add_record X (data_source (info item)) (record_id (info item)) body_str (add_flags c)) s of
            (Inr resp, s1) \<Rightarrow> (Ack (if want_info c then Some resp else None), s1)
          | (Inl e, s1) \<Rightarrow>
             ((case classify_error X e of
                 BadInputOrTimeout \<Rightarrow> RejectNoRequeue
               | FatalClass \<Rightarrow> Fatal (err_display X e)), s1)))"

definition is_fatal :: "action \<Rightarrow> bool" where
  "is_fatal a = (case a of Fatal _ \<Rightarrow> True | _ \<Rightarrow> False)"

definition finish_load :: "load_item \<Rightarrow> action \<Rightarrow> nat \<Rightarrow> 'w proc \<Rightarrow> bool \<times> 'w proc" where
  "finish_load item act elapsed_ns s =
     (let g = glob s;
          g1 = g\<lparr>LOAD_BUSY_NS := LOAD_BUSY_NS g + of_nat elapsed_ns\<rparr>;
          s1 = s\<lparr>started := started s - {delivery_tag item},
                 glob := if is_fatal act then mark_fatal g1 else g1\<rparr>
      in send_outcome_p
           \<lparr>o_delivery_tag = delivery_tag item, o_info = info item, o_action = act\<rparr> s1)"

definition process_load ::
  "('w, 'e) ext \<Rightarrow> worker_ctx \<Rightarrow> load_item \<Rightarrow> 'w proc \<Rightarrow> bool \<times> 'w proc" where
  "process_load X c item s =
     (let s1 = begin_load X c item s;
          t0 = now_ns X (world s1)
      in case load_action X c item s1 of
           (act, s2) \<Rightarrow> finish_load item act (now_ns X (world s2) - t0) s2)"

section \<open>\<open>process_redo\<close>\<close>

definition begin_redo :: "('w, 'e) ext \<Rightarrow> worker_ctx \<Rightarrow> redo_job \<Rightarrow> 'w proc \<Rightarrow> 'w proc" where
  "begin_redo X c job s =
     (let s1 = poll_p X c s; g = glob s1
      in s1\<lparr>glob := g\<lparr>REDO_IN_FLIGHT := REDO_IN_FLIGHT g + 1\<rparr>,
            redo_in_flight_map :=
              hm_insert (fst job) (now_ns X (world s1), snd job) (redo_in_flight_map s1)\<rparr>)"

definition redo_result ::
  "('w, 'e) ext \<Rightarrow> worker_ctx \<Rightarrow> 'e + string \<Rightarrow> 'w proc \<Rightarrow> bool \<times> 'w proc" where
  "redo_result X c r s =
     (let g = glob s
      in case r of
           Inr result \<Rightarrow>
             (True, s\<lparr>glob := g\<lparr>REDOS_PROCESSED := REDOS_PROCESSED g + 1\<rparr>,
                      out := out s @ (if want_info c \<and> result \<noteq> [] then [InfoPayload result] else [])\<rparr>)
         | Inl e \<Rightarrow>
             (case classify_error X e of
                BadInputOrTimeout \<Rightarrow> (True, s\<lparr>glob := g\<lparr>REDOS_DROPPED := REDOS_DROPPED g + 1\<rparr>\<rparr>)
              | FatalClass \<Rightarrow>
                  (let s1 = s\<lparr>glob := mark_fatal g\<rparr>
                   in (False, if has_load c then signal_fatal (err_display X e) s1 else s1))))"

definition finish_redo :: "redo_job \<Rightarrow> nat \<Rightarrow> 'w proc \<Rightarrow> 'w proc" where
  "finish_redo job elapsed_ns s =
     (let g = glob s
      in s\<lparr>glob := g\<lparr>REDO_BUSY_NS := REDO_BUSY_NS g + of_nat elapsed_ns,
                     REDO_IN_FLIGHT := REDO_IN_FLIGHT g - 1\<rparr>,
           redo_in_flight_map := hm_remove (fst job) (redo_in_flight_map s)\<rparr>)"

definition process_redo ::
  "('w, 'e) ext \<Rightarrow> worker_ctx \<Rightarrow> redo_job \<Rightarrow> 'w proc \<Rightarrow> bool \<times> 'w proc" where
  "process_redo X c job s =
     (let s1 = begin_redo X c job s;
          t0 = now_ns X (world s1)
      in case retry_once X (process_redo_record X (snd job) (w_redo_flags c)) s1 of
           (r, s2) \<Rightarrow>
             (case redo_result X c r s2 of
                (keep_going, s3) \<Rightarrow>
                  (keep_going, finish_redo job (now_ns X (world s3) - t0) s3)))"

section \<open>Dispatch\<close>

definition try_recv_load :: "'w proc \<Rightarrow> load_item try_outcome \<times> 'w proc" where
  "try_recv_load s = (case chan_recv (work_ch s) of (r, ch') \<Rightarrow> (r, s\<lparr>work_ch := ch'\<rparr>))"

definition try_recv_redo :: "'w proc \<Rightarrow> redo_job try_outcome \<times> 'w proc" where
  "try_recv_redo s = (case chan_recv (redo_ch s) of (r, ch') \<Rightarrow> (r, s\<lparr>redo_ch := ch'\<rparr>))"

definition sleep_p :: "('w, 'e) ext \<Rightarrow> nat \<Rightarrow> 'w proc \<Rightarrow> 'w proc" where
  "sleep_p X d s = s\<lparr>world := sleep_ns X d (world s)\<rparr>"

datatype next_item = NextLoad load_item | NextRedo redo_job

record mixed_locals =
  load_open :: bool
  redo_open :: bool
  idle_passes :: u32

text \<open>One turn of the \<open>for pick_redo in [prefer_redo, !prefer_redo]\<close>, and the two turns.\<close>

definition try_pick ::
  "bool \<Rightarrow> mixed_locals \<Rightarrow> 'w proc \<Rightarrow> next_item option \<times> mixed_locals \<times> 'w proc" where
  "try_pick pick_redo l s =
     (if pick_redo \<and> redo_open l then
        (case try_recv_redo s of
           (Item job, s1) \<Rightarrow> (Some (NextRedo job), l, s1)
         | (Empty, s1) \<Rightarrow> (None, l, s1)
         | (Closed, s1) \<Rightarrow> (None, l\<lparr>redo_open := False\<rparr>, s1))
      else if \<not> pick_redo \<and> load_open l then
        (case try_recv_load s of
           (Item item, s1) \<Rightarrow> (Some (NextLoad item), l, s1)
         | (Empty, s1) \<Rightarrow> (None, l, s1)
         | (Closed, s1) \<Rightarrow> (None, l\<lparr>load_open := False\<rparr>, s1))
      else (None, l, s))"

definition dispatch_pass ::
  "worker_ctx \<Rightarrow> mixed_locals \<Rightarrow> 'w proc \<Rightarrow> next_item option \<times> mixed_locals \<times> 'w proc" where
  "dispatch_pass c l s =
     (let prefer_redo = (wclass c = RedoPreferring)
      in case try_pick prefer_redo l s of
           (Some n, l1, s1) \<Rightarrow> (Some n, l1, s1)
         | (None, l1, s1) \<Rightarrow> try_pick (\<not> prefer_redo) l1 s1)"

definition process_next :: "('w, 'e) ext \<Rightarrow> worker_ctx \<Rightarrow> next_item \<Rightarrow> 'w proc \<Rightarrow> bool \<times> 'w proc" where
  "process_next X c n s =
     (case n of NextLoad item \<Rightarrow> process_load X c item s | NextRedo job \<Rightarrow> process_redo X c job s)"

text \<open>A pass of the inner loop of \<open>mixed_loop\<close>, with the item it found processed.\<close>

definition mixed_pass ::
  "('w, 'e) ext \<Rightarrow> worker_ctx \<Rightarrow> mixed_locals \<Rightarrow> 'w proc \<Rightarrow> mixed_locals option \<times> 'w proc" where
  "mixed_pass X c l s =
     (case dispatch_pass c l s of
        (Some n, l1, s1) \<Rightarrow>
          (case process_next X c n s1 of
             (keep_going, s2) \<Rightarrow> (if keep_going then Some (l1\<lparr>idle_passes := 0\<rparr>) else None, s2))
      | (None, l1, s1) \<Rightarrow>
          if \<not> load_open l1 \<and> \<not> redo_open l1 then (None, s1)
          else
            (let idle = idle_passes l1 + 1
             in (Some (l1\<lparr>idle_passes := idle\<rparr>),
                 sleep_p X (if idle \<le> SHORT_POLL_PASSES then SHORT_POLL else IDLE_BACKOFF) s1)))"

definition mixed_loop ::
  "('w, 'e) ext \<Rightarrow> worker_ctx \<Rightarrow> nat \<Rightarrow> (nat \<Rightarrow> 'w proc \<Rightarrow> 'w proc) \<Rightarrow> 'w proc \<Rightarrow> 'w proc option" where
  "mixed_loop X c n others s =
     drive n others (mixed_pass X c) \<lparr>load_open = True, redo_open = True, idle_passes = 0\<rparr> s"

text \<open>A blocking receive that finds the channel empty but open waits: the pass is repeated.\<close>

definition pure_load_pass ::
  "('w, 'e) ext \<Rightarrow> worker_ctx \<Rightarrow> unit \<Rightarrow> 'w proc \<Rightarrow> unit option \<times> 'w proc" where
  "pure_load_pass X c l s =
     (case try_recv_load s of
        (Item item, s1) \<Rightarrow>
          (case process_load X c item s1 of (keep_going, s2) \<Rightarrow> (if keep_going then Some () else None, s2))
      | (Empty, s1) \<Rightarrow> (Some (), s1)
      | (Closed, s1) \<Rightarrow> (None, s1))"

definition pure_load_loop ::
  "('w, 'e) ext \<Rightarrow> worker_ctx \<Rightarrow> nat \<Rightarrow> (nat \<Rightarrow> 'w proc \<Rightarrow> 'w proc) \<Rightarrow> 'w proc \<Rightarrow> 'w proc option" where
  "pure_load_loop X c n others s = drive n others (pure_load_pass X c) () s"

text \<open>Where \<open>pure_redo_loop\<close> is between its shared accesses: the first \<open>try_recv\<close>, the test of
  \<open>RUNNING\<close> after an empty one, the second \<open>try_recv\<close> of a shutdown.\<close>

datatype redo_phase = FirstTry | CheckRunning | DrainTry

definition pure_redo_pass ::
  "('w, 'e) ext \<Rightarrow> worker_ctx \<Rightarrow> redo_phase \<Rightarrow> 'w proc \<Rightarrow> redo_phase option \<times> 'w proc" where
  "pure_redo_pass X c ph s =
     (case ph of
        CheckRunning \<Rightarrow>
          if RUNNING (glob s) then (Some FirstTry, sleep_p X IDLE_BACKOFF s) else (Some DrainTry, s)
      | _ \<Rightarrow>
          (case try_recv_redo s of
             (Item job, s1) \<Rightarrow>
               (case process_redo X c job s1 of
                  (keep_going, s2) \<Rightarrow> (if keep_going then Some FirstTry else None, s2))
           | (Empty, s1) \<Rightarrow> (if ph = FirstTry then Some CheckRunning else None, s1)
           | (Closed, s1) \<Rightarrow> (None, s1)))"

definition pure_redo_loop ::
  "('w, 'e) ext \<Rightarrow> worker_ctx \<Rightarrow> nat \<Rightarrow> (nat \<Rightarrow> 'w proc \<Rightarrow> 'w proc) \<Rightarrow> 'w proc \<Rightarrow> 'w proc option" where
  "pure_redo_loop X c n others s = drive n others (pure_redo_pass X c) FirstTry s"

text \<open>\<open>None\<close> is also the \<open>unreachable!\<close> of a worker without a work source.\<close>

definition worker_loop ::
  "('w, 'e) ext \<Rightarrow> worker_ctx \<Rightarrow> nat \<Rightarrow> (nat \<Rightarrow> 'w proc \<Rightarrow> 'w proc) \<Rightarrow> 'w proc \<Rightarrow> 'w proc option" where
  "worker_loop X c n others s =
     (case call (get_engine X) s of
        (Inl e, s1) \<Rightarrow> Some (fatal_no_engine X c e s1)
      | (Inr _, s1) \<Rightarrow>
          (case (has_load c, has_redo c) of
             (True, False) \<Rightarrow> pure_load_loop X c n others s1
           | (False, True) \<Rightarrow> pure_redo_loop X c n others s1
           | (True, True) \<Rightarrow> mixed_loop X c n others s1
           | (False, False) \<Rightarrow> None))"

section \<open>\<open>monitor_redo_in_flight\<close>\<close>

text \<open>
  The ids of the redo records reported as long, and whether the warning that all redo-capable
  workers are stuck is given. Durations in nanoseconds; \<open>long_record_secs * 2\<close> saturates.
\<close>

definition secs_ns :: "u64 \<Rightarrow> nat" where
  "secs_ns n = unat n * 1000000000"

definition monitor_redo_in_flight ::
  "(string \<Rightarrow> json option) \<Rightarrow> nat \<Rightarrow> (usize, nat \<times> string) hash_map \<Rightarrow> u64 \<Rightarrow> usize \<Rightarrow> string list \<times> bool" where
  "monitor_redo_in_flight from_str now m long_record_secs redo_capable_workers =
     (let long_threshold = secs_ns long_record_secs;
          stuck_threshold = secs_ns (sat_mul long_record_secs 2);
          long = filter (\<lambda>(_, t, _). now - t > long_threshold) m;
          num_stuck = length (filter (\<lambda>(_, t, _). now - t > stuck_threshold) m)
      in (map (\<lambda>(_, _, r). logging_id from_str r) long,
          redo_capable_workers > 0 \<and> num_stuck \<ge> unat redo_capable_workers))"

section \<open>\<open>join_workers_bounded\<close>\<close>

text \<open>
  A join handle is a number; when a thread has finished is a fact of the outside world, and
  whether it finished by a panic is known once it has.
\<close>

record 'w threads =
  is_finished :: "nat \<Rightarrow> 'w \<Rightarrow> bool"
  panicked :: "nat \<Rightarrow> bool"

text \<open>One scan of the pending handles: \<open>is_finished\<close>, then \<open>join\<close>.\<close>

definition join_scan :: "'w threads \<Rightarrow> nat list \<Rightarrow> 'w proc \<Rightarrow> nat list \<times> 'w proc" where
  "join_scan th pending s =
     (let finished = filter (\<lambda>h. is_finished th h (world s)) pending;
          g = glob s
      in (filter (\<lambda>h. \<not> is_finished th h (world s)) pending,
          s\<lparr>glob := g\<lparr>ERRORS := ERRORS g + of_nat (length (filter (panicked th) finished))\<rparr>\<rparr>))"

fun join_rounds ::
  "('w, 'e) ext \<Rightarrow> 'w threads \<Rightarrow> nat \<Rightarrow> nat \<Rightarrow> nat list \<Rightarrow> 'w proc \<Rightarrow> (bool \<times> 'w proc) option" where
  "join_rounds X th 0 deadline pending s = None"
| "join_rounds X th (Suc n) deadline pending s =
     (case join_scan th pending s of
        (pending', s1) \<Rightarrow>
          if pending' = [] then Some (True, s1)
          else if now_ns X (world s1) \<ge> deadline then Some (False, s1)
          else join_rounds X th n deadline pending' (sleep_p X 50000000 s1))"

definition join_workers_bounded ::
  "('w, 'e) ext \<Rightarrow> 'w threads \<Rightarrow> nat \<Rightarrow> nat list \<Rightarrow> 'w proc \<Rightarrow> (bool \<times> 'w proc) option" where
  "join_workers_bounded X th fuel handles s =
     join_rounds X th fuel (now_ns X (world s) + SHUTDOWN_GRACE) handles s"

end
