(* ===== verification/Sz_Worker_Laws.thy ===== *)
theory Sz_Worker_Laws
  imports Sz_Worker
begin

text \<open>
  What the handlers and loops of \<open>Sz_Worker\<close> guarantee: every load item yields one outcome that
  its engine call justifies, the redo bookkeeping is balanced, the dispatch prefers and never
  idles beside work, the loops leave no work behind, and the bounded join ends.
\<close>

section \<open>Frames\<close>

text \<open>Engine calls and the reload check touch only the world and the reload statics.\<close>

definition only_world :: "'w proc \<Rightarrow> 'w proc \<Rightarrow> bool" where
  "only_world s t \<longleftrightarrow> t = s\<lparr>rload := rload t, world := world t\<rparr>"

lemma only_world_fields:
  assumes "only_world s t"
  shows "glob t = glob s" "out t = out s" "started t = started s"
    "redo_in_flight_map t = redo_in_flight_map s" "work_ch t = work_ch s" "redo_ch t = redo_ch s"
    "result_ch t = result_ch s" "notified t = notified s"
proof -
  obtain r w where t: "t = s\<lparr>rload := r, world := w\<rparr>" using assms unfolding only_world_def by blast
  show "glob t = glob s" "out t = out s" "started t = started s"
    "redo_in_flight_map t = redo_in_flight_map s" "work_ch t = work_ch s" "redo_ch t = redo_ch s"
    "result_ch t = result_ch s" "notified t = notified s"
    by (simp_all add: t)
qed

lemma only_world_refl [simp]: "only_world s s"
  by (simp add: only_world_def)

lemma only_world_upd [simp]:
  "only_world s (s\<lparr>world := w\<rparr>)" "only_world s (s\<lparr>rload := r, world := w\<rparr>)"
  by (simp_all add: only_world_def)

lemma only_world_trans: "only_world s t \<Longrightarrow> only_world t u \<Longrightarrow> only_world s u"
  by (cases s; cases t; cases u) (simp add: only_world_def)

lemma call_only_world: "call f s = (r, t) \<Longrightarrow> only_world s t \<and> f (world s) = (r, world t)"
  by (auto simp: call_def split: prod.splits)

lemma poll_p_only_world: "only_world s (poll_p X c s)"
  by (simp add: poll_p_def split: prod.splits)

lemma retry_once_result:
  assumes "retry_once X f s = (r, t)"
  shows "only_world s t \<and> (\<exists>w w'. f w = (r, w'))"
proof -
  obtain r1 s1 where 1: "call f s = (r1, s1)" by fastforce
  note c1 = call_only_world [OF 1]
  show ?thesis
  proof (cases "is_err r1")
    case False
    then show ?thesis using assms c1 by (auto simp: retry_once_def 1)
  next
    case True
    obtain b rl w where 2: "reinit_if_stale X (rload s1) (world s1) = (b, rl, w)" by (metis prod_cases3)
    let ?s2 = "s1\<lparr>rload := rl, world := w\<rparr>"
    have o2: "only_world s ?s2" using c1 only_world_trans by force
    show ?thesis
    proof (cases b)
      case False
      then show ?thesis using assms c1 o2 True by (auto simp: retry_once_def 1 2)
    next
      case b: True
      then have "call f ?s2 = (r, t)" using assms True by (simp add: retry_once_def 1 2 Let_def)
      from call_only_world [OF this] o2 show ?thesis using only_world_trans by blast
    qed
  qed
qed

section \<open>Load items\<close>

text \<open>What justifies an action: the body, or what a call of the engine on this record returned.\<close>

definition justified :: "('w, 'e) ext \<Rightarrow> worker_ctx \<Rightarrow> load_item \<Rightarrow> action \<Rightarrow> bool" where
  "justified X c item act \<longleftrightarrow>
     (case from_utf8 (body item) of
        None \<Rightarrow> act = RejectNoRequeue
      | Some b \<Rightarrow>
         (\<exists>w w' r. add_record X (data_source (info item)) (record_id (info item)) b (add_flags c) w = (r, w') \<and>
            act = (case r of
                     Inr resp \<Rightarrow> Ack (if want_info c then Some resp else None)
                   | Inl e \<Rightarrow> (if is_bad_input X e \<or> is_retryable X e \<or> error_code X e = Some 82
                               then RejectNoRequeue else Fatal (err_display X e)))))"

lemma load_action_justified:
  assumes "load_action X c item s = (act, t)"
  shows "only_world s t \<and> justified X c item act"
proof (cases "from_utf8 (body item)")
  case None
  then show ?thesis using assms by (simp add: load_action_def justified_def)
next
  case (Some b)
  let ?f = "add_record X (data_source (info item)) (record_id (info item)) b (add_flags c)"
  obtain r s1 where r: "retry_once X ?f s = (r, s1)" by fastforce
  from retry_once_result [OF r] obtain w w' where f: "only_world s s1" "?f w = (r, w')" by blast
  let ?act = "case r of Inr resp \<Rightarrow> Ack (if want_info c then Some resp else None)
    | Inl e \<Rightarrow> (if is_bad_input X e \<or> is_retryable X e \<or> error_code X e = Some 82
               then RejectNoRequeue else Fatal (err_display X e))"
  have "t = s1 \<and> act = ?act"
    using assms by (cases r) (auto simp: load_action_def Some r classify_error_def SENZ_DQM_ERROR_CODE_def)
  with f show ?thesis unfolding justified_def Some option.case by blast
qed

text \<open>The outcome an item's handler sends and the statics it leaves.\<close>

definition outcome_of :: "load_item \<Rightarrow> action \<Rightarrow> outcome" where
  "outcome_of item act = \<lparr>o_delivery_tag = delivery_tag item, o_info = info item, o_action = act\<rparr>"

lemma process_load_aux:
  assumes "process_load X c item s = (keep_going, t)"
  shows "\<exists>act n. justified X c item act \<and> keep_going = ch_rx (result_ch s) \<and>
     result_ch t = (if keep_going
       then (result_ch s)\<lparr>ch_buf := ch_buf (result_ch s) @ [outcome_of item act]\<rparr> else result_ch s) \<and>
     started t = started s - {delivery_tag item} \<and>
     glob t = (let g = (glob s)\<lparr>LOAD_BUSY_NS := LOAD_BUSY_NS (glob s) + of_nat n\<rparr>
               in if is_fatal act then mark_fatal g else g) \<and>
     work_ch t = work_ch s \<and> redo_ch t = redo_ch s \<and> redo_in_flight_map t = redo_in_flight_map s \<and>
     out t = out s \<and> notified t = notified s"
proof -
  let ?s1 = "begin_load X c item s"
  have s1: "?s1 = (poll_p X c s)\<lparr>started := insert (delivery_tag item) (started s)\<rparr>"
    by (simp add: begin_load_def Let_def only_world_fields [OF poll_p_only_world])
  obtain act s2 where la: "load_action X c item ?s1 = (act, s2)" by fastforce
  note j = load_action_justified [OF la]
  note f2 = only_world_fields [OF conjunct1 [OF j]]
  note f1 = only_world_fields [OF poll_p_only_world [where X = X and c = c and s = s]]
  have fin: "finish_load item act (now_ns X (world s2) - now_ns X (world ?s1)) s2 = (keep_going, t)"
    using assms(1) by (simp add: process_load_def Let_def la)
  have "keep_going = ch_rx (result_ch s)"
    "result_ch t = (if keep_going
       then (result_ch s)\<lparr>ch_buf := ch_buf (result_ch s) @ [outcome_of item act]\<rparr> else result_ch s)"
    "started t = started s - {delivery_tag item}"
    "glob t = (let g = (glob s)\<lparr>LOAD_BUSY_NS := LOAD_BUSY_NS (glob s) +
        of_nat (now_ns X (world s2) - now_ns X (world ?s1))\<rparr> in if is_fatal act then mark_fatal g else g)"
    "work_ch t = work_ch s" "redo_ch t = redo_ch s" "redo_in_flight_map t = redo_in_flight_map s"
    "out t = out s" "notified t = notified s"
    using fin by (auto simp: finish_load_def send_outcome_p_def chan_blocking_send_def
        outcome_of_def f1 f2 s1 Let_def split: if_splits)
  with j show ?thesis by blast
qed

lemma mark_fatal_fields [simp]:
  "RUNNING (mark_fatal g) = False" "WORKER_FATAL (mark_fatal g) = True" "ERRORS (mark_fatal g) = ERRORS g + 1"
  "ADDS_PROCESSED (mark_fatal g) = ADDS_PROCESSED g" "ADDS_REJECTED (mark_fatal g) = ADDS_REJECTED g"
  "REDOS_PROCESSED (mark_fatal g) = REDOS_PROCESSED g" "REDOS_DROPPED (mark_fatal g) = REDOS_DROPPED g"
  "REDO_IN_FLIGHT (mark_fatal g) = REDO_IN_FLIGHT g" "REDO_BUSY_NS (mark_fatal g) = REDO_BUSY_NS g"
  by (simp_all add: mark_fatal_def)

section \<open>Engine calls per item\<close>

text \<open>The calls the reload check makes leave a measure \<open>k\<close> of the world alone.\<close>

definition keeps_config :: "('w, 'e) ext \<Rightarrow> ('w \<Rightarrow> 'a) \<Rightarrow> bool" where
  "keeps_config X k \<longleftrightarrow>
     (\<forall>w. k (snd (get_config_manager X w)) = k w \<and> k (snd (get_default_config_id X w)) = k w \<and>
          k (snd (get_active_config_id X w)) = k w \<and> k (snd (get_license X w)) = k w \<and>
          (\<forall>d. k (snd (reinitialize X d w)) = k w))"

lemma fetch_default_keeps: "keeps_config X k \<Longrightarrow> k (snd (fetch_default X w)) = k w"
  by (auto simp: keeps_config_def fetch_default_def split: prod.splits sum.splits) (metis snd_conv)+

lemma reconcile_keeps: "keeps_config X k \<Longrightarrow> k (snd (snd (reconcile X st w))) = k w"
proof -
  assume k: "keeps_config X k"
  obtain f1 w1 where f1: "fetch_default X w = (f1, w1)" by fastforce
  obtain f2 w2 where f2: "fetch_default X w1 = (f2, w2)" by fastforce
  let ?d = "case f2 of Inr d \<Rightarrow> d | Inl _ \<Rightarrow> 0"
  obtain f3 w3 where f3: "reinitialize X ?d w2 = (f3, w3)" by fastforce
  have "k w1 = k w" "k w2 = k w1" using fetch_default_keeps [OF k] f1 f2 by (metis snd_conv)+
  moreover have "k w3 = k w2" using k f3 unfolding keeps_config_def by (metis snd_conv)
  moreover have "k (snd (get_license X (snd (get_active_config_id X w3)))) = k w3"
    using k by (simp add: keeps_config_def)
  ultimately show ?thesis using f1 f2 f3
    by (auto simp: reconcile_def Let_def split: sum.splits)
qed

lemma poll_keeps: "keeps_config X k \<Longrightarrow> k (snd (poll X iv st w)) = k w"
  using reconcile_keeps [of X k] by (auto simp: poll_def Let_def split: option.splits prod.splits) (metis snd_conv)+

lemma reinit_if_stale_keeps: "keeps_config X k \<Longrightarrow> reinit_if_stale X st w = (b, r, w') \<Longrightarrow> k w' = k w"
  using reconcile_keeps [of X k st w] by (auto simp: reinit_if_stale_def split: prod.splits sum.splits)

text \<open>Where \<open>k\<close> counts the calls of \<open>f\<close>, \<open>retry_once\<close> makes one or two.\<close>

lemma retry_once_calls:
  assumes k: "keeps_config X k" and f: "\<And>w. k (snd (f w)) = Suc (k w)"
    and r: "retry_once X f s = (r, t)"
  shows "k (world t) = k (world s) + 1 \<or> k (world t) = k (world s) + 2"
proof -
  obtain r1 s1 where 1: "call f s = (r1, s1)" by fastforce
  have k1: "k (world s1) = Suc (k (world s))" using f [of "world s"] call_only_world [OF 1] by simp
  obtain b rl w where 2: "reinit_if_stale X (rload s1) (world s1) = (b, rl, w)" by (metis prod_cases3)
  have k2: "k w = k (world s1)" using reinit_if_stale_keeps [OF k 2] .
  obtain r3 s3 where 3: "call f (s1\<lparr>rload := rl, world := w\<rparr>) = (r3, s3)" by fastforce
  have k3: "k (world s3) = Suc (k w)" using f [of w] call_only_world [OF 3] by simp
  show ?thesis using r k1 k2 k3 by (auto simp: retry_once_def 1 2 3 Let_def split: if_splits)
qed

section \<open>Redo records\<close>

lemma send_outcome_p_fields:
  assumes "send_outcome_p o' s = (ok, t)"
  shows "ok = ch_rx (result_ch s)" "t = s\<lparr>result_ch := result_ch t\<rparr>"
    "result_ch t = (if ok then (result_ch s)\<lparr>ch_buf := ch_buf (result_ch s) @ [o']\<rparr> else result_ch s)"
  using assms by (auto simp: send_outcome_p_def chan_blocking_send_def split: if_splits)

lemma signal_fatal_fields [simp]:
  "glob (signal_fatal m s) = glob s" "out (signal_fatal m s) = out s" "started (signal_fatal m s) = started s"
  "redo_in_flight_map (signal_fatal m s) = redo_in_flight_map s" "work_ch (signal_fatal m s) = work_ch s"
  "redo_ch (signal_fatal m s) = redo_ch s" "world (signal_fatal m s) = world s"
  "ch_rx (result_ch (signal_fatal m s)) = ch_rx (result_ch s)"
  by (simp_all add: signal_fatal_def Let_def send_outcome_p_def chan_blocking_send_def)

lemma signal_fatal_buf:
  "ch_buf (result_ch (signal_fatal m s)) = ch_buf (result_ch s) @
     (if ch_rx (result_ch s)
      then [\<lparr>o_delivery_tag = 0, o_info = record_info_empty, o_action = Fatal m\<rparr>] else [])"
  by (simp add: signal_fatal_def Let_def send_outcome_p_def chan_blocking_send_def)

text \<open>What a redo record's last engine call means for the statics and the worker.\<close>

definition redo_globals :: "('w, 'e) ext \<Rightarrow> 'e + string \<Rightarrow> globals \<Rightarrow> globals" where
  "redo_globals X r g =
     (case r of
        Inr _ \<Rightarrow> g\<lparr>REDOS_PROCESSED := REDOS_PROCESSED g + 1\<rparr>
      | Inl e \<Rightarrow> (if classify_error X e = BadInputOrTimeout then g\<lparr>REDOS_DROPPED := REDOS_DROPPED g + 1\<rparr>
                 else mark_fatal g))"

lemma process_redo_aux:
  assumes p: "process_redo X c job s = (keep_going, t)"
  shows "\<exists>r w w' n. process_redo_record X (snd job) (w_redo_flags c) w = (r, w') \<and>
     glob t = (redo_globals X r (glob s))\<lparr>REDO_BUSY_NS := REDO_BUSY_NS (glob s) + of_nat n\<rparr> \<and>
     keep_going = (case r of Inr _ \<Rightarrow> True | Inl e \<Rightarrow> classify_error X e = BadInputOrTimeout) \<and>
     redo_in_flight_map t = hm_remove (fst job) (redo_in_flight_map s) \<and> started t = started s \<and>
     work_ch t = work_ch s \<and> redo_ch t = redo_ch s \<and> ch_rx (result_ch t) = ch_rx (result_ch s) \<and>
     ch_buf (result_ch t) = ch_buf (result_ch s) @
       (case r of Inl e \<Rightarrow>
          if \<not> keep_going \<and> has_load c \<and> ch_rx (result_ch s)
          then [\<lparr>o_delivery_tag = 0, o_info = record_info_empty, o_action = Fatal (err_display X e)\<rparr>] else []
        | Inr _ \<Rightarrow> []) \<and>
     out t = out s @ (case r of Inr x \<Rightarrow> if want_info c \<and> x \<noteq> [] then [InfoPayload x] else [] | Inl _ \<Rightarrow> [])"
proof -
  let ?s1 = "begin_redo X c job s"
  note f0 = only_world_fields [OF poll_p_only_world [where X = X and c = c and s = s]]
  have m1: "hm_remove (fst job) (redo_in_flight_map ?s1) = hm_remove (fst job) (redo_in_flight_map s)"
    and g1: "glob ?s1 = (glob s)\<lparr>REDO_IN_FLIGHT := REDO_IN_FLIGHT (glob s) + 1\<rparr>"
    and f1: "out ?s1 = out s" "started ?s1 = started s" "work_ch ?s1 = work_ch s" "redo_ch ?s1 = redo_ch s"
      "result_ch ?s1 = result_ch s"
    by (simp_all add: begin_redo_def Let_def f0 hm_remove_insert_eq)
  obtain r s2 where r: "retry_once X (process_redo_record X (snd job) (w_redo_flags c)) ?s1 = (r, s2)" by fastforce
  from retry_once_result [OF r] obtain w w' where ow: "only_world ?s1 s2"
    and w: "process_redo_record X (snd job) (w_redo_flags c) w = (r, w')" by blast
  note f2 = only_world_fields [OF ow]
  obtain kg s3 where r3: "redo_result X c r s2 = (kg, s3)" by fastforce
  let ?n = "now_ns X (world s3) - now_ns X (world ?s1)"
  have t: "kg = keep_going" "t = finish_redo job ?n s3" using p by (simp_all add: process_redo_def r r3 Let_def)
  have s3: "glob s3 = redo_globals X r (glob ?s1)" "redo_in_flight_map s3 = redo_in_flight_map ?s1"
    "started s3 = started s" "work_ch s3 = work_ch s" "redo_ch s3 = redo_ch s"
    "ch_rx (result_ch s3) = ch_rx (result_ch s)"
    "kg = (case r of Inr _ \<Rightarrow> True | Inl e \<Rightarrow> classify_error X e = BadInputOrTimeout)"
    using r3 by (auto simp: redo_result_def redo_globals_def Let_def f1 f2
        split: sum.splits error_class.splits if_splits)
  have s3': "ch_buf (result_ch s3) = ch_buf (result_ch s) @
       (case r of Inl e \<Rightarrow>
          if \<not> kg \<and> has_load c \<and> ch_rx (result_ch s)
          then [\<lparr>o_delivery_tag = 0, o_info = record_info_empty, o_action = Fatal (err_display X e)\<rparr>] else []
        | Inr _ \<Rightarrow> [])"
    "out s3 = out s @ (case r of Inr x \<Rightarrow> if want_info c \<and> x \<noteq> [] then [InfoPayload x] else [] | Inl _ \<Rightarrow> [])"
    using r3 by (auto simp: redo_result_def signal_fatal_buf Let_def f1 f2 split: sum.splits error_class.splits)
  have g: "glob t = (redo_globals X r (glob s))\<lparr>REDO_BUSY_NS := REDO_BUSY_NS (glob s) + of_nat ?n\<rparr>"
    by (simp add: t finish_redo_def Let_def s3 g1 redo_globals_def mark_fatal_def split: sum.splits)
  show ?thesis
    by (intro exI conjI, rule w, rule g)
      (use s3 [unfolded t(1)] s3' [unfolded t(1)] t(2) m1 in \<open>simp_all add: finish_redo_def Let_def\<close>)
qed

section \<open>Properties of the two handlers\<close>

text \<open>C18: a worker that takes a load item sends exactly one outcome for it, with the item's tag,
  after the engine calls and after taking the tag out of \<open>started\<close>. The action is the one the
  engine's answer to this record calls for: \<open>Ack\<close> only when \<open>add_record\<close> accepted it, a rejection
  for a body that is not UTF-8 and for bad input, retryable errors and code 82, \<open>Fatal\<close> for any
  other error. The process is marked fatal and stopped exactly in that last case, and the worker
  goes on exactly while the receiver of the outcomes lives.\<close>

theorem load_item_yields_one_justified_outcome:
  assumes "process_load X c item s = (keep_going, t)"
  shows "\<exists>act. justified X c item act \<and> keep_going = ch_rx (result_ch s) \<and>
     ch_buf (result_ch t) = ch_buf (result_ch s) @ (if keep_going then [outcome_of item act] else []) \<and>
     started t = started s - {delivery_tag item} \<and>
     WORKER_FATAL (glob t) = (WORKER_FATAL (glob s) \<or> is_fatal act) \<and>
     RUNNING (glob t) = (RUNNING (glob s) \<and> \<not> is_fatal act) \<and>
     ERRORS (glob t) = ERRORS (glob s) + (if is_fatal act then 1 else 0) \<and>
     work_ch t = work_ch s \<and> redo_ch t = redo_ch s"
proof -
  obtain act n where "justified X c item act" "keep_going = ch_rx (result_ch s)"
    "result_ch t = (if keep_going
       then (result_ch s)\<lparr>ch_buf := ch_buf (result_ch s) @ [outcome_of item act]\<rparr> else result_ch s)"
    "started t = started s - {delivery_tag item}"
    "glob t = (let g = (glob s)\<lparr>LOAD_BUSY_NS := LOAD_BUSY_NS (glob s) + of_nat n\<rparr>
               in if is_fatal act then mark_fatal g else g)"
    "work_ch t = work_ch s" "redo_ch t = redo_ch s"
    using process_load_aux [OF assms] by blast
  then show ?thesis by (intro exI [of _ act]) (auto simp: Let_def)
qed

text \<open>An item costs at most two \<open>add_record\<close> calls (one, and one retry after the
  configuration was refreshed), a body that is not UTF-8 none.\<close>

theorem load_item_calls_engine_at_most_twice:
  assumes k: "keeps_config X k" and add: "\<And>ds rid b fl w. k (snd (add_record X ds rid b fl w)) = Suc (k w)"
    and p: "process_load X c item s = (keep_going, t)"
  shows "k (world t) = k (world s) + (if from_utf8 (body item) = None then 0 else 1) \<or>
    (from_utf8 (body item) \<noteq> None \<and> k (world t) = k (world s) + 2)"
proof -
  let ?s1 = "begin_load X c item s"
  obtain act s2 where la: "load_action X c item ?s1 = (act, s2)" by fastforce
  have k1: "k (world ?s1) = k (world s)"
    using poll_keeps [OF k, of "poll_iv c" "rload s" "world s"]
    by (auto simp: begin_load_def poll_p_def Let_def split: prod.splits)
  have "world t = world s2" using p
    by (auto simp: process_load_def la Let_def finish_load_def send_outcome_p_def split: prod.splits)
  moreover have "k (world s2) = k (world ?s1) + (if from_utf8 (body item) = None then 0 else 1) \<or>
    (from_utf8 (body item) \<noteq> None \<and> k (world s2) = k (world ?s1) + 2)"
  proof (cases "from_utf8 (body item)")
    case None then show ?thesis using la by (simp add: load_action_def)
  next
    case (Some b)
    let ?f = "add_record X (data_source (info item)) (record_id (info item)) b (add_flags c)"
    obtain r s2' where r: "retry_once X ?f ?s1 = (r, s2')" by fastforce
    have "s2' = s2" using la by (auto simp: load_action_def Some r split: sum.splits)
    then show ?thesis using retry_once_calls [OF k _ r] add Some by (auto simp: from_utf8_def)
  qed
  ultimately show ?thesis using k1 by simp
qed

text \<open>C19: a redo record leaves the in-flight map and the in-flight counter as they were and adds
  one to exactly one of the processed, dropped and error counters, according to the engine's last
  answer; only a fatal answer stops the process and the worker, and in a mixed worker it also sends
  a fatal outcome with the sentinel tag.\<close>

theorem redo_record_is_settled_once:
  assumes p: "process_redo X c job s = (keep_going, t)" and fresh: "fst job \<notin> fst ` set (redo_in_flight_map s)"
  shows "redo_in_flight_map t = redo_in_flight_map s \<and> REDO_IN_FLIGHT (glob t) = REDO_IN_FLIGHT (glob s) \<and>
    (\<exists>r w w'. process_redo_record X (snd job) (w_redo_flags c) w = (r, w') \<and>
       (case r of
          Inr x \<Rightarrow> keep_going \<and> REDOS_PROCESSED (glob t) = REDOS_PROCESSED (glob s) + 1 \<and>
            REDOS_DROPPED (glob t) = REDOS_DROPPED (glob s) \<and> ERRORS (glob t) = ERRORS (glob s) \<and>
            WORKER_FATAL (glob t) = WORKER_FATAL (glob s) \<and> RUNNING (glob t) = RUNNING (glob s)
        | Inl e \<Rightarrow> REDOS_PROCESSED (glob t) = REDOS_PROCESSED (glob s) \<and>
            (if is_bad_input X e \<or> is_retryable X e \<or> error_code X e = Some 82
             then keep_going \<and> REDOS_DROPPED (glob t) = REDOS_DROPPED (glob s) + 1 \<and>
               ERRORS (glob t) = ERRORS (glob s) \<and>
               WORKER_FATAL (glob t) = WORKER_FATAL (glob s) \<and> RUNNING (glob t) = RUNNING (glob s)
             else \<not> keep_going \<and> REDOS_DROPPED (glob t) = REDOS_DROPPED (glob s) \<and>
               ERRORS (glob t) = ERRORS (glob s) + 1 \<and> WORKER_FATAL (glob t) \<and> \<not> RUNNING (glob t) \<and>
               (has_load c \<and> ch_rx (result_ch s) \<longrightarrow>
                 \<lparr>o_delivery_tag = 0, o_info = record_info_empty, o_action = Fatal (err_display X e)\<rparr>
                   \<in> set (ch_buf (result_ch t))))))"
proof -
  obtain r w w' n where a: "process_redo_record X (snd job) (w_redo_flags c) w = (r, w')"
    "glob t = (redo_globals X r (glob s))\<lparr>REDO_BUSY_NS := REDO_BUSY_NS (glob s) + of_nat n\<rparr>"
    "keep_going = (case r of Inr _ \<Rightarrow> True | Inl e \<Rightarrow> classify_error X e = BadInputOrTimeout)"
    "redo_in_flight_map t = hm_remove (fst job) (redo_in_flight_map s)"
    "ch_buf (result_ch t) = ch_buf (result_ch s) @
       (case r of Inl e \<Rightarrow>
          if \<not> keep_going \<and> has_load c \<and> ch_rx (result_ch s)
          then [\<lparr>o_delivery_tag = 0, o_info = record_info_empty, o_action = Fatal (err_display X e)\<rparr>] else []
        | Inr _ \<Rightarrow> [])"
    using process_redo_aux [OF p] by blast
  have "REDO_IN_FLIGHT (glob t) = REDO_IN_FLIGHT (glob s)"
    by (simp add: a(2) redo_globals_def split: sum.splits)
  with a hm_remove_fresh [OF fresh] show ?thesis
    by (intro conjI exI [of _ r] exI [of _ w] exI [of _ w'])
      (auto simp: redo_globals_def classify_error_def SENZ_DQM_ERROR_CODE_def split: sum.splits)
qed

section \<open>A worker of the concrete instance\<close>

definition demo_ctx :: worker_ctx where
  "demo_ctx = \<lparr>worker_id = 0, wclass = RedoPreferring, has_load = True, has_redo = True,
     add_flags = Some 0, w_redo_flags = None, want_info = True, poll_iv = None\<rparr>"

definition demo_item :: load_item where
  "demo_item = \<lparr>delivery_tag = 1, body = ''r1'', info = \<lparr>data_source = ''T'', record_id = ''r1''\<rparr>\<rparr>"

definition demo_proc :: "demo_world proc" where
  "demo_proc = \<lparr>glob = init_globals, rload = init_reload, world = demo_world0, out = [], started = {},
     redo_in_flight_map = [], work_ch = chan_new 4 1, redo_ch = chan_new 4 1, result_ch = chan_new 4 1,
     notified = 0\<rparr>"

theorem load_item_yields_one_justified_outcome_witness:
  "\<exists>t. process_load demo_ext demo_ctx demo_item demo_proc = (True, t) \<and>
     ch_buf (result_ch t) = [outcome_of demo_item (Ack (Some ''done''))] \<and> started t = {}"
proof -
  obtain k t where p: "process_load demo_ext demo_ctx demo_item demo_proc = (k, t)" by fastforce
  from load_item_yields_one_justified_outcome [OF p] obtain act
    where a: "justified demo_ext demo_ctx demo_item act" "k = ch_rx (result_ch demo_proc)"
      "ch_buf (result_ch t) = ch_buf (result_ch demo_proc) @ (if k then [outcome_of demo_item act] else [])"
      "started t = started demo_proc - {delivery_tag demo_item}" by blast
  have "act = Ack (Some ''done'')"
    using a(1) by (simp add: justified_def demo_item_def demo_ctx_def demo_ext_def from_utf8_def)
  with p a show ?thesis by (simp add: demo_proc_def chan_new_def)
qed

lemma demo_keeps_time: "keeps_config demo_ext (\<lambda>w. dw_time w div 5)"
  by (simp add: keeps_config_def demo_ext_def)

theorem load_item_calls_engine_at_most_twice_witness:
  "dw_time (world (snd (process_load demo_ext demo_ctx demo_item demo_proc))) div 5 \<in> {1, 2}"
proof -
  have add: "\<And>ds rid b fl w. dw_time (snd (add_record demo_ext ds rid b fl w)) div 5 = Suc (dw_time w div 5)"
    by (simp add: demo_ext_def)
  obtain k t where p: "process_load demo_ext demo_ctx demo_item demo_proc = (k, t)" by fastforce
  have "dw_time (world demo_proc) = 0" "from_utf8 (body demo_item) = Some ''r1''"
    by (simp_all add: demo_proc_def demo_world0_def demo_item_def)
  with load_item_calls_engine_at_most_twice [OF demo_keeps_time add p]
  show ?thesis by (auto simp: p)
qed

theorem redo_record_is_settled_once_witness:
  "\<exists>t. process_redo demo_ext demo_ctx (1, ''dead'') demo_proc = (False, t) \<and> WORKER_FATAL (glob t) \<and>
     REDO_IN_FLIGHT (glob t) = 0 \<and> redo_in_flight_map t = []"
proof -
  obtain k t where p: "process_redo demo_ext demo_ctx (1, ''dead'') demo_proc = (k, t)" by fastforce
  have fresh: "fst (1, ''dead'') \<notin> fst ` set (redo_in_flight_map demo_proc)" by (simp add: demo_proc_def)
  from redo_record_is_settled_once [OF p fresh] p show ?thesis
    by (auto simp: demo_proc_def init_globals_def demo_ext_def split: sum.splits)
qed

section \<open>Dispatch\<close>

definition closed_drained :: "'a chan \<Rightarrow> bool" where
  "closed_drained c \<longleftrightarrow> ch_senders c = 0 \<and> ch_buf c = []"

lemma try_pick_redo:
  "try_pick True l s =
     (if redo_open l then
        (case ch_buf (redo_ch s) of
           job # js \<Rightarrow> (Some (NextRedo job), l, s\<lparr>redo_ch := (redo_ch s)\<lparr>ch_buf := js\<rparr>\<rparr>)
         | [] \<Rightarrow> (None, if ch_senders (redo_ch s) = 0 then l\<lparr>redo_open := False\<rparr> else l, s))
      else (None, l, s))"
  by (simp add: try_pick_def try_recv_redo_def chan_recv_def split: list.splits)

lemma try_pick_load:
  "try_pick False l s =
     (if load_open l then
        (case ch_buf (work_ch s) of
           item # js \<Rightarrow> (Some (NextLoad item), l, s\<lparr>work_ch := (work_ch s)\<lparr>ch_buf := js\<rparr>\<rparr>)
         | [] \<Rightarrow> (None, if ch_senders (work_ch s) = 0 then l\<lparr>load_open := False\<rparr> else l, s))
      else (None, l, s))"
  by (simp add: try_pick_def try_recv_load_def chan_recv_def split: list.splits)

lemmas try_pick_eqs = try_pick_redo try_pick_load

definition locals_ok :: "mixed_locals \<Rightarrow> 'w proc \<Rightarrow> bool" where
  "locals_ok l s \<longleftrightarrow> (\<not> load_open l \<longrightarrow> closed_drained (work_ch s)) \<and>
     (\<not> redo_open l \<longrightarrow> closed_drained (redo_ch s))"

text \<open>The item the discipline calls for: the preferred channel's, else the other's.\<close>

definition preferred_item :: "worker_ctx \<Rightarrow> 'w proc \<Rightarrow> next_item option" where
  "preferred_item c s =
     (let load = (case ch_buf (work_ch s) of [] \<Rightarrow> None | x # _ \<Rightarrow> Some (NextLoad x));
          redo = (case ch_buf (redo_ch s) of [] \<Rightarrow> None | x # _ \<Rightarrow> Some (NextRedo x))
      in if wclass c = RedoPreferring then (if redo \<noteq> None then redo else load)
         else (if load \<noteq> None then load else redo))"

text \<open>The state with that item taken.\<close>

definition take_item :: "next_item option \<Rightarrow> 'w proc \<Rightarrow> 'w proc" where
  "take_item n s =
     (case n of
        None \<Rightarrow> s
      | Some (NextLoad _) \<Rightarrow> s\<lparr>work_ch := (work_ch s)\<lparr>ch_buf := tl (ch_buf (work_ch s))\<rparr>\<rparr>
      | Some (NextRedo _) \<Rightarrow> s\<lparr>redo_ch := (redo_ch s)\<lparr>ch_buf := tl (ch_buf (redo_ch s))\<rparr>\<rparr>)"

lemma dispatch_pass_aux:
  assumes ok: "locals_ok l s" and d: "dispatch_pass c l s = (n, l', t)"
  shows "n = preferred_item c s \<and> t = take_item n s \<and> locals_ok l' t \<and> idle_passes l' = idle_passes l \<and>
    (n = None \<longrightarrow> load_open l' = (ch_senders (work_ch s) \<noteq> 0 \<and> load_open l) \<and>
                  redo_open l' = (ch_senders (redo_ch s) \<noteq> 0 \<and> redo_open l))"
  using assms
  by (cases "wclass c"; cases "ch_buf (work_ch s)"; cases "ch_buf (redo_ch s)")
    (auto simp: dispatch_pass_def try_pick_eqs preferred_item_def take_item_def locals_ok_def
      closed_drained_def split: if_splits)

lemma process_load_frame:
  assumes "process_load X c item s = (keep_going, t)"
  shows "work_ch t = work_ch s \<and> redo_ch t = redo_ch s \<and> keep_going = ch_rx (result_ch s) \<and>
    ch_rx (result_ch t) = ch_rx (result_ch s)"
  using process_load_aux [OF assms] by (elim exE conjE) (simp split: if_splits)

lemma process_redo_frame:
  assumes "process_redo X c job s = (keep_going, t)"
  shows "work_ch t = work_ch s \<and> redo_ch t = redo_ch s \<and> ch_rx (result_ch t) = ch_rx (result_ch s) \<and>
    (keep_going \<or> WORKER_FATAL (glob t))"
  using process_redo_aux [OF assms]
  by (elim exE conjE) (simp add: redo_globals_def split: sum.splits)

lemma process_next_frame:
  assumes "process_next X c n s = (keep_going, t)"
  shows "work_ch t = work_ch s" "redo_ch t = redo_ch s" "ch_rx (result_ch t) = ch_rx (result_ch s)"
    "\<not> keep_going \<Longrightarrow> WORKER_FATAL (glob t) \<or> \<not> ch_rx (result_ch t)"
proof -
  have "work_ch t = work_ch s \<and> redo_ch t = redo_ch s \<and> ch_rx (result_ch t) = ch_rx (result_ch s) \<and>
    (keep_going \<or> WORKER_FATAL (glob t) \<or> \<not> ch_rx (result_ch t))"
  proof (cases n)
    case (NextLoad item)
    with assms have "process_load X c item s = (keep_going, t)" by (simp add: process_next_def)
    from process_load_frame [OF this] show ?thesis by auto
  next
    case (NextRedo job)
    with assms have "process_redo X c job s = (keep_going, t)" by (simp add: process_next_def)
    from process_redo_frame [OF this] show ?thesis by auto
  qed
  then show "work_ch t = work_ch s" "redo_ch t = redo_ch s" "ch_rx (result_ch t) = ch_rx (result_ch s)"
    "\<not> keep_going \<Longrightarrow> WORKER_FATAL (glob t) \<or> \<not> ch_rx (result_ch t)" by blast+
qed

lemma sleep_p_fields [simp]:
  "work_ch (sleep_p X d s) = work_ch s" "redo_ch (sleep_p X d s) = redo_ch s" "glob (sleep_p X d s) = glob s"
  "result_ch (sleep_p X d s) = result_ch s" "world (sleep_p X d s) = sleep_ns X d (world s)"
  by (simp_all add: sleep_p_def)

text \<open>A pass that goes on took an item or slept; one that ends found everything drained, or a fatal
  error, or the outcomes' receiver gone.\<close>

lemma mixed_pass_cases:
  assumes ok: "locals_ok l s" and m: "mixed_pass X c l s = (r, t)"
  shows "(\<forall>l'. r = Some l' \<longrightarrow> locals_ok l' t) \<and>
    (r = None \<longrightarrow> closed_drained (work_ch t) \<and> closed_drained (redo_ch t) \<or>
       WORKER_FATAL (glob t) \<or> \<not> ch_rx (result_ch t)) \<and>
    (preferred_item c s \<noteq> None \<longrightarrow>
       work_ch t = work_ch (take_item (preferred_item c s) s) \<and> redo_ch t = redo_ch (take_item (preferred_item c s) s)) \<and>
    (preferred_item c s = None \<longrightarrow> work_ch t = work_ch s \<and> redo_ch t = redo_ch s \<and>
       (r = None \<longleftrightarrow> (ch_senders (work_ch s) = 0 \<or> \<not> load_open l) \<and> (ch_senders (redo_ch s) = 0 \<or> \<not> redo_open l)))"
proof -
  obtain n l1 s1 where d: "dispatch_pass c l s = (n, l1, s1)" by (metis prod_cases3)
  note a = dispatch_pass_aux [OF ok d]
  show ?thesis
  proof (cases n)
    case None
    then have pn: "preferred_item c s = None" "s1 = s" and l1: "locals_ok l1 s"
      "load_open l1 = (ch_senders (work_ch s) \<noteq> 0 \<and> load_open l)"
      "redo_open l1 = (ch_senders (redo_ch s) \<noteq> 0 \<and> redo_open l)"
      using a by (auto simp: take_item_def)
    have t: "work_ch t = work_ch s" "redo_ch t = redo_ch s"
      "\<And>l'. r = Some l' \<Longrightarrow> load_open l' = load_open l1 \<and> redo_open l' = redo_open l1"
      "r = None \<longleftrightarrow> \<not> load_open l1 \<and> \<not> redo_open l1"
      using m pn by (auto simp: mixed_pass_def d None Let_def split: if_splits)
    have "locals_ok l' t" if "r = Some l'" for l'
      using l1(1) t(1,2) t(3) [OF that] by (simp add: locals_ok_def)
    moreover have "closed_drained (work_ch t) \<and> closed_drained (redo_ch t)" if "r = None"
      using l1(1) t(1,2,4) that by (simp add: locals_ok_def)
    ultimately show ?thesis using pn t(1,2,4) l1(2,3) by blast
  next
    case (Some x)
    obtain kg s2 where p: "process_next X c x s1 = (kg, s2)" by fastforce
    note f = process_next_frame [OF p]
    have r: "r = (if kg then Some (l1\<lparr>idle_passes := 0\<rparr>) else None)" "t = s2"
      using m by (auto simp: mixed_pass_def d Some p)
    have s1: "preferred_item c s = Some x" "s1 = take_item (preferred_item c s) s" "locals_ok l1 s1"
      using a Some by auto
    have "locals_ok l' t" if "r = Some l'" for l'
      using that r s1(3) f(1,2) by (auto simp: locals_ok_def split: if_splits)
    moreover have "WORKER_FATAL (glob t) \<or> \<not> ch_rx (result_ch t)" if "r = None"
      using that r f(4) by (simp split: if_splits)
    ultimately show ?thesis using s1 f(1,2) r(2) by simp
  qed
qed

section \<open>Properties of the dispatch\<close>

text \<open>C27: a dispatch pass over both channels takes the oldest item of the preferred channel, and
  the oldest of the other one only when the preferred is empty; it comes back empty-handed only when
  both are empty, and it takes nothing else. A worker never sleeps beside work of either kind.\<close>

theorem dispatch_prefers_and_crosses_over:
  assumes "locals_ok l s" "dispatch_pass c l s = (n, l', t)"
  shows "n = preferred_item c s \<and> t = take_item n s \<and>
    (n = None \<longleftrightarrow> ch_buf (work_ch s) = [] \<and> ch_buf (redo_ch s) = [])"
  using dispatch_pass_aux [OF assms]
  by (auto simp: preferred_item_def Let_def split: list.splits if_splits)

theorem dispatch_prefers_and_crosses_over_witness:
  "\<exists>l' t. dispatch_pass demo_ctx \<lparr>load_open = True, redo_open = True, idle_passes = 0\<rparr>
     (demo_proc\<lparr>work_ch := (work_ch demo_proc)\<lparr>ch_buf := [demo_item]\<rparr>\<rparr>) = (Some (NextLoad demo_item), l', t) \<and>
     ch_buf (work_ch t) = []"
proof -
  let ?s = "demo_proc\<lparr>work_ch := (work_ch demo_proc)\<lparr>ch_buf := [demo_item]\<rparr>\<rparr>"
  obtain n l' t where d: "dispatch_pass demo_ctx \<lparr>load_open = True, redo_open = True, idle_passes = 0\<rparr> ?s = (n, l', t)"
    by (metis prod_cases3)
  have "locals_ok \<lparr>load_open = True, redo_open = True, idle_passes = 0\<rparr> ?s" by (simp add: locals_ok_def)
  from dispatch_prefers_and_crosses_over [OF this d] d show ?thesis
    by (simp add: preferred_item_def take_item_def demo_ctx_def demo_proc_def chan_new_def)
qed

text \<open>C26: a mixed worker, among threads that never reopen or refill a closed and drained channel,
  leaves its loop only when both channels are closed and drained, or after a fatal error, or when
  nobody receives outcomes any more.\<close>

theorem mixed_loop_leaves_no_work:
  assumes run: "mixed_loop X c n others s = Some t"
    and stable: "\<And>k s. closed_drained (work_ch s) \<Longrightarrow> closed_drained (work_ch (others k s))"
      "\<And>k s. closed_drained (redo_ch s) \<Longrightarrow> closed_drained (redo_ch (others k s))"
  shows "closed_drained (work_ch t) \<and> closed_drained (redo_ch t) \<or> WORKER_FATAL (glob t) \<or>
    \<not> ch_rx (result_ch t)"
proof -
  have "\<exists>l' s'. locals_ok l' s' \<and> mixed_pass X c l' s' = (None, t)"
  proof (rule drive_exit [OF run [unfolded mixed_loop_def], where I = locals_ok])
    show "locals_ok \<lparr>load_open = True, redo_open = True, idle_passes = 0\<rparr> s" by (simp add: locals_ok_def)
    show "\<And>k l s. locals_ok l s \<Longrightarrow> locals_ok l (others k s)" using stable by (auto simp: locals_ok_def)
    show "\<And>l s l' s'. locals_ok l s \<Longrightarrow> mixed_pass X c l s = (Some l', s') \<Longrightarrow> locals_ok l' s'"
      using mixed_pass_cases by blast
  qed
  then show ?thesis using mixed_pass_cases by blast
qed

lemma take_item_length:
  "preferred_item c s \<noteq> None \<Longrightarrow>
     length (ch_buf (work_ch (take_item (preferred_item c s) s))) +
     length (ch_buf (redo_ch (take_item (preferred_item c s) s))) <
     length (ch_buf (work_ch s)) + length (ch_buf (redo_ch s))"
  by (auto simp: preferred_item_def take_item_def Let_def split: list.splits if_splits)

lemma take_item_senders [simp]:
  "ch_senders (work_ch (take_item n s)) = ch_senders (work_ch s)"
  "ch_senders (redo_ch (take_item n s)) = ch_senders (redo_ch s)"
  by (auto simp: take_item_def split: option.splits next_item.splits)

lemma mixed_loop_ends_aux:
  assumes "ch_senders (work_ch s) = 0" "ch_senders (redo_ch s) = 0"
    and "n > length (ch_buf (work_ch s)) + length (ch_buf (redo_ch s))"
  shows "\<exists>t. mixed_loop X c n (\<lambda>_ s. s) s = Some t"
  unfolding mixed_loop_def
proof (rule drive_ends [where I = "\<lambda>l s. locals_ok l s \<and> ch_senders (work_ch s) = 0 \<and> ch_senders (redo_ch s) = 0"
      and m = "\<lambda>l s. length (ch_buf (work_ch s)) + length (ch_buf (redo_ch s))"])
  show "locals_ok \<lparr>load_open = True, redo_open = True, idle_passes = 0\<rparr> s \<and>
      ch_senders (work_ch s) = 0 \<and> ch_senders (redo_ch s) = 0" using assms by (simp add: locals_ok_def)
next
  fix l s l' s'
  assume I: "locals_ok l s \<and> ch_senders (work_ch s) = 0 \<and> ch_senders (redo_ch s) = 0"
    and m: "mixed_pass X c l s = (Some l', s')"
  note c = mixed_pass_cases [OF conjunct1 [OF I] m]
  then have p: "preferred_item c s \<noteq> None" using I by blast
  with c take_item_length [OF p] I
  show "(locals_ok l' s' \<and> ch_senders (work_ch s') = 0 \<and> ch_senders (redo_ch s') = 0) \<and>
    length (ch_buf (work_ch s')) + length (ch_buf (redo_ch s')) <
    length (ch_buf (work_ch s)) + length (ch_buf (redo_ch s))" by simp
qed (use assms in auto)

text \<open>Once both channels are closed, a worker left alone ends within one pass per queued
  item and one more.\<close>

theorem mixed_loop_ends_when_closed:
  assumes "ch_senders (work_ch s) = 0" "ch_senders (redo_ch s) = 0"
    and "n > length (ch_buf (work_ch s)) + length (ch_buf (redo_ch s))"
  shows "\<exists>t. mixed_loop X c n (\<lambda>_ s. s) s = Some t"
  using assms by (rule mixed_loop_ends_aux)

text \<open>A process with one item of each kind queued and both channels closed.\<close>

definition demo_closed :: "demo_world proc" where
  "demo_closed = demo_proc\<lparr>work_ch := \<lparr>ch_buf = [demo_item], ch_cap = 4, ch_senders = 0, ch_rx = True\<rparr>,
     redo_ch := \<lparr>ch_buf = [(0, ''redo'')], ch_cap = 4, ch_senders = 0, ch_rx = True\<rparr>\<rparr>"

theorem mixed_loop_ends_when_closed_witness: "\<exists>t. mixed_loop demo_ext demo_ctx 3 (\<lambda>_ s. s) demo_closed = Some t"
  by (rule mixed_loop_ends_when_closed) (simp_all add: demo_closed_def)

theorem mixed_loop_leaves_no_work_witness:
  "\<exists>t. mixed_loop demo_ext demo_ctx 3 (\<lambda>_ s. s) demo_closed = Some t \<and>
     (closed_drained (work_ch t) \<and> closed_drained (redo_ch t) \<or> WORKER_FATAL (glob t) \<or> \<not> ch_rx (result_ch t))"
proof -
  obtain t where "mixed_loop demo_ext demo_ctx 3 (\<lambda>_ s. s) demo_closed = Some t"
    using mixed_loop_ends_aux [of demo_closed 3] by (auto simp: demo_closed_def)
  from mixed_loop_leaves_no_work [OF this] this show ?thesis by blast
qed

end
