(* ===== verification/Sz_Join.thy ===== *)
theory Sz_Join
  imports Sz_Worker_Laws
begin

text \<open>
  The two bounded waits for the engine threads at the end of a run: \<open>join_workers_bounded\<close>
  (\<open>crates/core/src/worker.rs\<close>, every 50 ms) and the inline loop of the RabbitMQ, SQS and file runs
  (every 20 ms). Both end within the grace, and they report a clean shutdown only if every thread has
  finished.
\<close>

section \<open>Time and threads\<close>

text \<open>\<open>thread::sleep\<close> takes at least the time asked for; a finished thread stays finished.\<close>

definition clock_ok :: "('w, 'e) ext \<Rightarrow> bool" where
  "clock_ok X \<longleftrightarrow> (\<forall>d w. now_ns X w + d \<le> now_ns X (sleep_ns X d w))"

definition finish_ok :: "('w, 'e) ext \<Rightarrow> 'w threads \<Rightarrow> bool" where
  "finish_ok X th \<longleftrightarrow> (\<forall>h d w. is_finished th h w \<longrightarrow> is_finished th h (sleep_ns X d w))"

definition all_finished :: "'w threads \<Rightarrow> nat list \<Rightarrow> 'w proc \<Rightarrow> bool" where
  "all_finished th handles s \<longleftrightarrow> list_all (\<lambda>h. is_finished th h (world s)) handles"

section \<open>\<open>join_workers_bounded\<close>\<close>

lemma join_scan_fields:
  assumes "join_scan th pending s = (p, t)"
  shows "p = filter (\<lambda>h. \<not> is_finished th h (world s)) pending" "world t = world s"
    "ERRORS (glob t) = ERRORS (glob s) +
       of_nat (length (filter (\<lambda>h. panicked th h) (filter (\<lambda>h. is_finished th h (world s)) pending)))"
    "WORKER_FATAL (glob t) = WORKER_FATAL (glob s)" "RUNNING (glob t) = RUNNING (glob s)"
    "REDOS_PROCESSED (glob t) = REDOS_PROCESSED (glob s)"
  using assms by (auto simp: join_scan_def Let_def)

text \<open>\<open>n\<close> scans suffice when less than \<open>n - 1\<close> naps lead to the deadline.\<close>

lemma join_rounds_ends:
  assumes clock: "clock_ok X"
  shows "deadline \<le> now_ns X (world s) + n * 50000000 \<Longrightarrow>
    \<exists>rt. join_rounds X th (Suc n) deadline pending s = Some rt"
proof (induction n arbitrary: pending s)
  case 0
  obtain p t where j: "join_scan th pending s = (p, t)" by fastforce
  with 0 join_scan_fields(2) [OF j] show ?case by auto
next
  case (Suc n)
  obtain p t where j: "join_scan th pending s = (p, t)" by fastforce
  have "now_ns X (world s) + 50000000 \<le> now_ns X (world (sleep_p X 50000000 t))"
    using clock join_scan_fields(2) [OF j] by (simp add: clock_ok_def sleep_p_def)
  then have "deadline \<le> now_ns X (world (sleep_p X 50000000 t)) + n * 50000000" using Suc.prems by simp
  from Suc.IH [OF this, of p] obtain r u
    where "join_rounds X th (Suc n) deadline p (sleep_p X 50000000 t) = Some (r, u)" by fast
  then show ?case
    by (subst join_rounds.simps) (cases "p = []"; cases "deadline \<le> now_ns X (world t)";
      auto simp: j simp del: join_rounds.simps)
qed

lemma join_rounds_stays:
  assumes fin: "finish_ok X th"
  shows "join_rounds X th n deadline pending s = Some (r, t) \<Longrightarrow> is_finished th h (world s) \<Longrightarrow> is_finished th h (world t)"
proof (induction n arbitrary: pending s)
  case (Suc n)
  obtain p t1 where j: "join_scan th pending s = (p, t1)" by fastforce
  note f = join_scan_fields(2) [OF j]
  have "is_finished th h (world (sleep_p X 50000000 t1))"
    using Suc.prems(2) fin f by (simp add: finish_ok_def)
  then show ?case using Suc f by (auto simp: j split: if_splits)
qed simp

lemma join_rounds_result:
  assumes fin: "finish_ok X th"
  shows "join_rounds X th n deadline pending s = Some (r, t) \<Longrightarrow>
    (if r then \<forall>h \<in> set pending. is_finished th h (world t)
     else deadline \<le> now_ns X (world t) \<and> (\<exists>h \<in> set pending. \<not> is_finished th h (world t))) \<and>
    WORKER_FATAL (glob t) = WORKER_FATAL (glob s) \<and> RUNNING (glob t) = RUNNING (glob s)"
proof (induction n arbitrary: pending s)
  case (Suc n)
  obtain p t1 where j: "join_scan th pending s = (p, t1)" by fastforce
  note f = join_scan_fields [OF j]
  have e: "(if p = [] then Some (True, t1)
      else if now_ns X (world t1) \<ge> deadline then Some (False, t1)
      else join_rounds X th n deadline p (sleep_p X 50000000 t1)) = Some (r, t)"
    using Suc.prems by (simp add: j)
  consider "p = []" "r" "t = t1"
    | "p \<noteq> []" "deadline \<le> now_ns X (world t1)" "\<not> r" "t = t1"
    | "p \<noteq> []" "join_rounds X th n deadline p (sleep_p X 50000000 t1) = Some (r, t)"
    using e by (cases "p = []"; cases "deadline \<le> now_ns X (world t1)") simp_all
  then show ?case
  proof cases
    case 1
    then show ?thesis using f by (auto simp: filter_empty_conv)
  next
    case 2
    then obtain h where "h \<in> set pending" "\<not> is_finished th h (world s)" using f(1) by (auto simp: filter_empty_conv)
    with 2 f(2,4,5) show ?thesis by (simp only: if_False) blast
  next
    case 3
    have "is_finished th h (world t)" if "is_finished th h (world s)" for h
      using join_rounds_stays [OF fin 3(2)] that fin f(2) by (simp add: finish_ok_def)
    with Suc.IH [OF 3(2)] f(1,2,4,5) show ?thesis by (cases r) (simp_all, blast+)
  qed
qed simp

lemma join_workers_bounded_aux:
  assumes "clock_ok X" "finish_ok X th" "200 < fuel"
  shows "\<exists>clean t. join_workers_bounded X th fuel handles s = Some (clean, t) \<and>
    (if clean then \<forall>h \<in> set handles. is_finished th h (world t)
     else now_ns X (world s) + SHUTDOWN_GRACE \<le> now_ns X (world t) \<and> (\<exists>h \<in> set handles. \<not> is_finished th h (world t))) \<and>
    WORKER_FATAL (glob t) = WORKER_FATAL (glob s) \<and> RUNNING (glob t) = RUNNING (glob s)"
proof -
  obtain n where n: "fuel = Suc n" "200 \<le> n" using assms(3) by (cases fuel) auto
  have "now_ns X (world s) + SHUTDOWN_GRACE \<le> now_ns X (world s) + n * 50000000"
    using n(2) by (simp add: SHUTDOWN_GRACE_def)
  from join_rounds_ends [OF assms(1) this, of th handles] obtain r t
    where rt: "join_rounds X th fuel (now_ns X (world s) + SHUTDOWN_GRACE) handles s = Some (r, t)"
    unfolding n(1) by (metis surj_pair)
  with join_rounds_result [OF assms(2) rt] show ?thesis by (auto simp: join_workers_bounded_def)
qed

text \<open>C34: the bounded join always returns, after at most 201 scans, within the 10 s grace plus its
  last nap; it reports a clean shutdown exactly when every thread has finished, and gives up only at
  the deadline with a thread still running.\<close>

theorem join_workers_bounded_correct:
  assumes "clock_ok X" "finish_ok X th" "200 < fuel"
  shows "\<exists>clean t. join_workers_bounded X th fuel handles s = Some (clean, t) \<and>
    (if clean then \<forall>h \<in> set handles. is_finished th h (world t)
     else now_ns X (world s) + SHUTDOWN_GRACE \<le> now_ns X (world t) \<and> (\<exists>h \<in> set handles. \<not> is_finished th h (world t)))"
  using join_workers_bounded_aux [OF assms] by blast

text \<open>Thread 0 of the instance ends after 70 ms, thread 1 never.\<close>

definition demo_threads :: "demo_world threads" where
  "demo_threads = \<lparr>is_finished = (\<lambda>h w. h = 0 \<and> 70000000 \<le> dw_time w), panicked = (\<lambda>h. False)\<rparr>"

lemma demo_clock: "clock_ok demo_ext" "finish_ok demo_ext demo_threads"
  by (simp_all add: clock_ok_def finish_ok_def demo_ext_def demo_threads_def)

theorem join_workers_bounded_correct_witness:
  "(\<exists>t. join_workers_bounded demo_ext demo_threads 201 [0] demo_proc = Some (True, t)) \<and>
   (\<exists>t. join_workers_bounded demo_ext demo_threads 201 [0, 1] demo_proc = Some (False, t) \<and>
      10000000000 \<le> dw_time (world t))"
proof -
  have fuel: "200 < (201 :: nat)" by simp
  have zero: "now_ns demo_ext (world demo_proc) = 0" by (simp add: demo_proc_def demo_ext_def demo_world0_def)
  note c = join_workers_bounded_correct [OF demo_clock fuel, of _ demo_proc, unfolded zero]
  have "\<exists>t. join_workers_bounded demo_ext demo_threads 201 [0] demo_proc = Some (True, t)"
    using c [of "[0]"] by (auto simp: demo_threads_def SHUTDOWN_GRACE_def demo_ext_def split: if_splits)
  moreover have "\<exists>t. join_workers_bounded demo_ext demo_threads 201 [0, 1] demo_proc = Some (False, t) \<and>
      10000000000 \<le> dw_time (world t)"
    using c [of "[0, 1]"] by (auto simp: demo_threads_def SHUTDOWN_GRACE_def demo_ext_def split: if_splits)
  ultimately show ?thesis by blast
qed

section \<open>The wait in the runs with a queue or a file\<close>

text \<open>\<open>while Instant::now() < join_deadline && workers.iter().any(|h| !h.is_finished())\<close>, then the
  test whether all have finished. The other threads go on between its passes.\<close>

definition await_pass :: "('w, 'e) ext \<Rightarrow> 'w threads \<Rightarrow> nat \<Rightarrow> nat list \<Rightarrow> unit \<Rightarrow> 'w proc \<Rightarrow> unit option \<times> 'w proc" where
  "await_pass X th deadline handles l s =
     (if now_ns X (world s) < deadline \<and> \<not> all_finished th handles s
      then (Some (), sleep_p X 20000000 s) else (None, s))"

definition await_workers ::
  "('w, 'e) ext \<Rightarrow> 'w threads \<Rightarrow> nat \<Rightarrow> (nat \<Rightarrow> 'w proc \<Rightarrow> 'w proc) \<Rightarrow> nat \<Rightarrow> nat list \<Rightarrow> 'w proc \<Rightarrow>
     (bool \<times> 'w proc) option" where
  "await_workers X th n others deadline handles s =
     (case drive n others (await_pass X th deadline handles) () s of
        None \<Rightarrow> None
      | Some t \<Rightarrow> Some (all_finished th handles t, t))"

definition time_goes :: "('w, 'e) ext \<Rightarrow> (nat \<Rightarrow> 'w proc \<Rightarrow> 'w proc) \<Rightarrow> bool" where
  "time_goes X others \<longleftrightarrow> (\<forall>k s. now_ns X (world s) \<le> now_ns X (world (others k s)))"

lemma steps_left_less:
  assumes "d' + k \<le> d \<or> (d' = 0 \<and> 0 < d)" "0 < (k :: nat)"
  shows "(d' + (k - 1)) div k < (d + (k - 1)) div k"
  using assms(1)
proof
  assume "d' + k \<le> d"
  then have "(d' + (k - 1) + k) div k \<le> (d + (k - 1)) div k" by (intro div_le_mono) simp
  moreover have "(d' + (k - 1) + k) div k = (d' + (k - 1)) div k + 1"
    using assms(2) by (intro div_add_self2) simp
  ultimately show ?thesis by linarith
next
  assume "d' = 0 \<and> 0 < d"
  moreover then have "k div k \<le> (d + (k - 1)) div k" by (intro div_le_mono) arith
  ultimately show ?thesis using assms(2) by simp
qed

lemma await_ends:
  fixes X :: "('w, 'e) ext"
  assumes clock: "clock_ok X" and others: "time_goes X others"
    and n: "(deadline - now_ns X (world s)) div 20000000 + 1 < n"
  shows "\<exists>t. drive n others (await_pass X th deadline handles) () s = Some t"
proof (rule drive_ends [where I = "\<lambda>_ _. True" and m = "\<lambda>_ s. (deadline - now_ns X (world s) + 19999999) div 20000000"])
  show "(deadline - now_ns X (world s) + 19999999) div 20000000 < n" using n by linarith
next
  fix k :: nat and l :: unit and s :: "'w proc"
  have "deadline - now_ns X (world (others k s)) \<le> deadline - now_ns X (world s)"
    using others by (simp add: time_goes_def diff_le_mono2)
  then show "True \<and> (deadline - now_ns X (world (others k s)) + 19999999) div 20000000
      \<le> (deadline - now_ns X (world s) + 19999999) div 20000000" by (simp add: div_le_mono)
next
  fix l l' and s s' :: "'w proc"
  assume "await_pass X th deadline handles l s = (Some l', s')"
  then have s': "s' = sleep_p X 20000000 s" and before: "now_ns X (world s) < deadline"
    by (auto simp: await_pass_def split: if_splits)
  have "now_ns X (world s) + 20000000 \<le> now_ns X (world s')"
    using clock unfolding s' by (simp add: clock_ok_def)
  with before have "deadline - now_ns X (world s') + 20000000 \<le> deadline - now_ns X (world s) \<or>
      (deadline - now_ns X (world s') = 0 \<and> 0 < deadline - now_ns X (world s))" by arith
  from steps_left_less [OF this] show "True \<and> (deadline - now_ns X (world s') + 19999999) div 20000000
      < (deadline - now_ns X (world s) + 19999999) div 20000000" by simp
qed simp

lemma await_workers_aux:
  assumes "clock_ok X" "time_goes X others" "(deadline - now_ns X (world s)) div 20000000 + 1 < n"
  shows "\<exists>clean t. await_workers X th n others deadline handles s = Some (clean, t) \<and>
    (if clean then all_finished th handles t else deadline \<le> now_ns X (world t) \<and> \<not> all_finished th handles t)"
proof -
  obtain t where t: "drive n others (await_pass X th deadline handles) () s = Some t" using await_ends [OF assms] by blast
  obtain l' s' where "await_pass X th deadline handles l' s' = (None, t)"
    using drive_exit [OF t, where I = "\<lambda>_ _. True"] by blast
  then have "deadline \<le> now_ns X (world t) \<or> all_finished th handles t" by (auto simp: await_pass_def split: if_splits)
  with t show ?thesis by (auto simp: await_workers_def)
qed

end
