(* ===== verification/Sz_Pool.thy ===== *)
theory Sz_Pool
  imports Sz_Join
begin

text \<open>
  The worker pools the runs start: the \<open>WorkerCtx\<close> each of them builds (\<open>combined.rs\<close>, \<open>sqs.rs\<close>,
  \<open>file_loader.rs\<close>, \<open>pure_redoer.rs\<close>), that they split into the two classes as the configuration says
  and never reach the \<open>unreachable!\<close> of \<open>worker_loop\<close>; and the shutdown of a worker that has only redo
  work.
\<close>

section \<open>The contexts\<close>

text \<open>\<open>iv\<close> is the interval of the configuration check, the same in every thread of the process.\<close>

definition combined_ctx :: "('w, 'e) ext \<Rightarrow> u64 option \<Rightarrow> config \<Rightarrow> usize \<Rightarrow> usize \<Rightarrow> worker_ctx" where
  "combined_ctx X iv c redo_pref wid =
     \<lparr>worker_id = wid, wclass = (if wid < redo_pref then RedoPreferring else LoadPreferring),
      has_load = True, has_redo = (c_redo_percent c > 0),
      add_flags = add_record_flags X (c_info c), w_redo_flags = redo_flags (c_info c),
      want_info = c_info c, poll_iv = iv\<rparr>"

definition file_ctx :: "('w, 'e) ext \<Rightarrow> u64 option \<Rightarrow> config \<Rightarrow> usize \<Rightarrow> worker_ctx" where
  "file_ctx X iv c wid =
     \<lparr>worker_id = wid, wclass = LoadPreferring, has_load = True, has_redo = False,
      add_flags = add_record_flags X (c_info c), w_redo_flags = None, want_info = c_info c, poll_iv = iv\<rparr>"

definition redoer_ctx :: "u64 option \<Rightarrow> config \<Rightarrow> usize \<Rightarrow> worker_ctx" where
  "redoer_ctx iv c wid =
     \<lparr>worker_id = wid, wclass = RedoPreferring, has_load = False, has_redo = True,
      add_flags = None, w_redo_flags = redo_flags (c_info c), want_info = c_info c, poll_iv = iv\<rparr>"

text \<open>\<open>for worker_id in 0..threads\<close>, and the pool of the two queue runs; \<open>None\<close> is the panic of \<open>clamp\<close>.\<close>

definition spawn_all :: "(usize \<Rightarrow> worker_ctx) \<Rightarrow> usize \<Rightarrow> worker_ctx list" where
  "spawn_all ctx n = map (\<lambda>i. ctx (of_nat i)) [0..<unat n]"

definition combined_pool :: "('w, 'e) ext \<Rightarrow> u64 option \<Rightarrow> config \<Rightarrow> worker_ctx list option" where
  "combined_pool X iv c =
     map_option (\<lambda>r. spawn_all (combined_ctx X iv c r) (c_threads c)) (redo_pref_workers c)"

section \<open>The split\<close>

lemma length_spawn_all [simp]: "length (spawn_all ctx n) = unat n"
  by (simp add: spawn_all_def)

lemma of_nat_small: "i < unat (n :: usize) \<Longrightarrow> unat (of_nat i :: usize) = i"
  by (metis le_unat_uoi less_or_eq_imp_le)

lemma filter_upt_less: "r \<le> n \<Longrightarrow> filter (\<lambda>i. i < r) [0..<n] = [0..<r]"
proof -
  assume "r \<le> n"
  then have "[0..<n] = [0..<r] @ [r..<n]" using upt_add_eq_append [of 0 r "n - r"] by simp
  then show ?thesis by (simp add: filter_id_conv filter_empty_conv)
qed

text \<open>The workers below the class size prefer redo, the others load; ids are the numbers of the workers.\<close>

lemma combined_split:
  assumes "r \<le> n"
  shows "length (filter (\<lambda>w. wclass w = RedoPreferring) (spawn_all (combined_ctx X iv c r) n)) = unat r"
proof -
  have "filter ((\<lambda>w. wclass w = RedoPreferring) \<circ> (\<lambda>i. combined_ctx X iv c r (of_nat i))) [0..<unat n] =
      filter (\<lambda>i. i < unat r) [0..<unat n]"
    by (rule filter_cong) (auto simp: combined_ctx_def word_less_nat_alt of_nat_small)
  with assms show ?thesis
    by (simp add: spawn_all_def filter_map filter_upt_less word_le_nat_alt)
qed

lemma spawn_all_ids:
  assumes "\<And>i. worker_id (ctx i) = i"
  shows "distinct (map worker_id (spawn_all ctx n))"
proof -
  have "inj_on (of_nat :: nat \<Rightarrow> usize) {0..<unat n}"
    by (rule inj_on_inverseI [where g = unat]) (simp add: of_nat_small)
  then show ?thesis by (simp add: spawn_all_def comp_def assms distinct_map)
qed

lemma set_spawn_all: "w \<in> set (spawn_all ctx n) \<Longrightarrow> \<exists>i. w = ctx i"
  by (auto simp: spawn_all_def)

text \<open>A worker that gets its engine runs this loop, and otherwise reports the failure.\<close>

definition dispatches ::
  "('w, 'e) ext \<Rightarrow> worker_ctx \<Rightarrow> (nat \<Rightarrow> (nat \<Rightarrow> 'w proc \<Rightarrow> 'w proc) \<Rightarrow> 'w proc \<Rightarrow> 'w proc option) \<Rightarrow> bool" where
  "dispatches X w loop \<longleftrightarrow> (\<forall>n others s. worker_loop X w n others s =
     (case call (get_engine X) s of
        (Inl e, s1) \<Rightarrow> Some (fatal_no_engine X w e s1)
      | (Inr _, s1) \<Rightarrow> loop n others s1))"

lemma dispatches_by_sources:
  "has_load w \<Longrightarrow> \<not> has_redo w \<Longrightarrow> dispatches X w (pure_load_loop X w)"
  "\<not> has_load w \<Longrightarrow> has_redo w \<Longrightarrow> dispatches X w (pure_redo_loop X w)"
  "has_load w \<Longrightarrow> has_redo w \<Longrightarrow> dispatches X w (mixed_loop X w)"
  by (auto simp: dispatches_def worker_loop_def split: prod.split sum.split)

text \<open>With a validated topology below 100 percent redo the pool has one worker per thread, with
  distinct ids; as many as \<open>redo_preferring_count\<close> says prefer redo, and strictly between 0 and 100 percent
  there is at least one worker of each class. Every worker has the load side, and the redo side exactly
  when redo is on, so that it runs the dispatch loop of its work and never the \<open>unreachable!\<close> branch.\<close>

theorem pool_matches_configuration:
  assumes "validate_topology (c_threads c) (c_redo_percent c) u q = Ok ()" "c_redo_percent c < 100"
  shows "\<exists>r ws. redo_preferring_count (c_threads c) (c_redo_percent c) = Some r \<and> combined_pool X iv c = Some ws \<and>
    length ws = unat (c_threads c) \<and> distinct (map worker_id ws) \<and>
    length (filter (\<lambda>w. wclass w = RedoPreferring) ws) = unat r \<and>
    (if c_redo_percent c = 0
     then r = 0 \<and> list_all (\<lambda>w. dispatches X w (pure_load_loop X w)) ws
     else 1 \<le> unat r \<and> unat r < unat (c_threads c) \<and> list_all (\<lambda>w. dispatches X w (mixed_loop X w)) ws)"
proof -
  let ?p = "c_redo_percent c" and ?n = "c_threads c"
  have "?p \<le> 100" using assms(2) by simp
  from validated_split_aux [OF assms(1) this] obtain r where r: "redo_preferring_count ?n ?p = Some r" "r \<le> ?n"
    "?p = 0 \<longrightarrow> r = 0" "0 < ?p \<and> ?p < 100 \<longrightarrow> 1 \<le> unat r \<and> unat r \<le> unat ?n - 1 \<and> 2 \<le> unat ?n" by blast
  let ?ws = "spawn_all (combined_ctx X iv c r) ?n"
  have ids: "distinct (map worker_id ?ws)" by (rule spawn_all_ids) (simp add: combined_ctx_def)
  have loops: "if ?p = 0 then dispatches X w (pure_load_loop X w) else dispatches X w (mixed_loop X w)"
    if "w \<in> set ?ws" for w
    using set_spawn_all [OF that] by (auto simp: combined_ctx_def word_gt_0 intro!: dispatches_by_sources)
  have some: "1 \<le> unat r \<and> unat r < unat ?n" if "?p \<noteq> 0" using r(4) that assms(2) by (auto simp: word_gt_0)
  have "if ?p = 0 then r = 0 \<and> list_all (\<lambda>w. dispatches X w (pure_load_loop X w)) ?ws
     else 1 \<le> unat r \<and> unat r < unat ?n \<and> list_all (\<lambda>w. dispatches X w (mixed_loop X w)) ?ws"
    using r(3) loops some by (cases "?p = 0") (simp_all add: list_all_iff)
  with r ids show ?thesis
    by (intro exI [of _ r] exI [of _ ?ws]) (simp only: combined_pool_def redo_pref_workers_def combined_split
      option.map length_spawn_all simp_thms)
qed

definition demo_config :: config where
  "demo_config = \<lparr>c_engine_config = ''{}'', c_url = Some ''amqp://x'', c_queue = Some ''q'', c_input_file = None,
     c_skip_lines = 0, c_redo_percent = 20, c_threads = 4, c_prefetch = 6, c_mq_recheck_secs = 30,
     c_redo_sleep_secs = 60, c_long_record_secs = 300, c_info = False, c_debug_trace = False\<rparr>"

theorem pool_matches_configuration_witness:
  "\<exists>ws. combined_pool demo_ext None demo_config = Some ws \<and> length ws = 4 \<and>
     1 \<le> length (filter (\<lambda>w. wclass w = RedoPreferring) ws) \<and>
     length (filter (\<lambda>w. wclass w = RedoPreferring) ws) < 4"
proof -
  have "validate_topology (c_threads demo_config) (c_redo_percent demo_config) (c_url demo_config) (c_queue demo_config) = Ok ()"
    "c_redo_percent demo_config < 100"
    by (simp_all add: validate_topology_def demo_config_def)
  from pool_matches_configuration [OF this, of demo_ext None] show ?thesis
    by (elim exE) (simp add: demo_config_def)
qed

section \<open>The redo-only worker at shutdown\<close>

text \<open>How far a stopped worker is from leaving.\<close>

definition redo_left :: "redo_phase \<Rightarrow> 'w proc \<Rightarrow> nat" where
  "redo_left ph s = 3 * length (ch_buf (redo_ch s)) +
     (case ph of FirstTry \<Rightarrow> 2 | CheckRunning \<Rightarrow> 1 | DrainTry \<Rightarrow> 0)"

definition redo_stopped :: "redo_phase \<Rightarrow> 'w proc \<Rightarrow> bool" where
  "redo_stopped ph s \<longleftrightarrow> \<not> RUNNING (glob s)"

lemma process_redo_stopped:
  assumes "process_redo X c job s = (kg, t)" "\<not> RUNNING (glob s)"
  shows "\<not> RUNNING (glob t)"
  using process_redo_aux [OF assms(1)] assms(2)
  by (elim exE conjE) (auto simp: redo_globals_def split: sum.splits)

lemma pure_redo_pass_stopped:
  assumes stop: "\<not> RUNNING (glob s)" and p: "pure_redo_pass X c ph s = (r, t)"
  shows "\<not> RUNNING (glob t) \<and>
    (case r of Some ph' \<Rightarrow> redo_left ph' t < redo_left ph s
     | None \<Rightarrow> ch_buf (redo_ch t) = [] \<or> WORKER_FATAL (glob t))"
proof (cases "ph = CheckRunning")
  case True
  then show ?thesis using assms by (auto simp: pure_redo_pass_def redo_left_def)
next
  case False
  show ?thesis
  proof (cases "ch_buf (redo_ch s)")
    case Nil
    then show ?thesis using assms False
      by (cases ph) (auto simp: pure_redo_pass_def try_recv_redo_def chan_recv_def redo_left_def split: if_splits)
  next
    case (Cons job js)
    let ?s = "s\<lparr>redo_ch := (redo_ch s)\<lparr>ch_buf := js\<rparr>\<rparr>"
    obtain kg t' where q: "process_redo X c job ?s = (kg, t')" by fastforce
    have t: "t = t'" "r = (if kg then Some FirstTry else None)"
      using p False Cons q by (cases ph; auto simp: pure_redo_pass_def try_recv_redo_def chan_recv_def)+
    have "redo_ch t' = redo_ch ?s" "kg \<or> WORKER_FATAL (glob t')" using process_redo_frame [OF q] by auto
    moreover have "\<not> RUNNING (glob t')" using process_redo_stopped [OF q] stop by simp
    ultimately show ?thesis using t Cons False by (cases ph) (auto simp: redo_left_def)
  qed
qed

lemma pure_redo_drains_aux:
  assumes stop: "\<not> RUNNING (glob s)"
    and others: "\<And>k s. \<not> RUNNING (glob s) \<Longrightarrow> \<not> RUNNING (glob (others k s))"
      "\<And>k s. length (ch_buf (redo_ch (others k s))) \<le> length (ch_buf (redo_ch s))"
    and n: "3 * length (ch_buf (redo_ch s)) + 2 < n"
  shows "\<exists>t. pure_redo_loop X c n others s = Some t \<and> (ch_buf (redo_ch t) = [] \<or> WORKER_FATAL (glob t))"
proof -
  have "\<exists>t. pure_redo_loop X c n others s = Some t" unfolding pure_redo_loop_def
  proof (rule drive_ends [where I = redo_stopped and m = redo_left])
    show "redo_stopped FirstTry s" "redo_left FirstTry s < n" using stop n by (simp_all add: redo_stopped_def redo_left_def)
    show "redo_stopped l (others k s) \<and> redo_left l (others k s) \<le> redo_left l s" if "redo_stopped l s" for k l s
      using that others by (simp add: redo_stopped_def redo_left_def)
    show "redo_stopped l' s' \<and> redo_left l' s' < redo_left l s"
      if "redo_stopped l s" "pure_redo_pass X c l s = (Some l', s')" for l s l' s'
      using pure_redo_pass_stopped [OF _ that(2)] that(1) by (simp add: redo_stopped_def)
  qed
  then obtain t where t: "pure_redo_loop X c n others s = Some t" by blast
  have "\<exists>l' s'. redo_stopped l' s' \<and> pure_redo_pass X c l' s' = (None, t)"
  proof (rule drive_exit [OF t [unfolded pure_redo_loop_def], where I = redo_stopped])
    show "redo_stopped FirstTry s" using stop by (simp add: redo_stopped_def)
    show "redo_stopped l (others k s)" if "redo_stopped l s" for k l s
      using that others by (simp add: redo_stopped_def)
    show "redo_stopped l' s'" if "redo_stopped l s" "pure_redo_pass X c l s = (Some l', s')" for l s l' s'
      using pure_redo_pass_stopped [OF _ that(2)] that(1) by (simp add: redo_stopped_def)
  qed
  then show ?thesis using t pure_redo_pass_stopped by (fastforce simp: redo_stopped_def)
qed

text \<open>Once the process is stopped, a redo-only worker among threads that put nothing more
  into the redo channel ends within three passes per queued record and three more, and leaves no record
  in the channel unless it met a fatal error.\<close>

theorem pure_redo_loop_drains_when_stopped:
  assumes "\<not> RUNNING (glob s)"
    and "\<And>k s. \<not> RUNNING (glob s) \<Longrightarrow> \<not> RUNNING (glob (others k s))"
    and "\<And>k s. length (ch_buf (redo_ch (others k s))) \<le> length (ch_buf (redo_ch s))"
    and "3 * length (ch_buf (redo_ch s)) + 2 < n"
  shows "\<exists>t. pure_redo_loop X c n others s = Some t \<and> (ch_buf (redo_ch t) = [] \<or> WORKER_FATAL (glob t))"
  by (rule pure_redo_drains_aux) (use assms in auto)

theorem pure_redo_loop_drains_when_stopped_witness:
  "\<exists>t. pure_redo_loop demo_ext (redoer_ctx None demo_config 0) 9 (\<lambda>_ s. s)
     (demo_proc\<lparr>glob := init_globals\<lparr>RUNNING := False\<rparr>,
                redo_ch := \<lparr>ch_buf = [(0, ''r1''), (1, ''r2'')], ch_cap = 4, ch_senders = 1, ch_rx = True\<rparr>\<rparr>) = Some t \<and>
     (ch_buf (redo_ch t) = [] \<or> WORKER_FATAL (glob t))"
  by (rule pure_redo_loop_drains_when_stopped) simp_all

end
