(* ===== verification/Sz_Redo.thy ===== *)
theory Sz_Redo
  imports Sz_Worker_Laws
begin

text \<open>
  \<open>crates/core/src/redo.rs\<close>: the single thread that fetches redo records and feeds the redo
  channel. Its loop, the retry loop of \<open>send_interruptible\<close> and the naps of
  \<open>interruptible_sleep\<close> are one loop over where the thread is (\<open>fetch_phase\<close>), one pass per test
  of \<open>RUNNING\<close>, among the other threads. The log says what was fetched and what became of it.
\<close>

section \<open>The model\<close>

definition DRAIN_TAIL_REPROBE :: nat where "DRAIN_TAIL_REPROBE = 2000000000"

text \<open>Where the thread is; \<open>Sleeping\<close> holds the remaining time.\<close>

datatype fetch_phase = Fetching | Sending redo_job | Sleeping nat

datatype fetch_event = Fetched string | Handed redo_job | Lost redo_job | Pausing nat

record fetch_locals =
  phase :: fetch_phase
  NEXT_REDO_ID :: usize

record fetch_env =
  redo_sleep_secs :: u64
  has_result_tx :: bool
  has_notify :: bool
  fetch_poll_iv :: "u64 option"

text \<open>The fatal branches: the stores, the durable outcome, the wake-up.\<close>

definition fetcher_fatal :: "fetch_env \<Rightarrow> string \<Rightarrow> 'w proc \<Rightarrow> 'w proc" where
  "fetcher_fatal fe msg s =
     (let s1 = s\<lparr>glob := mark_fatal (glob s)\<rparr>;
          s2 = (if has_result_tx fe
                then snd (send_outcome_p
                  \<lparr>o_delivery_tag = 0, o_info = record_info_empty, o_action = Fatal msg\<rparr> s1)
                else s1)
      in if has_notify fe then s2\<lparr>notified := Suc (notified s2)\<rparr> else s2)"

text \<open>Leaving the function drops \<open>tx\<close>.\<close>

definition drop_tx :: "'w proc \<Rightarrow> 'w proc" where
  "drop_tx s = s\<lparr>redo_ch := chan_drop_sender (redo_ch s)\<rparr>"

definition pause_for :: "fetch_env \<Rightarrow> globals \<Rightarrow> nat" where
  "pause_for fe g =
     (if REDO_IN_FLIGHT g > 0 then min DRAIN_TAIL_REPROBE (secs_ns (redo_sleep_secs fe))
      else secs_ns (redo_sleep_secs fe))"

text \<open>The head of the \<open>while\<close> and the fetch.\<close>

definition fetch_one ::
  "('w, 'e) ext \<Rightarrow> fetch_env \<Rightarrow> fetch_locals \<Rightarrow> 'w proc \<Rightarrow> fetch_locals option \<times> 'w proc \<times> fetch_event list" where
  "fetch_one X fe l s =
     (if \<not> RUNNING (glob s) then (None, drop_tx s, [])
      else
        (case poll X (fetch_poll_iv fe) (rload s) (world s) of
           (r, w) \<Rightarrow>
             (case call (get_redo_record X) (s\<lparr>rload := r, world := w\<rparr>) of
                (Inl e, s1) \<Rightarrow> (None, drop_tx (fetcher_fatal fe (''redo fetcher: '' @ err_display X e) s1), [])
              | (Inr record, s1) \<Rightarrow>
                  if trim record = [] then
                    (let d = pause_for fe (glob s1) in (Some (l\<lparr>phase := Sleeping d\<rparr>), s1, [Pausing d]))
                  else
                    (let id = NEXT_REDO_ID l
                     in (Some (l\<lparr>phase := Sending (id, record), NEXT_REDO_ID := id + 1\<rparr>), s1, [Fetched record])))))"

text \<open>One turn of the loop of \<open>send_interruptible\<close>.\<close>

definition send_interruptible_step ::
  "('w, 'e) ext \<Rightarrow> fetch_locals \<Rightarrow> redo_job \<Rightarrow> 'w proc \<Rightarrow> fetch_locals option \<times> 'w proc \<times> fetch_event list" where
  "send_interruptible_step X l job s =
     (if \<not> RUNNING (glob s) then (None, drop_tx s, [Lost job])
      else
        (case chan_send (redo_ch s) job of
           (Sent, ch') \<Rightarrow> (Some (l\<lparr>phase := Fetching\<rparr>), s\<lparr>redo_ch := ch'\<rparr>, [Handed job])
         | (Full, _) \<Rightarrow> (Some l, sleep_p X 100000000 s, [])
         | (Disconnected, _) \<Rightarrow> (None, drop_tx s, [Lost job])))"

text \<open>One turn of the loop of \<open>interruptible_sleep\<close>.\<close>

definition interruptible_sleep_step ::
  "('w, 'e) ext \<Rightarrow> fetch_locals \<Rightarrow> nat \<Rightarrow> 'w proc \<Rightarrow> fetch_locals option \<times> 'w proc \<times> fetch_event list" where
  "interruptible_sleep_step X l remaining s =
     (if remaining > 0 \<and> RUNNING (glob s) then
        (let nap = min remaining 250000000
         in (Some (l\<lparr>phase := Sleeping (remaining - nap)\<rparr>), sleep_p X nap s, []))
      else (Some (l\<lparr>phase := Fetching\<rparr>), s, []))"

definition fetch_pass ::
  "('w, 'e) ext \<Rightarrow> fetch_env \<Rightarrow> fetch_locals \<Rightarrow> 'w proc \<Rightarrow> fetch_locals option \<times> 'w proc \<times> fetch_event list" where
  "fetch_pass X fe l s =
     (case phase l of
        Fetching \<Rightarrow> fetch_one X fe l s
      | Sending job \<Rightarrow> send_interruptible_step X l job s
      | Sleeping remaining \<Rightarrow> interruptible_sleep_step X l remaining s)"

definition fetcher_loop ::
  "('w, 'e) ext \<Rightarrow> fetch_env \<Rightarrow> nat \<Rightarrow> (nat \<Rightarrow> 'w proc \<Rightarrow> 'w proc) \<Rightarrow> 'w proc \<Rightarrow>
     ('w proc \<times> fetch_event list) option" where
  "fetcher_loop X fe n others s =
     (case call (get_engine X) s of
        (Inl e, s1) \<Rightarrow>
          Some (drop_tx (fetcher_fatal fe
            (''redo fetcher could not initialize engine: '' @ err_display X e) s1), [])
      | (Inr _, s1) \<Rightarrow>
          drive n (with_log others) (logged (fetch_pass X fe)) \<lparr>phase = Fetching, NEXT_REDO_ID = 0\<rparr> (s1, []))"

text \<open>\<open>interruptible_sleep\<close> itself, for its other callers: the time slept while nobody stops the
  process.\<close>

function interruptible_sleep :: "('w, 'e) ext \<Rightarrow> nat \<Rightarrow> 'w proc \<Rightarrow> 'w proc" where
  "interruptible_sleep X remaining s =
     (if remaining > 0 \<and> RUNNING (glob s) then
        (let nap = min remaining 250000000 in interruptible_sleep X (remaining - nap) (sleep_p X nap s))
      else s)"
  by pat_completeness auto
termination by (relation "measure (\<lambda>(_, r, _). r)") auto

declare interruptible_sleep.simps [simp del]

section \<open>The log\<close>

definition fetched :: "fetch_event list \<Rightarrow> string list" where
  "fetched evs = concat (map (\<lambda>e. case e of Fetched r \<Rightarrow> [r] | _ \<Rightarrow> []) evs)"

definition handed :: "fetch_event list \<Rightarrow> redo_job list" where
  "handed evs = concat (map (\<lambda>e. case e of Handed j \<Rightarrow> [j] | _ \<Rightarrow> []) evs)"

definition lost :: "fetch_event list \<Rightarrow> redo_job list" where
  "lost evs = concat (map (\<lambda>e. case e of Lost j \<Rightarrow> [j] | _ \<Rightarrow> []) evs)"

lemma log_simps [simp]:
  "fetched [] = []" "fetched (xs @ ys) = fetched xs @ fetched ys"
  "fetched (e # es) = (case e of Fetched r \<Rightarrow> [r] | _ \<Rightarrow> []) @ fetched es"
  "handed [] = []" "handed (xs @ ys) = handed xs @ handed ys"
  "handed (e # es) = (case e of Handed j \<Rightarrow> [j] | _ \<Rightarrow> []) @ handed es"
  "lost [] = []" "lost (xs @ ys) = lost xs @ lost ys"
  "lost (e # es) = (case e of Lost j \<Rightarrow> [j] | _ \<Rightarrow> []) @ lost es"
  by (simp_all add: fetched_def handed_def lost_def)

text \<open>Jobs number the records fetched, from 0, modulo the width of the counter.\<close>

definition numbered :: "string list \<Rightarrow> redo_job list" where
  "numbered rs = zip (map of_nat [0..<length rs]) rs"

definition in_hand :: "fetch_locals \<Rightarrow> redo_job list" where
  "in_hand l = (case phase l of Sending j \<Rightarrow> [j] | _ \<Rightarrow> [])"

definition fetch_inv :: "fetch_locals \<Rightarrow> 'w proc \<times> fetch_event list \<Rightarrow> bool" where
  "fetch_inv l st \<longleftrightarrow>
     handed (snd st) @ in_hand l = numbered (fetched (snd st)) \<and> lost (snd st) = [] \<and>
     NEXT_REDO_ID l = of_nat (length (fetched (snd st)))"

lemma numbered_append: "numbered (rs @ [r]) = numbered rs @ [(of_nat (length rs), r)]"
  by (simp add: numbered_def)

lemma map_snd_numbered [simp]: "map snd (numbered rs) = rs"
  by (simp add: numbered_def)

lemma distinct_numbered: "length rs \<le> 2 ^ 64 \<Longrightarrow> distinct (map fst (numbered rs))"
proof -
  assume le: "length rs \<le> 2 ^ 64"
  have "inj_on (of_nat :: nat \<Rightarrow> usize) {0..<length rs}"
    by (rule inj_on_inverseI [where g = unat]) (use le in \<open>simp add: unat_of_nat take_bit_nat_eq_self\<close>)
  then show ?thesis by (simp add: numbered_def distinct_map)
qed

lemma fetch_pass_continues:
  assumes inv: "fetch_inv l (s, lg)" and f: "fetch_pass X fe l s = (Some l', s', evs)"
  shows "fetch_inv l' (s', lg @ evs)"
proof (cases "phase l")
  case Fetching
  then show ?thesis using inv f
    by (auto simp: fetch_pass_def fetch_one_def fetch_inv_def in_hand_def numbered_append Let_def
        split: if_splits prod.splits sum.splits)
next
  case (Sending j)
  then show ?thesis using inv f
    by (auto simp: fetch_pass_def send_interruptible_step_def fetch_inv_def in_hand_def
        split: if_splits prod.splits send_outcome.splits)
next
  case (Sleeping r)
  then show ?thesis using inv f
    by (auto simp: fetch_pass_def interruptible_sleep_step_def fetch_inv_def in_hand_def Let_def
        split: if_splits)
qed

lemma drop_tx_fields [simp]:
  "glob (drop_tx s) = glob s" "ch_senders (redo_ch (drop_tx s)) = ch_senders (redo_ch s) - 1"
  "ch_rx (redo_ch (drop_tx s)) = ch_rx (redo_ch s)" "result_ch (drop_tx s) = result_ch s"
  "ch_buf (redo_ch (drop_tx s)) = ch_buf (redo_ch s)"
  by (simp_all add: drop_tx_def chan_drop_sender_def)

lemma fetcher_fatal_fields [simp]:
  "glob (fetcher_fatal fe m s) = mark_fatal (glob s)" "redo_ch (fetcher_fatal fe m s) = redo_ch s"
  by (auto simp: fetcher_fatal_def Let_def send_outcome_p_def chan_blocking_send_def)

lemma chan_send_Disconnected: "chan_send c x = (Disconnected, c') \<longleftrightarrow> \<not> ch_rx c \<and> c' = c"
  by (auto simp: chan_send_def)

lemma fetch_pass_exits:
  assumes inv: "fetch_inv l (s, lg)" and f: "fetch_pass X fe l s = (None, s', evs)"
  shows "handed (lg @ evs) @ lost (lg @ evs) = numbered (fetched (lg @ evs)) \<and>
    length (lost (lg @ evs)) \<le> 1 \<and> (\<not> RUNNING (glob s') \<or> \<not> ch_rx (redo_ch s')) \<and>
    ch_senders (redo_ch s') = ch_senders (redo_ch s) - 1"
proof (cases "phase l")
  case Fetching
  then show ?thesis using inv f
    by (auto simp: fetch_pass_def fetch_one_def fetch_inv_def in_hand_def call_def Let_def
        split: if_splits prod.splits sum.splits)
next
  case (Sending j)
  then show ?thesis using inv f
    by (auto simp: fetch_pass_def send_interruptible_step_def fetch_inv_def in_hand_def
        chan_send_Disconnected split: if_splits prod.splits send_outcome.splits)
next
  case (Sleeping r)
  then show ?thesis using f
    by (auto simp: fetch_pass_def interruptible_sleep_step_def Let_def split: if_splits)
qed

lemma chan_send_senders [simp]: "ch_senders (snd (chan_send c x)) = ch_senders c"
  by (simp add: chan_send_def)

lemma fetch_pass_senders:
  assumes "fetch_pass X fe l s = (Some l', s', evs)"
  shows "ch_senders (redo_ch s') = ch_senders (redo_ch s)"
proof (cases "phase l")
  case (Sending j)
  obtain r ch' where c: "chan_send (redo_ch s) j = (r, ch')" by fastforce
  then have "ch_senders ch' = ch_senders (redo_ch s)" using chan_send_senders [of "redo_ch s" j] by simp
  then show ?thesis using assms Sending c
    by (auto simp: fetch_pass_def send_interruptible_step_def split: if_splits send_outcome.splits)
qed (use assms in \<open>auto simp: fetch_pass_def fetch_one_def interruptible_sleep_step_def call_def Let_def
       split: if_splits prod.splits sum.splits\<close>)

section \<open>Properties\<close>

text \<open>Passes after \<open>RUNNING\<close> was cleared, until the loop is left.\<close>

definition stop_distance :: "fetch_locals \<Rightarrow> nat" where
  "stop_distance l = (case phase l of Sleeping _ \<Rightarrow> 1 | _ \<Rightarrow> 0)"

lemma fetch_pass_stopped:
  assumes "\<not> RUNNING (glob s)"
  shows "fetch_pass X fe l s = (case phase l of
      Fetching \<Rightarrow> (None, drop_tx s, []) | Sending j \<Rightarrow> (None, drop_tx s, [Lost j])
    | Sleeping r \<Rightarrow> (Some (l\<lparr>phase := Fetching\<rparr>), s, []))"
  using assms by (auto simp: fetch_pass_def fetch_one_def send_interruptible_step_def
      interruptible_sleep_step_def split: fetch_phase.splits)

lemma fetcher_conserves:
  assumes run: "fetcher_loop X fe n others s = Some (t, evs)"
    and one: "ch_senders (redo_ch s) = 1"
    and others: "\<And>k s. ch_senders (redo_ch (others k s)) = ch_senders (redo_ch s)"
  shows "length (lost evs) \<le> 1 \<and> handed evs @ lost evs = numbered (fetched evs) \<and>
    ch_senders (redo_ch t) = 0 \<and> (\<not> RUNNING (glob t) \<or> \<not> ch_rx (redo_ch t))"
proof -
  obtain r s1 where e: "call (get_engine X) s = (r, s1)" by fastforce
  have s1: "only_world s s1" using call_only_world [OF e] by blast
  show ?thesis
  proof (cases r)
    case (Inl er)
    then show ?thesis using run one only_world_fields [OF s1]
      by (auto simp: fetcher_loop_def e numbered_def)
  next
    case (Inr u)
    let ?I = "\<lambda>l st. fetch_inv l st \<and> ch_senders (redo_ch (fst st)) = 1"
    have d: "drive n (with_log others) (logged (fetch_pass X fe)) \<lparr>phase = Fetching, NEXT_REDO_ID = 0\<rparr> (s1, []) =
        Some (t, evs)" using run by (simp add: fetcher_loop_def e Inr)
    have "\<exists>l' st. ?I l' st \<and> logged (fetch_pass X fe) l' st = (None, (t, evs))"
    proof (rule drive_exit [OF d, where I = ?I])
      show "?I \<lparr>phase = Fetching, NEXT_REDO_ID = 0\<rparr> (s1, [])"
        using only_world_fields [OF s1] one by (simp add: fetch_inv_def in_hand_def numbered_def)
      show "\<And>k l st. ?I l st \<Longrightarrow> ?I l (with_log others k st)"
        by (simp add: with_log_def fetch_inv_def others)
      show "\<And>l st l' st'. ?I l st \<Longrightarrow> logged (fetch_pass X fe) l st = (Some l', st') \<Longrightarrow> ?I l' st'"
        by (auto simp: logged_def split: prod.splits dest: fetch_pass_continues)
          (simp add: fetch_pass_senders)
    qed
    then obtain l' st where x: "fetch_inv l' st" "ch_senders (redo_ch (fst st)) = 1"
      and lg: "logged (fetch_pass X fe) l' st = (None, (t, evs))" by blast
    obtain e' where e': "fetch_pass X fe l' (fst st) = (None, t, e')" "evs = snd st @ e'"
      using logged_exit [OF lg] by blast
    have "fetch_inv l' (fst st, snd st)" using x by simp
    from fetch_pass_exits [OF this e'(1)] x(2) e'(2) show ?thesis by auto
  qed
qed


definition demo_fetch_env :: fetch_env where
  "demo_fetch_env = \<lparr>redo_sleep_secs = 60, has_result_tx = True, has_notify = True, fetch_poll_iv = None\<rparr>"

definition demo_redo_proc :: "demo_world proc" where
  "demo_redo_proc = demo_proc\<lparr>world := demo_world0\<lparr>dw_redo := [''r1'', ''r2'']\<rparr>\<rparr>"

text \<open>Another thread that takes a job off the redo channel, and stops the process at last.\<close>

definition demo_others :: "nat \<Rightarrow> 'w proc \<Rightarrow> 'w proc" where
  "demo_others k s = (if k = 0 then s\<lparr>glob := (glob s)\<lparr>RUNNING := False\<rparr>\<rparr> else snd (try_recv_redo s))"

lemma demo_trim: "trim ''r1'' = ''r1''" "trim ''r2'' = ''r2''"
  by code_simp+

lemma demo_others_senders: "ch_senders (redo_ch (demo_others k s)) = ch_senders (redo_ch s)"
  by (auto simp: demo_others_def try_recv_redo_def chan_recv_def split: list.splits)


lemma fetcher_stops_aux:
  assumes "\<not> RUNNING (glob s)" and "\<And>k s. \<not> RUNNING (glob s) \<Longrightarrow> \<not> RUNNING (glob (others k s))" and "2 \<le> n"
  shows "\<exists>t evs'. drive n (with_log others) (logged (fetch_pass X fe)) l (s, evs) = Some (t, evs @ evs') \<and>
    fetched evs' = [] \<and> handed evs' = []"
proof -
  obtain m where n: "n = Suc (Suc m)" using assms(3) by (metis add_2_eq_Suc le_Suc_ex)
  note st = assms(2) [OF assms(1), of "Suc m"]
  show ?thesis unfolding n
    by (cases "phase l") (simp_all add: logged_def with_log_def fetch_pass_stopped st assms(2) [OF st])
qed

text \<open>C23: whatever the fetcher is doing when the process is stopped (fetching, blocked on a full
  channel, pausing), it ends within two more passes, among any threads that do not restart the
  process, and fetches and hands over nothing more.\<close>

theorem fetcher_stops_promptly:
  assumes "\<not> RUNNING (glob s)" and "\<And>k s. \<not> RUNNING (glob s) \<Longrightarrow> \<not> RUNNING (glob (others k s))" and "2 \<le> n"
  shows "\<exists>t evs'. drive n (with_log others) (logged (fetch_pass X fe)) l (s, evs) = Some (t, evs @ evs') \<and>
    fetched evs' = [] \<and> handed evs' = []"
  using assms by (rule fetcher_stops_aux)

theorem fetcher_stops_promptly_witness:
  "\<exists>t. drive 2 (with_log (\<lambda>_ s. s)) (logged (fetch_pass demo_ext demo_fetch_env))
     \<lparr>phase = Sleeping 60000000000, NEXT_REDO_ID = 3\<rparr>
     (demo_proc\<lparr>glob := init_globals\<lparr>RUNNING := False\<rparr>\<rparr>, []) = Some t"
proof -
  have "\<not> RUNNING (glob (demo_proc\<lparr>glob := init_globals\<lparr>RUNNING := False\<rparr>\<rparr>))" by simp
  from fetcher_stops_promptly [OF this, of "\<lambda>_ s. s" 2] show ?thesis by blast
qed

text \<open>An error of \<open>get_redo_record\<close> is fatal and cannot go unnoticed: the process is marked,
  counted and stopped, the redo channel is closed, and in mixed mode a fatal outcome is queued for
  the async side as long as it receives.\<close>

theorem fetch_error_is_durable:
  assumes "RUNNING (glob s)" "poll X (fetch_poll_iv fe) (rload s) (world s) = (r, w)"
    "get_redo_record X w = (Err e, w')"
  shows "\<exists>t. fetch_one X fe l s = (None, t, []) \<and> glob t = mark_fatal (glob s) \<and>
    ch_senders (redo_ch t) = ch_senders (redo_ch s) - 1 \<and>
    (has_result_tx fe \<and> ch_rx (result_ch s) \<longrightarrow>
      ch_buf (result_ch t) = ch_buf (result_ch s) @
        [\<lparr>o_delivery_tag = 0, o_info = record_info_empty,
          o_action = Fatal (''redo fetcher: '' @ err_display X e)\<rparr>])"
  using assms by (simp add: fetch_one_def call_def fetcher_fatal_def Let_def send_outcome_p_def
      chan_blocking_send_def)

theorem fetch_error_is_durable_witness:
  "\<exists>t. fetch_one (demo_ext\<lparr>get_redo_record := \<lambda>w. (Err DemoDatabase, w)\<rparr>) demo_fetch_env
     \<lparr>phase = Fetching, NEXT_REDO_ID = 0\<rparr> demo_proc = (None, t, []) \<and>
     WORKER_FATAL (glob t) \<and> length (ch_buf (result_ch t)) = 1"
proof -
  let ?X = "demo_ext\<lparr>get_redo_record := \<lambda>w. (Err DemoDatabase, w)\<rparr>"
  have p: "poll ?X (fetch_poll_iv demo_fetch_env) (rload demo_proc) (world demo_proc) =
      (rload demo_proc, world demo_proc)" by (simp add: poll_def demo_fetch_env_def)
  have "RUNNING (glob demo_proc)" by (simp add: demo_proc_def init_globals_def)
  moreover have "get_redo_record ?X (world demo_proc) = (Err DemoDatabase, world demo_proc)" by simp
  ultimately obtain t where "fetch_one ?X demo_fetch_env \<lparr>phase = Fetching, NEXT_REDO_ID = 0\<rparr> demo_proc = (None, t, [])"
    "glob t = mark_fatal (glob demo_proc)" "length (ch_buf (result_ch t)) = 1"
    using fetch_error_is_durable [OF _ p] by (fastforce simp: demo_fetch_env_def demo_proc_def chan_new_def)
  then show ?thesis by auto
qed

end
