(* ===== verification/Sz_File_Loader.thy ===== *)
theory Sz_File_Loader
  imports Sz_Redo "HOL-Library.Multiset"
begin

text \<open>
  \<open>crates/core/src/file_loader.rs\<close>: loading a file of JSON lines through the worker pool, and the
  watermark up to which the load may be resumed.

  The first part is the tracker, the reader, the consumer of the outcomes and the result of the run,
  each as the code of its thread. The second part runs reader, workers, consumer and the shutdown
  signal in any order, one step at a time, and follows each line of the file through them.
\<close>

section \<open>\<open>ResumeTracker\<close>\<close>

record resume_tracker =
  next_line :: u64
  out_of_order :: "u64 set"

definition tracker_new :: "u64 \<Rightarrow> resume_tracker" where
  "tracker_new first_line = \<lparr>next_line = first_line, out_of_order = {}\<rparr>"

text \<open>\<open>while self.out_of_order.remove(&self.next)\<close>.\<close>

function advance :: "resume_tracker \<Rightarrow> resume_tracker" where
  "advance t =
     (if next_line t \<in> out_of_order t
      then advance (t\<lparr>next_line := next_line t + 1, out_of_order := out_of_order t - {next_line t}\<rparr>)
      else t)"
  by pat_completeness auto
termination
  by (relation "measure (\<lambda>t. card (out_of_order t))") (auto simp: card_gt_0_iff intro!: diff_less)

declare advance.simps [simp del]

definition complete_line :: "u64 \<Rightarrow> resume_tracker \<Rightarrow> resume_tracker" where
  "complete_line line t =
     (if line < next_line t then t
      else advance (t\<lparr>out_of_order := insert line (out_of_order t)\<rparr>))"

definition watermark :: "resume_tracker \<Rightarrow> u64" where
  "watermark t = next_line t - 1"

section \<open>The reader\<close>

text \<open>A line of the file as \<open>BufRead::lines\<close> meets it: its bytes without the terminator, or an
  input error. Bytes that are not UTF-8 are an error too.\<close>

datatype line_read = RawLine string | IoError

definition lines_item :: "line_read \<Rightarrow> unit + string" where
  "lines_item raw = (case raw of RawLine bytes \<Rightarrow> ok_or () (from_utf8 bytes) | IoError \<Rightarrow> Err ())"

text \<open>Where the reader is: before the next line, blocked in \<open>blocking_send\<close>, or returned.\<close>

datatype reader =
    RNext "line_read list" u64
  | RFeeding load_item "line_read list" u64
  | RReturned "unit + u64"

definition reader_pass ::
  "('w, 'e) ext \<Rightarrow> u64 \<Rightarrow> reader \<Rightarrow> 'w proc \<Rightarrow> resume_tracker \<Rightarrow> reader \<times> 'w proc \<times> resume_tracker" where
  "reader_pass X skip rd s t =
     (case rd of
        RReturned r \<Rightarrow> (rd, s, t)
      | RFeeding item rest n \<Rightarrow>
          if \<not> ch_rx (work_ch s) then (RReturned (Ok n), s, t)
          else
            (case chan_send (work_ch s) item of
               (Sent, ch') \<Rightarrow> (RNext rest n, s\<lparr>work_ch := ch'\<rparr>, t)
             | _ \<Rightarrow> (rd, s, t))
      | RNext [] n \<Rightarrow> (RReturned (Ok n), s, t)
      | RNext (raw # rest) n \<Rightarrow>
          if \<not> RUNNING (glob s) then (RReturned (Ok n), s, t)
          else
            (case lines_item raw of
               Inl _ \<Rightarrow> (RReturned (Err ()), s, t)
             | Inr line \<Rightarrow>
                 (let line_no = n + 1
                  in if line_no \<le> skip then (RNext rest line_no, s, t)
                     else
                       (let trimmed = trim line
                        in if trimmed = [] then (RNext rest line_no, s, complete_line line_no t)
                           else
                             (case parse_record (json_parse X) trimmed of
                                Inr ri \<Rightarrow>
                                  (RFeeding \<lparr>delivery_tag = line_no, body = trimmed, info = ri\<rparr> rest line_no, s, t)
                              | Inl e \<Rightarrow>
                                  (RNext rest line_no,
                                   s\<lparr>glob := (glob s)\<lparr>ADDS_REJECTED := ADDS_REJECTED (glob s) + 1\<rparr>\<rparr>,
                                   complete_line line_no t))))))"

section \<open>The consumer of the outcomes\<close>

definition consume_outcome ::
  "bool \<Rightarrow> outcome \<Rightarrow> 'w proc \<Rightarrow> resume_tracker \<Rightarrow> 'w proc \<times> resume_tracker" where
  "consume_outcome want o' s t =
     (let g = glob s
      in case o_action o' of
           Ack maybe_info \<Rightarrow>
             (s\<lparr>out := out s @ (case maybe_info of Some resp \<Rightarrow> if want then [InfoPayload resp] else [] | None \<Rightarrow> []),
                glob := g\<lparr>ADDS_PROCESSED := ADDS_PROCESSED g + 1\<rparr>\<rparr>,
              complete_line (o_delivery_tag o') t)
         | RejectNoRequeue \<Rightarrow>
             (s\<lparr>glob := g\<lparr>ADDS_REJECTED := ADDS_REJECTED g + 1\<rparr>\<rparr>, complete_line (o_delivery_tag o') t)
         | Fatal msg \<Rightarrow> (s\<lparr>glob := g\<lparr>ERRORS := ERRORS g + 1\<rparr>\<rparr>, t))"

section \<open>The result of the run\<close>

datatype run_error = WorkerSpawnFailed | FatalDuringRun | ReadFailed

definition file_summary :: "'w proc \<Rightarrow> resume_tracker \<Rightarrow> 'w proc" where
  "file_summary s t =
     s\<lparr>out := out s @ [ProcessedTotal (ADDS_PROCESSED (glob s)) 0 0 (ERRORS (glob s)),
                       FileLoadSummary (ADDS_REJECTED (glob s)) (watermark t)]\<rparr>"

definition file_result :: "unit + u64 \<Rightarrow> globals \<Rightarrow> run_error + unit" where
  "file_result read_result g =
     (case read_result of
        Inr _ \<Rightarrow> (if WORKER_FATAL g then Err FatalDuringRun else Ok ())
      | Inl _ \<Rightarrow> Err ReadFailed)"

section \<open>Reader, workers, consumer and signals, interleaved\<close>

text \<open>
  \<open>fl_busy\<close> are the items workers have taken and not finished, \<open>fl_alive\<close> the workers running.
  The rest is history: \<open>fl_done\<close> the lines completed, in that order, \<open>fl_fatal\<close> those whose outcome was
  fatal, \<open>fl_dropped\<close> one the reader could not hand over, \<open>fl_acted\<close> what the workers decided. \<open>FWorld\<close> is
  what happens outside the process (time passes, the registry changes).
\<close>

record 'w fl_state =
  fl_proc :: "'w proc"
  fl_tracker :: resume_tracker
  fl_reader :: reader
  fl_busy :: "load_item list"
  fl_alive :: nat
  fl_done :: "u64 list"
  fl_fatal :: "u64 list"
  fl_dropped :: "u64 list"
  fl_acted :: "(load_item \<times> action) list"

datatype 'w fl_event =
    FReader
  | FNoEngine string
  | FPick
  | FFinish nat nat
  | FConsume
  | FSignal
  | FWorld 'w

definition fl_init :: "'w proc \<Rightarrow> line_read list \<Rightarrow> u64 \<Rightarrow> nat \<Rightarrow> 'w fl_state" where
  "fl_init s file skip n_workers =
     \<lparr>fl_proc = s\<lparr>work_ch := chan_new n_workers 1, result_ch := chan_new (n_workers * 2) n_workers\<rparr>,
      fl_tracker = tracker_new (skip + 1), fl_reader = RNext file 0, fl_busy = [], fl_alive = n_workers,
      fl_done = [], fl_fatal = [], fl_dropped = [], fl_acted = []\<rparr>"

text \<open>The line a pass of the reader completes or drops.\<close>

definition reader_done :: "reader \<Rightarrow> reader \<Rightarrow> u64 \<Rightarrow> u64 list" where
  "reader_done rd rd' skip =
     (case (rd, rd') of
        (RNext (_ # _) _, RNext _ n) \<Rightarrow> if n \<le> skip then [] else [n]
      | _ \<Rightarrow> [])"

definition reader_dropped :: "reader \<Rightarrow> reader \<Rightarrow> u64 list" where
  "reader_dropped rd rd' =
     (case (rd, rd') of (RFeeding item _ _, RReturned _) \<Rightarrow> [delivery_tag item] | _ \<Rightarrow> [])"

definition result_room :: "'w proc \<Rightarrow> bool" where
  "result_room s \<longleftrightarrow> length (ch_buf (result_ch s)) < ch_cap (result_ch s)"

definition fl_step ::
  "('w, 'e) ext \<Rightarrow> worker_ctx \<Rightarrow> u64 \<Rightarrow> 'w fl_state \<Rightarrow> 'w fl_event \<Rightarrow> 'w fl_state option" where
  "fl_step X w skip st ev =
     (let s = fl_proc st
      in case ev of
           FReader \<Rightarrow>
             (case reader_pass X skip (fl_reader st) s (fl_tracker st) of
                (rd, s', t') \<Rightarrow>
                  Some (st\<lparr>fl_proc := s', fl_tracker := t', fl_reader := rd,
                           fl_done := fl_done st @ reader_done (fl_reader st) rd skip,
                           fl_dropped := fl_dropped st @ reader_dropped (fl_reader st) rd\<rparr>))
         | FNoEngine msg \<Rightarrow>
             if length (fl_busy st) < fl_alive st \<and> result_room s
             then Some (st\<lparr>fl_proc := signal_fatal msg (s\<lparr>glob := mark_fatal (glob s)\<rparr>), fl_alive := fl_alive st - 1\<rparr>)
             else None
         | FPick \<Rightarrow>
             (case chan_recv (work_ch s) of
                (Item item, ch') \<Rightarrow>
                  if length (fl_busy st) < fl_alive st
                  then Some (st\<lparr>fl_proc := begin_load X w item (s\<lparr>work_ch := ch'\<rparr>), fl_busy := fl_busy st @ [item]\<rparr>)
                  else None
              | _ \<Rightarrow> None)
         | FFinish j elapsed \<Rightarrow>
             if j < length (fl_busy st) \<and> result_room s then
               (case load_action X w (fl_busy st ! j) s of
                  (act, s1) \<Rightarrow>
                    (case finish_load (fl_busy st ! j) act elapsed s1 of
                       (stays, s2) \<Rightarrow>
                         Some (st\<lparr>fl_proc := s2, fl_alive := (if stays then fl_alive st else fl_alive st - 1),
                                  fl_busy := take j (fl_busy st) @ drop (Suc j) (fl_busy st),
                                  fl_acted := fl_acted st @ [(fl_busy st ! j, act)]\<rparr>)))
             else None
         | FConsume \<Rightarrow>
             (case chan_recv (result_ch s) of
                (Item o', ch') \<Rightarrow>
                  (case consume_outcome (want_info w) o' (s\<lparr>result_ch := ch'\<rparr>) (fl_tracker st) of
                     (s', t') \<Rightarrow>
                       Some (st\<lparr>fl_proc := s', fl_tracker := t',
                                fl_done := fl_done st @ (if is_fatal (o_action o') then [] else [o_delivery_tag o']),
                                fl_fatal := fl_fatal st @
                                  (if is_fatal (o_action o') \<and> o_delivery_tag o' \<noteq> 0 then [o_delivery_tag o'] else [])\<rparr>))
              | _ \<Rightarrow> None)
         | FSignal \<Rightarrow> Some (st\<lparr>fl_proc := s\<lparr>glob := request_shutdown (glob s)\<rparr>\<rparr>)
         | FWorld v \<Rightarrow> Some (st\<lparr>fl_proc := s\<lparr>world := v\<rparr>\<rparr>))"

fun fl_run ::
  "('w, 'e) ext \<Rightarrow> worker_ctx \<Rightarrow> u64 \<Rightarrow> 'w fl_state \<Rightarrow> 'w fl_event list \<Rightarrow> 'w fl_state option" where
  "fl_run X w skip st [] = Some st"
| "fl_run X w skip st (e # es) =
     (case fl_step X w skip st e of None \<Rightarrow> None | Some st' \<Rightarrow> fl_run X w skip st' es)"

section \<open>The tracker is right\<close>

lemma unat_succ: "(n :: u64) \<noteq> - 1 \<Longrightarrow> unat (n + 1) = Suc (unat n)"
  using unatSuc [of n] by (simp add: add.commute eq_neg_iff_add_eq_0)

lemma less_succ: "(n :: u64) \<noteq> - 1 \<Longrightarrow> l < n + 1 \<longleftrightarrow> l \<le> n"
  by (simp add: word_less_nat_alt word_le_nat_alt unat_succ less_Suc_eq_le)

text \<open>The tracker for the set of completed lines: everything from the first line to below \<open>next_line\<close> is
  complete, the rest of the set is kept aside.\<close>

definition tracks :: "u64 \<Rightarrow> u64 set \<Rightarrow> resume_tracker \<Rightarrow> bool" where
  "tracks first C t \<longleftrightarrow> first \<le> next_line t \<and> (\<forall>l. first \<le> l \<and> l < next_line t \<longrightarrow> l \<in> C) \<and>
     out_of_order t = {l \<in> C. next_line t \<le> l}"

lemma advance_tracks:
  "tracks first C t \<Longrightarrow> - 1 \<notin> C \<Longrightarrow> tracks first C (advance t) \<and> next_line (advance t) \<notin> C"
proof (induction t rule: advance.induct)
  case (1 t)
  show ?case
  proof (cases "next_line t \<in> out_of_order t")
    case False
    then show ?thesis using "1.prems" by (subst (1 2) advance.simps) (auto simp: tracks_def)
  next
    case True
    let ?u = "t\<lparr>next_line := next_line t + 1, out_of_order := out_of_order t - {next_line t}\<rparr>"
    have "next_line t \<in> C" using True "1.prems" by (auto simp: tracks_def)
    then have n: "next_line t \<noteq> - 1" using "1.prems" by auto
    have le: "\<And>l. next_line t + 1 \<le> l \<longleftrightarrow> next_line t < l" using less_succ [OF n] by (metis not_le)
    have "tracks first C ?u"
      using "1.prems"(1) \<open>next_line t \<in> C\<close> less_succ [OF n] le unfolding tracks_def
      by (auto simp: order.order_iff_strict)
    from "1.IH" [OF True this "1.prems"(2)] show ?thesis
      by (subst (1 2) advance.simps) (simp add: True)
  qed
qed

lemma complete_tracks:
  assumes "tracks first C t" "next_line t \<notin> C" "- 1 \<notin> C" "l \<noteq> - 1"
  shows "tracks first (insert l C) (complete_line l t) \<and> next_line (complete_line l t) \<notin> insert l C"
proof (cases "l < next_line t")
  case True
  then show ?thesis using assms by (auto simp: complete_line_def tracks_def)
next
  case False
  have "tracks first (insert l C) (t\<lparr>out_of_order := insert l (out_of_order t)\<rparr>)"
    using assms False by (auto simp: tracks_def)
  from advance_tracks [OF this] False assms show ?thesis by (auto simp: complete_line_def)
qed

lemma fold_complete_tracks:
  "tracks first C t \<Longrightarrow> next_line t \<notin> C \<Longrightarrow> - 1 \<notin> C \<Longrightarrow> - 1 \<notin> set ls \<Longrightarrow>
     tracks first (set ls \<union> C) (fold complete_line ls t) \<and> next_line (fold complete_line ls t) \<notin> set ls \<union> C"
proof (induction ls arbitrary: C t)
  case (Cons l ls)
  then have "tracks first (insert l C) (complete_line l t) \<and> next_line (complete_line l t) \<notin> insert l C"
    using complete_tracks by (metis list.set_intros(1))
  with Cons.IH [of "insert l C" "complete_line l t"] Cons.prems show ?case by auto
qed simp

lemma tracker_of:
  assumes "- 1 \<notin> set ls"
  shows "tracks first (set ls) (fold complete_line ls (tracker_new first))"
    "next_line (fold complete_line ls (tracker_new first)) \<notin> set ls"
proof -
  have "tracks first {} (tracker_new first)" by (auto simp: tracks_def tracker_new_def leD)
  from fold_complete_tracks [OF this _ _ assms]
  show "tracks first (set ls) (fold complete_line ls (tracker_new first))"
    "next_line (fold complete_line ls (tracker_new first)) \<notin> set ls" by simp_all
qed

lemma watermark_aux:
  assumes "first \<noteq> 0" "- 1 \<notin> set ls"
  defines "t \<equiv> fold complete_line ls (tracker_new first)"
  shows "first - 1 \<le> watermark t" "watermark t + 1 \<notin> set ls"
    "first \<le> l \<Longrightarrow> l \<le> watermark t \<Longrightarrow> l \<in> set ls"
proof -
  note t = tracker_of [OF assms(2), of first, folded t_def]
  have le: "first \<le> next_line t" using t by (simp add: tracks_def)
  then have nz: "next_line t \<noteq> 0" using assms(1) by (metis le_zero_eq word_gt_0 linorder_not_less)
  have "unat (next_line t - 1) = unat (next_line t) - 1" "unat (first - 1) = unat first - 1"
    using nz assms(1) by (simp_all add: unat_minus_one)
  then show "first - 1 \<le> watermark t"
    using le by (simp add: watermark_def word_le_nat_alt)
  show "watermark t + 1 \<notin> set ls" using t(2) by (simp add: watermark_def)
  show "l \<in> set ls" if "first \<le> l" "l \<le> watermark t"
  proof -
    have "l < next_line t"
      using that(2) nz \<open>unat (next_line t - 1) = _\<close>
      by (simp add: watermark_def word_le_nat_alt word_less_nat_alt)
        (metis One_nat_def Suc_pred le_imp_less_Suc unat_gt_0)
    then show ?thesis using that(1) t(1) by (simp add: tracks_def)
  qed
qed

text \<open>C28: the watermark is safe and as high as it can be: every line from the first to the
  watermark has completed and the next one has not, whatever the order of the completions.\<close>

theorem watermark_safe_and_maximal:
  assumes "first \<noteq> 0" "- 1 \<notin> set ls"
  shows "(\<forall>l. first \<le> l \<and> l \<le> watermark (fold complete_line ls (tracker_new first)) \<longrightarrow> l \<in> set ls) \<and>
    watermark (fold complete_line ls (tracker_new first)) + 1 \<notin> set ls"
  using watermark_aux [OF assms] by blast

theorem watermark_safe_and_maximal_witness:
  "watermark (fold complete_line [3, 1] (tracker_new 1)) + 1 \<notin> {3, 1 :: u64} \<and>
   watermark (fold complete_line [3, 1] (tracker_new 1)) = 1"
proof -
  have "watermark (fold complete_line [3, 1] (tracker_new 1)) = 1"
    by (simp add: tracker_new_def complete_line_def watermark_def advance.simps)
  with watermark_safe_and_maximal [of 1 "[3, 1]"] show ?thesis by auto
qed

section \<open>No line is lost or completed twice\<close>

definition work_tags :: "'w proc \<Rightarrow> u64 list" where
  "work_tags s = map delivery_tag (ch_buf (work_ch s))"

text \<open>The tags of the outcomes under way; 0 is the sentinel of a worker without an engine.\<close>

definition real_tags :: "'w proc \<Rightarrow> u64 list" where
  "real_tags s = filter (\<lambda>x. x \<noteq> 0) (map o_delivery_tag (ch_buf (result_ch s)))"

definition feeding :: "reader \<Rightarrow> u64 list" where
  "feeding rd = (case rd of RFeeding item _ _ \<Rightarrow> [delivery_tag item] | _ \<Rightarrow> [])"

definition pending :: "'w fl_state \<Rightarrow> u64 list" where
  "pending st = work_tags (fl_proc st) @ map delivery_tag (fl_busy st) @ real_tags (fl_proc st) @
     feeding (fl_reader st) @ fl_fatal st @ fl_dropped st"

text \<open>The lines of the run up to the \<open>n\<close>-th of the file.\<close>

definition lines_from :: "u64 \<Rightarrow> nat \<Rightarrow> u64 list" where
  "lines_from skip n = map of_nat [Suc (unat skip)..<Suc n]"

text \<open>The lines before the first that cannot be read.\<close>

definition readable :: "line_read list \<Rightarrow> nat" where
  "readable file = length (takeWhile (\<lambda>raw. lines_item raw \<noteq> Inl ()) file)"

text \<open>The reader has read the first \<open>n\<close> lines of the file.\<close>

definition reader_at :: "line_read list \<Rightarrow> nat \<Rightarrow> reader \<Rightarrow> bool" where
  "reader_at file n rd \<longleftrightarrow> n \<le> readable file \<and>
     (case rd of
        RNext rest m \<Rightarrow> m = of_nat n \<and> rest = drop n file
      | RFeeding item rest m \<Rightarrow> m = of_nat n \<and> rest = drop n file
      | RReturned r \<Rightarrow> (\<forall>m. r = Inr m \<longrightarrow> m = of_nat n))"

lemma readable_le: "readable file \<le> length file"
  by (simp add: readable_def length_takeWhile_le)

lemma readable_Suc:
  "n \<le> readable file \<Longrightarrow> drop n file = raw # rest \<Longrightarrow> lines_item raw \<noteq> Inl () \<Longrightarrow> Suc n \<le> readable file"
  unfolding readable_def
proof (induction "file" arbitrary: n)
  case (Cons x xs)
  then show ?case by (cases n) (auto split: if_splits)
qed simp

lemma drop_Suc_eq: "drop n xs = y # ys \<Longrightarrow> drop (Suc n) xs = ys"
  by (metis drop_Suc list.sel(3) tl_drop)

definition sentinels_ok :: "'w proc \<Rightarrow> bool" where
  "sentinels_ok s \<longleftrightarrow>
     ch_rx (result_ch s) \<and> (\<forall>o' \<in> set (ch_buf (result_ch s)). o_delivery_tag o' = 0 \<longrightarrow> is_fatal (o_action o'))"

definition fl_inv :: "u64 \<Rightarrow> line_read list \<Rightarrow> nat \<Rightarrow> 'w fl_state \<Rightarrow> bool" where
  "fl_inv skip file n st \<longleftrightarrow>
     reader_at file n (fl_reader st) \<and> sentinels_ok (fl_proc st) \<and>
     mset (fl_done st) + mset (pending st) = mset (lines_from skip n) \<and>
     fl_tracker st = fold complete_line (fl_done st) (tracker_new (skip + 1))"

lemma of_nat_le_u64: "n < 2 ^ 64 \<Longrightarrow> (of_nat n :: u64) \<le> w \<longleftrightarrow> n \<le> unat w"
  by (simp add: word_le_nat_alt unat_of_nat take_bit_nat_eq_self)

lemma lines_from_Suc:
  "Suc n < 2 ^ 64 \<Longrightarrow> lines_from skip (Suc n) =
     (if (of_nat n :: u64) + 1 \<le> skip then lines_from skip n else lines_from skip n @ [of_nat n + 1])"
  using of_nat_le_u64 [of "Suc n" skip] by (auto simp: lines_from_def add.commute)

lemma lines_from_skip: "(of_nat n :: u64) + 1 \<le> skip \<Longrightarrow> Suc n < 2 ^ 64 \<Longrightarrow> lines_from skip n = []"
  using of_nat_le_u64 [of "Suc n" skip] by (simp add: lines_from_def add.commute)

lemma lines_from_range:
  assumes "n < 2 ^ 64 - 1" "x \<in> set (lines_from skip n)"
  shows "x \<noteq> 0" "x \<noteq> - 1" "skip < x" "unat x \<le> n"
proof -
  obtain k where k: "x = of_nat k" "unat skip < k" "k \<le> n" using assms(2) by (auto simp: lines_from_def)
  then have u: "unat x = k" using assms(1) by (simp add: unat_of_nat take_bit_nat_eq_self)
  then show "x \<noteq> 0" "unat x \<le> n" "skip < x" using k by (auto simp: word_less_nat_alt)
  show "x \<noteq> - 1" using u k(3) assms(1) by (auto simp: unat_max_word)
qed

lemma lines_from_distinct: "n < 2 ^ 64 \<Longrightarrow> distinct (lines_from skip n)"
  unfolding lines_from_def distinct_map
  by (intro conjI inj_on_inverseI [where g = unat]) (auto simp: unat_of_nat take_bit_nat_eq_self)

lemma reader_pass_next:
  assumes r: "reader_pass X skip (RNext rest m) s t = (rd', s', t')" and n: "reader_at file n (RNext rest m)"
    and L: "length file < 2 ^ 64 - 1"
  shows "\<exists>n'. n \<le> n' \<and> reader_at file n' rd' \<and> work_tags s' = work_tags s \<and> result_ch s' = result_ch s \<and>
    reader_dropped (RNext rest m) rd' = [] \<and>
    lines_from skip n' = lines_from skip n @ reader_done (RNext rest m) rd' skip @ feeding rd' \<and>
    t' = fold complete_line (reader_done (RNext rest m) rd' skip) t"
proof (cases rest)
  case Nil
  then show ?thesis using r n
    by (intro exI [of _ n]) (auto simp: reader_pass_def reader_at_def reader_dropped_def reader_done_def feeding_def)
next
  case (Cons raw rest')
  have m: "m = of_nat n" "n \<le> readable file" and dr: "drop n file = raw # rest'"
    using n by (simp_all add: reader_at_def Cons)
  note d = drop_Suc_eq [OF dr]
  have "n < length file" using dr by (metis drop_eq_Nil2 linorder_not_less list.distinct(1))
  then have s: "Suc n < 2 ^ 64" using L by simp
  note simps = reader_pass_def reader_at_def reader_dropped_def reader_done_def feeding_def work_tags_def
    m(1) Cons Let_def lines_from_Suc [OF s]
  show ?thesis
  proof (cases "RUNNING (glob s) \<and> lines_item raw \<noteq> Inl ()")
    case False
    then show ?thesis using r m(2) by (intro exI [of _ n]) (auto simp: simps split: if_splits sum.splits)
  next
    case True
    then have "Suc n \<le> readable file" using readable_Suc [OF m(2) dr] by simp
    then show ?thesis using r True
      by (intro exI [of _ "Suc n"]) (auto simp: simps d split: if_splits sum.splits)
  qed
qed

lemma reader_pass_feeding:
  assumes r: "reader_pass X skip (RFeeding item rest m) s t = (rd', s', t')"
    and n: "reader_at file n (RFeeding item rest m)"
  shows "reader_at file n rd' \<and> result_ch s' = result_ch s \<and> t' = t \<and>
    reader_done (RFeeding item rest m) rd' skip = [] \<and>
    mset (work_tags s') + mset (feeding rd') + mset (reader_dropped (RFeeding item rest m) rd') =
    mset (work_tags s) + {#delivery_tag item#}"
  using assms
  by (auto simp: reader_pass_def reader_at_def reader_dropped_def reader_done_def feeding_def work_tags_def
      chan_send_def split: if_splits)

lemma finish_load_effect:
  assumes "ch_rx (result_ch s)"
  shows "result_ch (snd (finish_load item act e s)) =
      (result_ch s)\<lparr>ch_buf := ch_buf (result_ch s) @ [outcome_of item act]\<rparr>"
    "work_ch (snd (finish_load item act e s)) = work_ch s"
  using assms by (simp_all add: finish_load_def Let_def send_outcome_p_def chan_blocking_send_def outcome_of_def)

text \<open>What a worker does to an item leaves the channels and the counters of the adds alone.\<close>

lemma begin_load_fields:
  "work_ch (begin_load X w item s) = work_ch s" "result_ch (begin_load X w item s) = result_ch s"
  "glob (begin_load X w item s) = glob s" "out (begin_load X w item s) = out s"
  using only_world_fields [OF poll_p_only_world [where X = X and c = w and s = s]]
  by (simp_all add: begin_load_def Let_def)

lemma load_action_fields:
  assumes "load_action X w item s = (act, s1)"
  shows "work_ch s1 = work_ch s" "result_ch s1 = result_ch s" "glob s1 = glob s" "out s1 = out s"
  using only_world_fields [OF conjunct1 [OF load_action_justified [OF assms]]] by simp_all

text \<open>A worker's step, in terms of the state it leaves.\<close>

lemma fl_pickE:
  assumes "fl_step X w skip st FPick = Some st'"
  obtains item rest where "ch_buf (work_ch (fl_proc st)) = item # rest" "length (fl_busy st) < fl_alive st"
    "st' = st\<lparr>fl_proc := begin_load X w item ((fl_proc st)\<lparr>work_ch := (work_ch (fl_proc st))\<lparr>ch_buf := rest\<rparr>\<rparr>),
       fl_busy := fl_busy st @ [item]\<rparr>"
  using assms by (auto simp: fl_step_def Let_def chan_recv_def split: list.splits if_splits)

lemma fl_finishE:
  assumes "fl_step X w skip st (FFinish j e) = Some st'"
  obtains act s1 where "j < length (fl_busy st)" "load_action X w (fl_busy st ! j) (fl_proc st) = (act, s1)"
    "st' = st\<lparr>fl_proc := snd (finish_load (fl_busy st ! j) act e s1),
       fl_alive := (if fst (finish_load (fl_busy st ! j) act e s1) then fl_alive st else fl_alive st - 1),
       fl_busy := take j (fl_busy st) @ drop (Suc j) (fl_busy st), fl_acted := fl_acted st @ [(fl_busy st ! j, act)]\<rparr>"
  using assms by (auto simp: fl_step_def Let_def split: if_splits prod.splits)

text \<open>While the consumer is there a worker stays.\<close>

lemma finish_load_stays: "ch_rx (result_ch s) \<Longrightarrow> fst (finish_load item act e s)"
  by (simp add: finish_load_def Let_def send_outcome_p_def chan_blocking_send_def)

lemma mset_take_nth_drop: "j < length xs \<Longrightarrow> mset (take j xs @ drop (Suc j) xs) + {#xs ! j#} = mset xs"
  by (subst (3) id_take_nth_drop [of j xs]) simp_all

lemma fl_inv_step:
  assumes step: "fl_step X w skip st e = Some st'" and inv: "fl_inv skip file n st" and L: "length file < 2 ^ 64 - 1"
  shows "\<exists>n' \<ge> n. fl_inv skip file n' st'"
proof -
  let ?s = "fl_proc st"
  have rd: "reader_at file n (fl_reader st)" and sen: "sentinels_ok ?s"
    and ms: "mset (fl_done st) + mset (pending st) = mset (lines_from skip n)"
    and tr: "fl_tracker st = fold complete_line (fl_done st) (tracker_new (skip + 1))"
    using inv by (simp_all add: fl_inv_def)
  have rx: "ch_rx (result_ch ?s)" using sen by (simp add: sentinels_ok_def)
  have nL: "n < 2 ^ 64 - 1" using rd L readable_le [of "file"] by (simp add: reader_at_def)
  note defs = fl_inv_def pending_def real_tags_def work_tags_def sentinels_ok_def
  show ?thesis
  proof (cases e)
    case FReader
    obtain rd' s' t' where r: "reader_pass X skip (fl_reader st) ?s (fl_tracker st) = (rd', s', t')"
      by (metis prod_cases3)
    then have st': "st' = st\<lparr>fl_proc := s', fl_tracker := t', fl_reader := rd',
        fl_done := fl_done st @ reader_done (fl_reader st) rd' skip,
        fl_dropped := fl_dropped st @ reader_dropped (fl_reader st) rd'\<rparr>"
      using step by (simp add: fl_step_def FReader Let_def)
    show ?thesis
    proof (cases "fl_reader st")
      case (RNext rest m)
      from reader_pass_next [OF r [unfolded RNext] rd [unfolded RNext] L] obtain n' where
        f: "n \<le> n'" "reader_at file n' rd'" "work_tags s' = work_tags ?s" "result_ch s' = result_ch ?s"
        "reader_dropped (RNext rest m) rd' = []"
        "lines_from skip n' = lines_from skip n @ reader_done (RNext rest m) rd' skip @ feeding rd'"
        "t' = fold complete_line (reader_done (RNext rest m) rd' skip) (fl_tracker st)" by blast
      have "real_tags s' = real_tags ?s" "sentinels_ok s'" using f(4) sen by (simp_all add: real_tags_def sentinels_ok_def)
      then have "fl_inv skip file n' st'" using f ms tr
        by (simp add: fl_inv_def st' pending_def RNext feeding_def [of "RNext rest m"])
      with f(1) show ?thesis by (intro exI [of _ n']) simp
    next
      case (RFeeding item rest m)
      let ?dropped = "reader_dropped (RFeeding item rest m) rd'"
      let ?rest = "mset (map delivery_tag (fl_busy st)) + mset (real_tags ?s) + mset (fl_fatal st) + mset (fl_dropped st)"
      from reader_pass_feeding [OF r [unfolded RFeeding] rd [unfolded RFeeding]]
      have f: "reader_at file n rd'" "result_ch s' = result_ch ?s" "t' = fl_tracker st"
        "reader_done (RFeeding item rest m) rd' skip = []"
        and eq: "mset (work_tags s') + mset (feeding rd') + mset ?dropped = mset (work_tags ?s) + {#delivery_tag item#}"
        by blast+
      have s': "real_tags s' = real_tags ?s" "sentinels_ok s'"
        using f(2) sen by (simp_all add: real_tags_def sentinels_ok_def)
      have "mset (pending st') = (mset (work_tags s') + mset (feeding rd') + mset ?dropped) + ?rest"
        by (simp add: pending_def st' s' RFeeding)
      also have "\<dots> = mset (pending st)"
        unfolding eq by (simp add: pending_def RFeeding feeding_def)
      finally have "fl_inv skip file n st'" using f s' ms tr
        by (simp add: fl_inv_def RFeeding) (simp add: st' RFeeding)
      then show ?thesis by (intro exI [of _ n]) simp
    next
      case (RReturned x)
      then have "rd' = RReturned x" "s' = ?s" "t' = fl_tracker st" using r by (auto simp: reader_pass_def)
      then have "fl_inv skip file n st'" using inv RReturned
        by (simp add: fl_inv_def st' pending_def reader_done_def reader_dropped_def)
      then show ?thesis by (intro exI [of _ n]) simp
    qed
  next
    case (FNoEngine msg)
    then have st': "st' = st\<lparr>fl_proc := signal_fatal msg (?s\<lparr>glob := mark_fatal (glob ?s)\<rparr>), fl_alive := fl_alive st - 1\<rparr>"
      using step by (auto simp: fl_step_def Let_def split: if_splits)
    then have "fl_inv skip file n st'" using rd ms tr sen
      by (auto simp: defs signal_fatal_buf is_fatal_def)
    then show ?thesis by (intro exI [of _ n]) simp
  next
    case FPick
    then obtain item rest where b: "ch_buf (work_ch ?s) = item # rest"
      and st': "st' = st\<lparr>fl_proc := begin_load X w item (?s\<lparr>work_ch := (work_ch ?s)\<lparr>ch_buf := rest\<rparr>\<rparr>),
          fl_busy := fl_busy st @ [item]\<rparr>"
      using step by (auto elim: fl_pickE)
    then have "fl_inv skip file n st'" using rd ms tr sen by (simp add: defs st' b begin_load_fields ac_simps)
    then show ?thesis by (intro exI [of _ n]) simp
  next
    case (FFinish j el)
    then obtain act s1 where j: "j < length (fl_busy st)" and a: "load_action X w (fl_busy st ! j) ?s = (act, s1)"
      and st': "st' = st\<lparr>fl_proc := snd (finish_load (fl_busy st ! j) act el s1),
          fl_alive := (if fst (finish_load (fl_busy st ! j) act el s1) then fl_alive st else fl_alive st - 1),
          fl_busy := take j (fl_busy st) @ drop (Suc j) (fl_busy st), fl_acted := fl_acted st @ [(fl_busy st ! j, act)]\<rparr>"
      using step by (auto elim: fl_finishE)
    note k = load_action_fields [OF a]
    have rx1: "ch_rx (result_ch s1)" using rx k by simp
    let ?tag = "delivery_tag (fl_busy st ! j)"
    have "?tag \<in># mset (pending st)" using j by (simp add: pending_def)
    then have "?tag \<in># mset (lines_from skip n)" using ms by (metis union_iff)
    then have nz: "?tag \<noteq> 0" using lines_from_range(1) [OF nL] by simp
    have eq: "mset (map delivery_tag (take j (fl_busy st) @ drop (Suc j) (fl_busy st))) + {#?tag#} =
        mset (map delivery_tag (fl_busy st))"
      using mset_take_nth_drop [OF j] by (metis image_mset_union image_mset_single mset_map)
    let ?s' = "snd (finish_load (fl_busy st ! j) act el s1)"
    have s': "real_tags ?s' = real_tags ?s @ [?tag]" "work_tags ?s' = work_tags ?s" "sentinels_ok ?s'"
      using nz sen by (auto simp: real_tags_def work_tags_def sentinels_ok_def finish_load_effect [OF rx1] k outcome_of_def)
    have "mset (pending st') = (mset (map delivery_tag (take j (fl_busy st) @ drop (Suc j) (fl_busy st))) + {#?tag#}) +
        (mset (work_tags ?s) + mset (real_tags ?s) + mset (feeding (fl_reader st)) + mset (fl_fatal st) + mset (fl_dropped st))"
      by (simp add: pending_def st' s')
    also have "\<dots> = mset (pending st)" unfolding eq by (simp add: pending_def)
    finally have "fl_inv skip file n st'" using rd ms tr s' by (simp add: fl_inv_def) (simp add: st' s')
    then show ?thesis by (intro exI [of _ n]) simp
  next
    case FConsume
    then obtain o' rest where b: "ch_buf (result_ch ?s) = o' # rest"
      using step by (auto simp: fl_step_def Let_def chan_recv_def split: list.splits if_splits)
    obtain s' t' where c: "consume_outcome (want_info w) o' (?s\<lparr>result_ch := (result_ch ?s)\<lparr>ch_buf := rest\<rparr>\<rparr>) (fl_tracker st) = (s', t')"
      by fastforce
    have st': "st' = st\<lparr>fl_proc := s', fl_tracker := t',
        fl_done := fl_done st @ (if is_fatal (o_action o') then [] else [o_delivery_tag o']),
        fl_fatal := fl_fatal st @ (if is_fatal (o_action o') \<and> o_delivery_tag o' \<noteq> 0 then [o_delivery_tag o'] else [])\<rparr>"
      using step FConsume by (simp add: fl_step_def Let_def chan_recv_def b c)
    have f: "work_ch s' = work_ch ?s" "result_ch s' = (result_ch ?s)\<lparr>ch_buf := rest\<rparr>"
      "t' = (if is_fatal (o_action o') then fl_tracker st else complete_line (o_delivery_tag o') (fl_tracker st))"
      using c by (auto simp: consume_outcome_def Let_def is_fatal_def split: action.splits)
    have z: "o_delivery_tag o' = 0 \<Longrightarrow> is_fatal (o_action o')" using sen b by (auto simp: sentinels_ok_def)
    have "fl_inv skip file n st'" using rd ms tr sen f z b
      by (cases "is_fatal (o_action o')") (auto simp: defs st' ac_simps)
    then show ?thesis by (intro exI [of _ n]) simp
  next
    case FSignal
    then have "fl_inv skip file n st'" using step inv
      by (auto simp: fl_step_def Let_def defs)
    then show ?thesis by (intro exI [of _ n]) simp
  next
    case (FWorld v)
    then have "fl_inv skip file n st'" using step inv
      by (auto simp: fl_step_def Let_def defs)
    then show ?thesis by (intro exI [of _ n]) simp
  qed
qed

lemma fl_inv_run:
  assumes "fl_run X w skip st es = Some st'" "fl_inv skip file n st" "length file < 2 ^ 64 - 1"
  shows "\<exists>n'. fl_inv skip file n' st'"
  using assms by (induction es arbitrary: st n) (auto split: option.splits dest: fl_inv_step)

lemma fl_inv_init: "ch_rx (result_ch (fl_proc (fl_init s file skip k))) \<and> fl_inv skip file 0 (fl_init s file skip k)"
  by (simp add: fl_inv_def fl_init_def reader_at_def readable_def sentinels_ok_def chan_new_def pending_def work_tags_def
      real_tags_def feeding_def lines_from_def)

lemma fl_inv_reachable:
  assumes "fl_run X w skip (fl_init s file skip k) es = Some st" "length file < 2 ^ 64 - 1"
  obtains n where "fl_inv skip file n st" "n \<le> readable file" "n \<le> length file"
proof -
  obtain n where n: "fl_inv skip file n st"
    using fl_inv_run [OF assms(1) conjunct2 [OF fl_inv_init] assms(2)] by blast
  then have "n \<le> readable file" by (simp add: fl_inv_def reader_at_def)
  with n that readable_le [of "file"] show ?thesis by (meson order_trans)
qed

section \<open>Properties\<close>

text \<open>C14: at every moment of a file load, in any interleaving of reader, workers, consumer and
  shutdown and for any answers of the engine, each line read past the skipped ones is in exactly one
  place, once: completed, queued, being processed, in an outcome not yet consumed, being handed over,
  or settled as fatal.\<close>

theorem file_lines_are_conserved:
  assumes "fl_run X w skip (fl_init s file skip k) es = Some st" "length file < 2 ^ 64 - 1"
  shows "\<exists>n \<le> readable file. mset (fl_done st @ pending st) = mset (lines_from skip n) \<and>
    distinct (fl_done st @ pending st)"
proof -
  obtain n where n: "fl_inv skip file n st" "n \<le> readable file" "n \<le> length file" using fl_inv_reachable [OF assms] .
  then have m: "mset (fl_done st @ pending st) = mset (lines_from skip n)" by (simp add: fl_inv_def)
  have "distinct (lines_from skip n)" using n(3) assms(2) by (intro lines_from_distinct) simp
  with m n(2) show ?thesis by (metis mset_eq_imp_distinct_iff)
qed

text \<open>C13: resuming with the reported watermark never skips a line that was not loaded: at every
  moment, every line after the skipped ones up to the watermark has completed, and none of them is
  queued, in a worker, awaiting the consumer or failed with a fatal error; and the next line has not
  completed, so the watermark is as high as it can be.\<close>

theorem resume_never_skips_a_line:
  assumes "fl_run X w skip (fl_init s file skip k) es = Some st" "length file < 2 ^ 64 - 1" "skip \<noteq> - 1"
  shows "(\<forall>l. skip < l \<and> l \<le> watermark (fl_tracker st) \<longrightarrow> l \<in> set (fl_done st) \<and> l \<notin> set (pending st)) \<and>
    watermark (fl_tracker st) + 1 \<notin> set (fl_done st)"
proof -
  obtain n where n: "fl_inv skip file n st" "n \<le> readable file" "n \<le> length file" using fl_inv_reachable [OF assms(1,2)] .
  then have m: "mset (fl_done st @ pending st) = mset (lines_from skip n)"
    and t: "fl_tracker st = fold complete_line (fl_done st) (tracker_new (skip + 1))" by (simp_all add: fl_inv_def)
  have "distinct (lines_from skip n)" using n(3) assms(2) by (intro lines_from_distinct) simp
  then have d: "distinct (fl_done st @ pending st)" using m by (metis mset_eq_imp_distinct_iff)
  have "set (fl_done st) \<subseteq> set (lines_from skip n)" using m by (metis le_supE set_append set_mset_mset subset_refl)
  then have m1: "- 1 \<notin> set (fl_done st)" using lines_from_range(2) [of n] n(3) assms(2) by fastforce
  have first: "skip + 1 \<noteq> 0" using assms(3) by (metis eq_neg_iff_add_eq_0)
  have le: "\<And>l. skip < l \<longleftrightarrow> skip + 1 \<le> l" using less_succ [OF assms(3)] by (metis not_le)
  show ?thesis using watermark_aux [OF first m1] d unfolding t le by auto
qed

definition demo_file_run :: "demo_world fl_event list" where
  "demo_file_run = [FReader, FReader, FReader, FReader, FReader, FPick, FPick, FFinish 1 5, FConsume]"

definition demo_file_start :: "demo_world fl_state" where
  "demo_file_start = fl_init demo_proc [RawLine ''r1'', RawLine ''{}'', RawLine ''r1''] 0 2"

lemma demo_trim_file: "trim ''{}'' = ''{}''"
  by code_simp

lemmas demo_file_defs = demo_file_run_def demo_file_start_def fl_init_def fl_step_def reader_pass_def
  lines_item_def from_utf8_def demo_trim demo_trim_file parse_record_def demo_ext_def demo_json_def demo_proc_def
  chan_new_def chan_send_def chan_recv_def reader_done_def reader_dropped_def complete_line_def advance.simps
  tracker_new_def result_room_def finish_load_def send_outcome_p_def chan_blocking_send_def Let_def
  consume_outcome_def is_fatal_def init_globals_def ok_or_def get_field_def demo_ctx_def begin_load_def poll_p_def poll_def
  load_action_def retry_once_def call_def

lemma demo_file_runs:
  "\<exists>st. fl_run demo_ext demo_ctx 0 demo_file_start demo_file_run = Some st \<and> fl_done st = [2, 3] \<and>
     watermark (fl_tracker st) = 0"
  by (simp add: demo_file_defs watermark_def)

definition demo_whole_run :: "demo_world fl_event list" where
  "demo_whole_run = [FReader, FReader, FReader, FPick, FFinish 0 5, FConsume]"

lemma demo_whole_runs:
  "\<exists>st. fl_run demo_ext demo_ctx 0 (fl_init demo_proc [RawLine ''r1''] 0 1) demo_whole_run = Some st \<and>
     fl_reader st = RReturned (Ok 1) \<and> pending st = []"
  by (simp add: demo_whole_run_def demo_file_defs pending_def work_tags_def real_tags_def feeding_def)

theorem file_lines_are_conserved_witness:
  "\<exists>st. fl_run demo_ext demo_ctx 0 demo_file_start demo_file_run = Some st \<and> distinct (fl_done st @ pending st)"
proof -
  obtain st where r: "fl_run demo_ext demo_ctx 0 demo_file_start demo_file_run = Some st" using demo_file_runs by blast
  from file_lines_are_conserved [OF r [unfolded demo_file_start_def]] r show ?thesis by auto
qed

theorem resume_never_skips_a_line_witness:
  "\<exists>st. fl_run demo_ext demo_ctx 0 demo_file_start demo_file_run = Some st \<and> watermark (fl_tracker st) = 0 \<and>
     1 \<notin> set (fl_done st)"
proof -
  obtain st where r: "fl_run demo_ext demo_ctx 0 demo_file_start demo_file_run = Some st"
    "watermark (fl_tracker st) = 0" using demo_file_runs by blast
  from resume_never_skips_a_line [OF r(1) [unfolded demo_file_start_def]] r show ?thesis by auto
qed

lemma lines_from_set: "n < 2 ^ 64 \<Longrightarrow> x \<in> set (lines_from skip n) \<longleftrightarrow> skip < x \<and> unat x \<le> n"
proof
  assume n: "n < 2 ^ 64" and "x \<in> set (lines_from skip n)"
  then obtain k where k: "x = of_nat k" "unat skip < k" "k \<le> n" by (auto simp: lines_from_def)
  then have "unat x = k" using n by (simp add: unat_of_nat take_bit_nat_eq_self)
  then show "skip < x \<and> unat x \<le> n" using k by (simp add: word_less_nat_alt)
next
  assume "skip < x \<and> unat x \<le> n"
  then have "unat x \<in> set [Suc (unat skip)..<Suc n]" by (auto simp: word_less_nat_alt)
  then have "of_nat (unat x) \<in> set (lines_from skip n)" unfolding lines_from_def set_map by (rule imageI)
  then show "x \<in> set (lines_from skip n)" by simp
qed

text \<open>The watermark of a load all of whose lines are settled.\<close>

lemma settled_watermark:
  assumes inv: "fl_inv skip content n st" and L: "length content < 2 ^ 64 - 1" and skip: "skip \<noteq> - 1"
    and fin: "fl_reader st = RReturned (Ok m)" "pending st = []"
  shows "watermark (fl_tracker st) = (if m \<le> skip then skip else m)"
proof -
  have t: "fl_tracker st = fold complete_line (fl_done st) (tracker_new (skip + 1))"
    and m: "m = of_nat n" and "set_mset (mset (fl_done st)) = set_mset (mset (lines_from skip n))"
    using inv fin by (simp_all add: fl_inv_def reader_at_def)
  have "n \<le> length content" using inv readable_le [of content] by (simp add: fl_inv_def reader_at_def)
  then have n64: "n < 2 ^ 64 - 1" using L by simp
  then have "unat m = n" unfolding m by (simp add: unat_of_nat take_bit_nat_eq_self)
  then have dn: "set (fl_done st) = {l. skip < l \<and> l \<le> m}"
    using \<open>set_mset _ = _\<close> lines_from_set [of n] n64 by (auto simp: word_le_nat_alt)
  have first: "skip + 1 \<noteq> 0" using skip by (metis eq_neg_iff_add_eq_0)
  have m1: "- 1 \<notin> set (fl_done st)"
    using n64 by (simp add: dn word_le_nat_alt unat_max_word \<open>unat m = n\<close>)
  let ?w = "watermark (fl_tracker st)"
  have w: "skip \<le> ?w" "?w + 1 \<notin> set (fl_done st)" "\<And>l. skip < l \<Longrightarrow> l \<le> ?w \<Longrightarrow> l \<in> set (fl_done st)"
    using watermark_aux [OF first m1] less_succ [OF skip] unfolding t by (auto simp: not_le [symmetric])
  have up: "?w \<le> m \<or> ?w = skip" using w(1) w(3) [of ?w] dn by (auto simp: order.order_iff_strict)
  show ?thesis
  proof (cases "m \<le> skip")
    case True
    then show ?thesis using up w(1) by auto
  next
    case False
    have "\<not> ?w < m"
    proof
      assume lt: "?w < m"
      then have "?w \<noteq> - 1" by (metis word_order.extremum_strict)
      then have "skip < ?w + 1" "?w + 1 \<le> m" using w(1) lt less_succ by (auto simp: not_less [symmetric])
      then show False using w(2) dn by simp
    qed
    then show ?thesis using up False by auto
  qed
qed

text \<open>A load that ran to its end, with nothing pending and no fatal line, reports the last
  line it read (or the skipped ones, when the file is shorter) as the place to resume.\<close>

theorem finished_load_reports_last_line:
  assumes run: "fl_run X w skip (fl_init s file skip k) es = Some st" "length file < 2 ^ 64 - 1" "skip \<noteq> - 1"
    and fin: "fl_reader st = RReturned (Ok m)" "pending st = []"
  shows "watermark (fl_tracker st) = (if m \<le> skip then skip else m)"
proof -
  obtain n where n: "fl_inv skip file n st" using fl_inv_reachable [OF run(1,2)] .
  show ?thesis by (rule settled_watermark [OF n run(2,3) fin])
qed

theorem finished_load_reports_last_line_witness:
  "\<exists>st. fl_run demo_ext demo_ctx 0 (fl_init demo_proc [RawLine ''r1''] 0 1) demo_whole_run = Some st \<and>
     watermark (fl_tracker st) = 1"
proof -
  obtain st where r: "fl_run demo_ext demo_ctx 0 (fl_init demo_proc [RawLine ''r1''] 0 1) demo_whole_run = Some st"
    "fl_reader st = RReturned (Ok 1)" "pending st = []" using demo_whole_runs by blast
  from finished_load_reports_last_line [OF r(1) _ _ r(2,3)] r(1) show ?thesis by auto
qed

text \<open>A line that is not UTF-8 ends the load, wherever it is: no line after the ones before it
  is ever loaded or rejected, and no choice of the lines to skip gets past it.\<close>

theorem unreadable_line_blocks_the_load:
  assumes bad: "from_utf8 bytes = None" and split: "file = pre @ RawLine bytes # post"
    and run: "fl_run X w skip (fl_init s file skip k) es = Some st" "length file < 2 ^ 64 - 1"
  shows "\<forall>l \<in> set (fl_done st @ pending st). unat l \<le> length pre"
proof -
  obtain n where n: "fl_inv skip file n st" "n \<le> readable file" "n \<le> length file" using fl_inv_reachable [OF run] .
  have "lines_item (RawLine bytes) = Inl ()" using bad by (simp add: lines_item_def)
  then have "readable file \<le> length pre"
    unfolding split readable_def by (induction pre) auto
  moreover have "set_mset (mset (fl_done st @ pending st)) = set_mset (mset (lines_from skip n))"
    using n(1) by (simp add: fl_inv_def)
  ultimately show ?thesis using lines_from_set [of n] n run(2) by auto
qed

lemma demo_bad_utf8: "from_utf8 [CHR 0xFF] = None"
  by (simp add: from_utf8_def)

theorem unreadable_line_blocks_the_load_witness:
  "\<exists>st. fl_run demo_ext demo_ctx 1 (fl_init demo_proc [RawLine [CHR 0xFF], RawLine ''r1''] 1 1) [FReader, FReader] = Some st \<and>
     fl_reader st = RReturned (Err ()) \<and> 2 \<notin> set (fl_done st @ pending st)"
proof -
  have r: "\<exists>st. fl_run demo_ext demo_ctx 1 (fl_init demo_proc [RawLine [CHR 0xFF], RawLine ''r1''] 1 1) [FReader, FReader] = Some st \<and>
     fl_reader st = RReturned (Err ())"
    by (simp add: demo_file_defs)
  then obtain st where st: "fl_run demo_ext demo_ctx 1 (fl_init demo_proc [RawLine [CHR 0xFF], RawLine ''r1''] 1 1) [FReader, FReader] = Some st"
    "fl_reader st = RReturned (Err ())" by blast
  have "[RawLine [CHR 0xFF], RawLine ''r1''] = [] @ RawLine [CHR 0xFF] # [RawLine ''r1'']" by simp
  from unreadable_line_blocks_the_load [OF demo_bad_utf8 this st(1)] st show ?thesis by fastforce
qed

text \<open>The reader blocked on a full queue, with no worker left to empty it.\<close>

definition stuck :: "'w fl_state \<Rightarrow> bool" where
  "stuck st \<longleftrightarrow> fl_alive st = 0 \<and> fl_busy st = [] \<and> ch_rx (work_ch (fl_proc st)) \<and>
     ch_cap (work_ch (fl_proc st)) \<le> length (ch_buf (work_ch (fl_proc st))) \<and> feeding (fl_reader st) \<noteq> []"

lemma stuck_step:
  assumes "fl_step X w skip st e = Some st'" "stuck st"
  shows "stuck st' \<and> fl_reader st' = fl_reader st"
proof (cases e)
  case FReader
  obtain item rest n where rd: "fl_reader st = RFeeding item rest n"
    using assms(2) by (auto simp: stuck_def feeding_def split: reader.splits)
  have "reader_pass X skip (fl_reader st) (fl_proc st) (fl_tracker st) = (fl_reader st, fl_proc st, fl_tracker st)"
    using assms(2) by (simp add: stuck_def rd reader_pass_def chan_send_def)
  then show ?thesis using assms FReader by (auto simp: fl_step_def Let_def stuck_def)
next
  case FConsume
  then show ?thesis using assms
    by (auto simp: fl_step_def Let_def stuck_def consume_outcome_def chan_recv_def
        split: list.splits action.splits prod.splits if_splits)
qed (use assms in \<open>auto simp: fl_step_def Let_def stuck_def chan_recv_def split: list.splits if_splits\<close>)

lemma stuck_run: "fl_run X w skip st es = Some st' \<Longrightarrow> stuck st \<Longrightarrow> stuck st' \<and> fl_reader st' = fl_reader st"
proof (induction es arbitrary: st)
  case (Cons e es)
  then obtain st1 where "fl_step X w skip st e = Some st1" "fl_run X w skip st1 es = Some st'"
    by (auto split: option.splits)
  with stuck_step Cons show ?case by metis
qed simp

text \<open>When every worker fails to obtain an engine after the reader filled the queue, the reader
  is blocked for good: the run keeps the receiver of the queue alive, so the send neither fails nor
  finds room, and not even a shutdown signal gets it out.\<close>

theorem reader_hangs_when_all_workers_fail:
  "\<exists>es st. fl_run demo_ext demo_ctx 0 (fl_init demo_proc [RawLine ''r1'', RawLine ''r1''] 0 1) es = Some st \<and>
     \<not> RUNNING (glob (fl_proc st)) \<and>
     \<not> (\<exists>es' st' r. fl_run demo_ext demo_ctx 0 st es' = Some st' \<and> fl_reader st' = RReturned r)"
proof -
  let ?es = "[FReader, FReader, FReader, FNoEngine ''no engine'']"
  have "\<exists>st. fl_run demo_ext demo_ctx 0 (fl_init demo_proc [RawLine ''r1'', RawLine ''r1''] 0 1) ?es = Some st \<and>
      stuck st \<and> \<not> RUNNING (glob (fl_proc st))"
    by (simp add: demo_file_defs stuck_def feeding_def signal_fatal_def mark_fatal_def)
  then obtain st where st: "fl_run demo_ext demo_ctx 0 (fl_init demo_proc [RawLine ''r1'', RawLine ''r1''] 0 1) ?es = Some st"
    "stuck st" "\<not> RUNNING (glob (fl_proc st))" by blast
  have "fl_reader st' \<noteq> RReturned r" if "fl_run demo_ext demo_ctx 0 st es' = Some st'" for es' st' r
    using stuck_run [OF that st(2)] by (auto simp: stuck_def feeding_def)
  with st(1,3) show ?thesis by blast
qed

end
