(* ===== verification/Sz_Rabbit.thy ===== *)
theory Sz_Rabbit
  imports Sz_File_Loader
begin

text \<open>
  \<open>crates/rabbit/src/combined.rs\<close>: the handlers of the async task that owns the AMQP channel, one
  definition per arm of its \<open>select!\<close> and per helper. How they interleave with the workers is in
  \<open>Sz_Rabbit_System\<close>.

  \<open>lapin\<close> is not part of the repository: the calls made on the channel are recorded in \<open>rb_calls\<close>,
  in order (every \<open>basic_reject\<close> of the program has \<open>requeue: false\<close>); the code only logs their
  failures.
\<close>

section \<open>The state of the async task\<close>

record load_in_flight =
  if_info :: record_info
  if_started :: nat
  if_rejected :: bool

datatype amqp_call = BasicAck u64 | BasicReject u64

fun call_tag :: "amqp_call \<Rightarrow> u64" where
  "call_tag (BasicAck tag) = tag"
| "call_tag (BasicReject tag) = tag"

record 'w rabbit =
  rb_proc :: "'w proc"
  rb_in_flight :: "(u64, load_in_flight) hash_map"
  rb_calls :: "amqp_call list"
  rb_processed :: u64
  rb_fatal :: "string option"
  rb_shutting_down :: bool
  rb_last_rate_at :: nat

definition rabbit_new :: "'w proc \<Rightarrow> nat \<Rightarrow> 'w rabbit" where
  "rabbit_new s now =
     \<lparr>rb_proc = s, rb_in_flight = [], rb_calls = [], rb_processed = 0, rb_fatal = None,
      rb_shutting_down = False, rb_last_rate_at = now\<rparr>"

text \<open>\<open>println!\<close>, a call on the channel, an update of the counters, the removal of an entry.\<close>

definition print_rb :: "out_line \<Rightarrow> 'w rabbit \<Rightarrow> 'w rabbit" where
  "print_rb l st = st\<lparr>rb_proc := (rb_proc st)\<lparr>out := out (rb_proc st) @ [l]\<rparr>\<rparr>"

definition call_rb :: "amqp_call \<Rightarrow> 'w rabbit \<Rightarrow> 'w rabbit" where
  "call_rb c st = st\<lparr>rb_calls := rb_calls st @ [c]\<rparr>"

definition count_rb :: "(globals \<Rightarrow> globals) \<Rightarrow> 'w rabbit \<Rightarrow> 'w rabbit" where
  "count_rb f st = st\<lparr>rb_proc := (rb_proc st)\<lparr>glob := f (glob (rb_proc st))\<rparr>\<rparr>"

definition forget_rb :: "u64 \<Rightarrow> 'w rabbit \<Rightarrow> 'w rabbit" where
  "forget_rb tag st = st\<lparr>rb_in_flight := hm_remove tag (rb_in_flight st)\<rparr>"

definition begin_shutdown :: "string option \<Rightarrow> 'w rabbit \<Rightarrow> 'w rabbit" where
  "begin_shutdown f st = st\<lparr>rb_fatal := f, rb_shutting_down := True\<rparr>"

section \<open>\<open>handle_outcome\<close>\<close>

definition handle_outcome :: "outcome \<Rightarrow> 'w rabbit \<Rightarrow> string option \<times> 'w rabbit" where
  "handle_outcome o' st =
     (let tag = o_delivery_tag o';
          already_rejected = (case map_of (rb_in_flight st) tag of Some f \<Rightarrow> if_rejected f | None \<Rightarrow> False)
      in case o_action o' of
           Ack maybe_info \<Rightarrow>
             if already_rejected then (None, forget_rb tag st)
             else
               (let st1 = (case maybe_info of Some resp \<Rightarrow> print_rb (InfoPayload resp) st | None \<Rightarrow> st);
                    st2 = forget_rb tag (call_rb (BasicAck tag) st1)
                in (None, count_rb (\<lambda>g. g\<lparr>ADDS_PROCESSED := ADDS_PROCESSED g + 1\<rparr>)
                            (st2\<lparr>rb_processed := rb_processed st2 + 1\<rparr>)))
         | RejectNoRequeue \<Rightarrow>
             (let st1 = (if already_rejected then st
                         else call_rb (BasicReject tag) (print_rb (RejectingBadData (o_info o')) st));
                  st2 = forget_rb tag st1
              in (None, count_rb (\<lambda>g. g\<lparr>ADDS_REJECTED := ADDS_REJECTED g + 1\<rparr>)
                          (st2\<lparr>rb_processed := rb_processed st2 + 1\<rparr>)))
         | Fatal msg \<Rightarrow> (Some msg, forget_rb tag st))"

section \<open>The arms of the loop\<close>

definition STATS_INTERVAL :: u64 where "STATS_INTERVAL = 10000"

text \<open>\<open>Duration::as_secs_f64\<close> of a duration in nanoseconds, and \<open>as i64\<close> of a float.\<close>

definition secs_f64 :: "nat \<Rightarrow> f64" where
  "secs_f64 d = f64_add (f64_of_u64 (of_nat (d div 1000000000)))
     (f64_div (f64_of_u64 (of_nat (d mod 1000000000))) (f64_of_u64 1000000000))"

definition f64_as_i64 :: "f64 \<Rightarrow> i64" where
  "f64_as_i64 x =
     (if of_int (2 ^ 63) \<le> x then of_int (2 ^ 63 - 1)
      else if x < of_int (- (2 ^ 63)) then of_int (- (2 ^ 63))
      else of_int (if 0 \<le> x then \<lfloor>x\<rfloor> else - \<lfloor>- x\<rfloor>))"

definition on_outcome :: "nat \<Rightarrow> outcome \<Rightarrow> 'w rabbit \<Rightarrow> 'w rabbit" where
  "on_outcome now o' st =
     (case handle_outcome o' st of
        (msg, st1) \<Rightarrow>
          (let st2 = (case msg of Some m \<Rightarrow> begin_shutdown (Some m) st1 | None \<Rightarrow> st1)
           in if rb_processed st2 > rb_processed st \<and> rb_processed st2 mod STATS_INTERVAL = 0 then
                (let elapsed = secs_f64 (now - rb_last_rate_at st2);
                     speed = (if elapsed > 0 then f64_as_i64 (f64_div (f64_of_u64 STATS_INTERVAL) elapsed)
                              else - 1)
                 in (print_rb (AddsProgress (rb_processed st2) speed) st2)\<lparr>rb_last_rate_at := now\<rparr>)
              else st2))"

definition on_signal :: "'w rabbit \<Rightarrow> 'w rabbit" where
  "on_signal st = st\<lparr>rb_shutting_down := True\<rparr>"

text \<open>\<open>shutdown_notify.notified()\<close>, in the outer and in the inner \<open>select!\<close>.\<close>

definition on_notified :: "'w rabbit \<Rightarrow> 'w rabbit" where
  "on_notified st =
     begin_shutdown
       (case rb_fatal st of None \<Rightarrow> Some ''worker or fetcher thread failed fatally'' | Some m \<Rightarrow> Some m) st"

datatype delivery = Delivery u64 string | ConsumeError string | StreamEnded

text \<open>The second component is the item the task goes on to send to the workers.\<close>

definition on_delivery ::
  "(string \<Rightarrow> json option) \<Rightarrow> nat \<Rightarrow> delivery \<Rightarrow> 'w rabbit \<Rightarrow> 'w rabbit \<times> load_item option" where
  "on_delivery from_slice now d st =
     (case d of
        Delivery tag data \<Rightarrow>
          (case parse_record from_slice data of
             Inl e \<Rightarrow> (call_rb (BasicReject tag) st, None)
           | Inr ri \<Rightarrow>
               (st\<lparr>rb_in_flight :=
                     hm_insert tag \<lparr>if_info = ri, if_started = now, if_rejected = False\<rparr> (rb_in_flight st)\<rparr>,
                Some \<lparr>delivery_tag = tag, body = data, info = ri\<rparr>))
      | ConsumeError e \<Rightarrow> (begin_shutdown (Some (''AMQP consume error: '' @ e)) st, None)
      | StreamEnded \<Rightarrow> (st\<lparr>rb_shutting_down := True\<rparr>, None))"

definition on_send_failed :: "'w rabbit \<Rightarrow> 'w rabbit" where
  "on_send_failed st = begin_shutdown (Some ''worker pool closed unexpectedly'') st"

section \<open>\<open>monitor_long_records\<close>\<close>

text \<open>\<open>long_record\<close> is the threshold in nanoseconds. \<open>long_record * 2\<close> panics in the code for a threshold
  of \<open>2 ^ 63\<close> seconds or more, which is out of scope.\<close>

definition set_rejected :: "u64 \<Rightarrow> (u64, load_in_flight) hash_map \<Rightarrow> (u64, load_in_flight) hash_map" where
  "set_rejected tag m = map (\<lambda>(k, f). (k, if k = tag then f\<lparr>if_rejected := True\<rparr> else f)) m"

definition reject_long :: "u64 \<Rightarrow> 'w rabbit \<Rightarrow> 'w rabbit" where
  "reject_long tag st =
     (case map_of (rb_in_flight st) tag of
        None \<Rightarrow> st
      | Some f \<Rightarrow>
          call_rb (BasicReject tag)
            (print_rb (Rejecting (if_info f)) (st\<lparr>rb_in_flight := set_rejected tag (rb_in_flight st)\<rparr>)))"

definition monitor_long_records :: "nat \<Rightarrow> nat \<Rightarrow> usize \<Rightarrow> 'w rabbit \<Rightarrow> 'w rabbit" where
  "monitor_long_records now long_record max_workers st =
     (let to_reject = map fst (filter (\<lambda>(_, f). \<not> if_rejected f \<and> now - if_started f > long_record * 2) (rb_in_flight st));
          num_stuck = length (filter (\<lambda>(_, f). now - if_started f > long_record) (rb_in_flight st));
          st1 = (if num_stuck \<ge> unat max_workers then print_rb (AllStuck max_workers) st else st)
      in fold reject_long to_reject st1)"

text \<open>The periods of the two timers, in seconds; \<open>tokio::time::interval\<close> panics on a period of 0.\<close>

definition monitor_period :: "u64 \<Rightarrow> u64" where
  "monitor_period long_record_secs = max long_record_secs 2 div 2"

definition mq_probe_period :: "u64 \<Rightarrow> u64" where
  "mq_probe_period mq_recheck_secs = max mq_recheck_secs 1"

lemma timers_do_not_panic: "monitor_period l \<noteq> 0" "mq_probe_period m \<noteq> 0"
proof -
  have "2 \<le> max l 2" by simp
  then have "2 \<le> unat (max l 2)" by (simp only: word_le_nat_alt unat_numeral) simp
  then have "unat (max l 2 div 2) \<noteq> 0" by (simp add: unat_div_distrib)
  then show "monitor_period l \<noteq> 0" unfolding monitor_period_def by (metis unat_0)
  show "mq_probe_period m \<noteq> 0"
    unfolding mq_probe_period_def max_def by auto
qed

section \<open>The status line and the guard\<close>

record stats_state =
  ss_mq_depth :: "u32 option"
  ss_slope :: ewma
  ss_prev_backlog :: "i64 option"
  ss_floor_guard :: floor_guard
  ss_last_status_at :: nat
  ss_prev_adds :: usize
  ss_prev_redos :: usize

record stats_payload =
  sp_engine_stats :: "string option"
  sp_redo_backlog :: "i64 option"

definition SLOPE_EWMA_ALPHA :: f64 where "SLOPE_EWMA_ALPHA = f64_rnd (3 / 10)"

text \<open>The answer of the stats thread to a request; the backlog is never filled in.\<close>

definition stats_answer :: "('w, 'e) ext \<Rightarrow> 'w \<Rightarrow> stats_payload \<times> 'w" where
  "stats_answer X w =
     (case get_stats X w of
        (Inr s, w') \<Rightarrow> (\<lparr>sp_engine_stats = Some s, sp_redo_backlog = None\<rparr>, w')
      | (Inl _, w') \<Rightarrow> (\<lparr>sp_engine_stats = None, sp_redo_backlog = None\<rparr>, w'))"

definition apply_guard :: "guard_transition \<Rightarrow> globals \<Rightarrow> globals" where
  "apply_guard tr g =
     (case tr of
        Tripped \<Rightarrow> g\<lparr>SAMPLE_REDO_RECORDS := True\<rparr>
      | Cleared \<Rightarrow> g\<lparr>SAMPLE_REDO_RECORDS := False\<rparr>
      | Unchanged \<Rightarrow> g)"

definition rate :: "usize \<Rightarrow> usize \<Rightarrow> f64 \<Rightarrow> f64" where
  "rate cur prev dt = f64_div (f64_of_u64 (cur - prev)) dt"

definition on_stats ::
  "config \<Rightarrow> usize \<Rightarrow> usize \<Rightarrow> nat \<Rightarrow> stats_payload \<Rightarrow> 'w proc \<times> stats_state \<Rightarrow> 'w proc \<times> stats_state" where
  "on_stats c load_pref redo_pref now p st =
     (case st of
        (s, ss) \<Rightarrow>
          (let g = glob s;
               dt = max (secs_f64 (now - ss_last_status_at ss)) (f64_rnd (1 / 1000));
               adds = ADDS_PROCESSED g;
               redos = REDOS_PROCESSED g;
               backlog = sp_redo_backlog p;
               (slope_val, slope) =
                 (case (backlog, ss_prev_backlog ss) of
                    (Some b, Some pb) \<Rightarrow> (case ewma_update (ss_slope ss) (f64_of_i64 (b - pb)) of (v, e) \<Rightarrow> (Some v, e))
                  | _ \<Rightarrow> (ew_value (ss_slope ss), ss_slope ss));
               line = emit_status_line g
                 \<lparr>sl_redo_percent = c_redo_percent c, sl_load_pref = load_pref, sl_redo_pref = redo_pref,
                  sl_adds = adds, sl_adds_rate = rate adds (ss_prev_adds ss) dt,
                  sl_redos = redos, sl_redos_rate = rate redos (ss_prev_redos ss) dt,
                  sl_mq_depth = ss_mq_depth ss, sl_redo_backlog = backlog, sl_redo_backlog_slope = slope_val\<rparr>;
               lines = (case sp_engine_stats p of Some e \<Rightarrow> [EngineStats e] | None \<Rightarrow> []) @ [CombinedStats line];
               (tr, guard) =
                 (if c_redo_percent c > 0 then observe (ss_floor_guard ss) redos backlog (ss_mq_depth ss)
                  else (Unchanged, ss_floor_guard ss))
           in (s\<lparr>out := out s @ lines, glob := apply_guard tr g\<rparr>,
               ss\<lparr>ss_slope := slope, ss_floor_guard := guard, ss_prev_backlog := backlog,
                  ss_prev_adds := adds, ss_prev_redos := redos, ss_last_status_at := now\<rparr>)))"

text \<open>The depth probe: \<open>None\<close> is a failed passive declare.\<close>

definition on_mq_probe :: "u32 option \<Rightarrow> stats_state \<Rightarrow> stats_state" where
  "on_mq_probe depth ss = (case depth of Some d \<Rightarrow> ss\<lparr>ss_mq_depth := Some d\<rparr> | None \<Rightarrow> ss)"

section \<open>Shutdown\<close>

text \<open>Entering the drain: the fetcher is stopped and the work channel loses its sender.\<close>

definition enter_drain :: "'w rabbit \<Rightarrow> 'w rabbit" where
  "enter_drain st =
     (let s = rb_proc st
      in st\<lparr>rb_proc := s\<lparr>glob := (glob s)\<lparr>RUNNING := False\<rparr>, work_ch := chan_drop_sender (work_ch s)\<rparr>\<rparr>)"

definition drain_outcome :: "outcome \<Rightarrow> 'w rabbit \<Rightarrow> 'w rabbit" where
  "drain_outcome o' st =
     (case handle_outcome o' st of
        (msg, st1) \<Rightarrow> if rb_fatal st1 = None \<and> msg \<noteq> None then st1\<lparr>rb_fatal := msg\<rparr> else st1)"

text \<open>The deliveries left when the grace is over: those in a worker are rejected, the others stay
  unacked for the broker to requeue.\<close>

definition settle_one :: "u64 set \<Rightarrow> u64 \<times> load_in_flight \<Rightarrow> 'w rabbit \<Rightarrow> 'w rabbit" where
  "settle_one snapshot entry st =
     (if if_rejected (snd entry) then st
      else if fst entry \<in> snapshot then call_rb (BasicReject (fst entry)) st
      else st)"

definition settle_remaining :: "'w rabbit \<Rightarrow> 'w rabbit" where
  "settle_remaining st =
     fold (settle_one (started (rb_proc st))) (rb_in_flight st) (st\<lparr>rb_in_flight := []\<rparr>)"

definition final_summary :: "'w rabbit \<Rightarrow> 'w rabbit" where
  "final_summary st =
     (let g = glob (rb_proc st)
      in print_rb (ProcessedTotal (rb_processed st) (REDOS_PROCESSED g) (REDOS_DROPPED g) (ERRORS g)) st)"

record run_outcome =
  all_workers_joined :: bool
  fatal :: "string option"

end
