(* ===== verification/Sz_Pure_Redoer.thy ===== *)
theory Sz_Pure_Redoer
  imports Sz_Pool Sz_Rabbit
begin

text \<open>
  \<open>crates/core/src/pure_redoer.rs\<close>: the run at 100 percent redo, without a queue: the spawning of the
  workers and the fetcher with its abort paths, the monitor loop of the main thread, the bounded join and
  the result. The workers are those of \<open>Sz_Worker\<close> with the contexts of \<open>redoer_ctx\<close>, the fetcher is
  that of \<open>Sz_Redo\<close>; here they are the other threads of the monitor loop.
\<close>

section \<open>The monitor loop\<close>

text \<open>Its local variables, and where it is: at the head, in \<open>interruptible_sleep\<close> with the remaining
  time, at the test after it.\<close>

datatype monitor_phase = MTop | MNap nat | MWoken

record monitor =
  mo_phase :: monitor_phase
  mo_slope :: ewma
  mo_prev_backlog :: "i64 option"
  mo_floor_guard :: floor_guard
  mo_last_status_at :: nat
  mo_prev_redos :: usize

definition monitor_new :: "nat \<Rightarrow> monitor" where
  "monitor_new now =
     \<lparr>mo_phase = MTop, mo_slope = ewma_new SLOPE_EWMA_ALPHA, mo_prev_backlog = None,
      mo_floor_guard = floor_guard_default, mo_last_status_at = now, mo_prev_redos = 0\<rparr>"

text \<open>\<open>Duration::from_secs((long_record_secs / 2).max(1))\<close>\<close>

definition monitor_interval :: "config \<Rightarrow> nat" where
  "monitor_interval c = secs_ns (max (c_long_record_secs c div 2) 1)"

text \<open>The backlog is the constant \<open>None\<close>.\<close>

definition backlog_gauge :: "i64 option" where
  "backlog_gauge = None"

text \<open>The slope shown, and the average after it.\<close>

definition next_slope :: "i64 option \<Rightarrow> monitor \<Rightarrow> f64 option \<times> ewma" where
  "next_slope backlog mo =
     (case (backlog, mo_prev_backlog mo) of
        (Some b, Some p) \<Rightarrow>
          (case ewma_update (mo_slope mo) (f64_of_i64 (b - p)) of (v, e) \<Rightarrow> (Some v, e))
      | _ \<Rightarrow> (ew_value (mo_slope mo), mo_slope mo))"

text \<open>One report, from \<open>get_stats\<close> to the update of the local variables. What \<open>monitor_redo_in_flight\<close>
  logs is returned.\<close>

definition monitor_report ::
  "('w, 'e) ext \<Rightarrow> config \<Rightarrow> monitor \<Rightarrow> 'w proc \<Rightarrow> monitor \<times> 'w proc \<times> (string list \<times> bool) list" where
  "monitor_report X c mo s =
     (case call (get_stats X) s of
        (engine_stats, s1) \<Rightarrow>
          (let g = glob s1;
               now = now_ns X (world s1);
               dt = max (secs_f64 (now - mo_last_status_at mo)) (f64_rnd (1 / 1000));
               redos = REDOS_PROCESSED g;
               (slope_val, slope) = next_slope backlog_gauge mo;
               line = emit_status_line g
                 \<lparr>sl_redo_percent = 100, sl_load_pref = 0, sl_redo_pref = c_threads c, sl_adds = 0, sl_adds_rate = 0,
                  sl_redos = redos, sl_redos_rate = rate redos (mo_prev_redos mo) dt, sl_mq_depth = None,
                  sl_redo_backlog = backlog_gauge, sl_redo_backlog_slope = slope_val\<rparr>;
               lines = (case engine_stats of Inr e \<Rightarrow> [EngineStats e] | Inl _ \<Rightarrow> []) @ [CombinedStats line];
               (tr, guard) = observe (mo_floor_guard mo) redos backlog_gauge None
           in (mo\<lparr>mo_phase := MTop, mo_slope := slope, mo_prev_backlog := backlog_gauge, mo_floor_guard := guard,
                  mo_last_status_at := now, mo_prev_redos := redos\<rparr>,
               s1\<lparr>out := out s1 @ lines, glob := apply_guard tr g\<rparr>,
               [monitor_redo_in_flight (json_parse X) now (redo_in_flight_map s1) (c_long_record_secs c)
                  (c_threads c)])))"

definition monitor_pass ::
  "('w, 'e) ext \<Rightarrow> config \<Rightarrow> monitor \<Rightarrow> 'w proc \<Rightarrow> monitor option \<times> 'w proc \<times> (string list \<times> bool) list" where
  "monitor_pass X c mo s =
     (case mo_phase mo of
        MTop \<Rightarrow> (if RUNNING (glob s) then (Some (mo\<lparr>mo_phase := MNap (monitor_interval c)\<rparr>), s, []) else (None, s, []))
      | MNap remaining \<Rightarrow>
          if remaining > 0 \<and> RUNNING (glob s) then
            (let nap = min remaining 250000000
             in (Some (mo\<lparr>mo_phase := MNap (remaining - nap)\<rparr>), sleep_p X nap s, []))
          else (Some (mo\<lparr>mo_phase := MWoken\<rparr>), s, [])
      | MWoken \<Rightarrow>
          if RUNNING (glob s) then
            (case monitor_report X c mo s of (mo', s', warned) \<Rightarrow> (Some mo', s', warned))
          else (None, s, []))"

section \<open>The run\<close>

text \<open>\<open>RUNNING.store(false)\<close>, then the bounded join: the end of every path of the run.\<close>

definition stop_and_join ::
  "('w, 'e) ext \<Rightarrow> 'w threads \<Rightarrow> nat \<Rightarrow> nat list \<Rightarrow> 'w proc \<Rightarrow> (bool \<times> 'w proc) option" where
  "stop_and_join X th fuel handles s =
     join_workers_bounded X th fuel handles (s\<lparr>glob := (glob s)\<lparr>RUNNING := False\<rparr>\<rparr>)"

text \<open>The errors of the run, one constructor per message.\<close>

datatype redoer_error = SpawnWorkerFailed string | SpawnFetcherFailed string | NoMonitorEngine string | FailedFatally

definition abort_with ::
  "('w, 'e) ext \<Rightarrow> 'w threads \<Rightarrow> nat \<Rightarrow> nat list \<Rightarrow> redoer_error \<Rightarrow> 'w proc \<Rightarrow>
     ((bool \<times> (redoer_error + unit)) \<times> 'w proc) option" where
  "abort_with X th fuel handles e s =
     map_option (\<lambda>(clean, t). ((clean, Err e), t)) (stop_and_join X th fuel handles s)"

text \<open>The totals are only logged; the last engine statistics are printed.\<close>

definition print_stats :: "('w, 'e) ext \<Rightarrow> 'w proc \<Rightarrow> 'w proc" where
  "print_stats X s =
     (case call (get_stats X) s of
        (Inr e, s1) \<Rightarrow> s1\<lparr>out := out s1 @ [EngineStats e]\<rparr>
      | (Inl _, s1) \<Rightarrow> s1)"

text \<open>\<open>late\<close> is what the other threads do to the shared state while the join waits.\<close>

definition teardown_redoer ::
  "('w, 'e) ext \<Rightarrow> 'w threads \<Rightarrow> nat \<Rightarrow> ('w proc \<Rightarrow> 'w proc) \<Rightarrow> nat list \<Rightarrow> 'w proc \<Rightarrow>
     ((bool \<times> (redoer_error + unit)) \<times> 'w proc) option" where
  "teardown_redoer X th fuel late handles s =
     map_option
       (\<lambda>(clean, t).
          (let t1 = print_stats X (late t)
           in ((clean, if WORKER_FATAL (glob t1) then Err FailedFatally else Ok ()), t1)))
       (stop_and_join X th fuel handles s)"

text \<open>The state the threads start from: the adopted configuration seeded, an empty redo channel with room
  for two more records than there are workers, nothing in flight.\<close>

definition redoer_start :: "('w, 'e) ext \<Rightarrow> usize \<Rightarrow> 'w proc \<Rightarrow> 'w proc" where
  "redoer_start X n_workers s =
     (case log_startup_config X (rload s) (world s) of
        (r, w) \<Rightarrow> s\<lparr>rload := r, world := w, redo_ch := chan_new (unat (n_workers + 2)) 1, redo_in_flight_map := []\<rparr>)"

text \<open>
  \<open>spawn i\<close> is the operating system's answer to the creation of thread \<open>i\<close>: an error or nothing. Threads
  \<open>0\<close> to \<open>n - 1\<close> are the workers, thread \<open>n\<close> is the fetcher. A failed spawn drops the closure and with it
  the sender of the redo channel.
\<close>

definition workers_and_fetcher :: "nat \<Rightarrow> nat list" where
  "workers_and_fetcher k = [0..<k] @ [k]"

definition run_redoer ::
  "('w, 'e) ext \<Rightarrow> 'w threads \<Rightarrow> (nat \<Rightarrow> string option) \<Rightarrow> nat \<Rightarrow> nat \<Rightarrow> (nat \<Rightarrow> 'w proc \<Rightarrow> 'w proc) \<Rightarrow>
     ('w proc \<Rightarrow> 'w proc) \<Rightarrow> config \<Rightarrow> 'w proc \<Rightarrow> ((bool \<times> (redoer_error + unit)) \<times> 'w proc) option" where
  "run_redoer X th spawn fuel n others late c s =
     (let k = unat (c_threads c); s0 = redoer_start X (c_threads c) s
      in case List.find (\<lambda>i. spawn i \<noteq> None) [0..<k] of
           Some i \<Rightarrow> abort_with X th fuel [0..<i] (SpawnWorkerFailed (the (spawn i))) (drop_tx s0)
         | None \<Rightarrow>
             (case spawn k of
                Some e \<Rightarrow> abort_with X th fuel [0..<k] (SpawnFetcherFailed e) (drop_tx s0)
              | None \<Rightarrow>
                  (case call (get_engine X) s0 of
                     (Inl e, s1) \<Rightarrow> abort_with X th fuel (workers_and_fetcher k) (NoMonitorEngine (err_display X e)) s1
                   | (Inr _, s1) \<Rightarrow>
                       (case drive n (with_log others) (logged (monitor_pass X c))
                               (monitor_new (now_ns X (world s1))) (s1, []) of
                          None \<Rightarrow> None
                        | Some (s2, warnings) \<Rightarrow> teardown_redoer X th fuel late (workers_and_fetcher k) s2))))"

section \<open>The monitor stops with the process\<close>

text \<open>Passes after \<open>RUNNING\<close> was cleared: at most one, the end of a nap.\<close>

lemma monitor_pass_stopped:
  assumes "\<not> RUNNING (glob s)"
  shows "monitor_pass X c mo s =
    (case mo_phase mo of MNap r \<Rightarrow> (Some (mo\<lparr>mo_phase := MWoken\<rparr>), s, []) | _ \<Rightarrow> (None, s, []))"
  using assms by (simp add: monitor_pass_def split: monitor_phase.split)

text \<open>From the pass \<open>m\<close> before the bound on the process is stopped.\<close>

definition stops_before :: "nat \<Rightarrow> (nat \<Rightarrow> 'w proc \<Rightarrow> 'w proc) \<Rightarrow> bool" where
  "stops_before m others \<longleftrightarrow> (\<forall>k<m. \<forall>s. \<not> RUNNING (glob (others k s)))"

lemma monitor_ends:
  assumes stop: "stops_before m others" and m: "2 \<le> m"
  shows "m \<le> n \<Longrightarrow> \<exists>t. drive n (with_log others) (logged (monitor_pass X c)) mo st = Some t"
proof (induction n arbitrary: mo st)
  case (Suc n)
  obtain s lg where st: "st = (s, lg)" by fastforce
  obtain r s' e where p: "monitor_pass X c mo (others n s) = (r, s', e)" by (metis prod_cases3)
  then have b: "logged (monitor_pass X c) mo (with_log others n st) = (r, (s', lg @ e))"
    by (simp add: logged_def with_log_def st)
  show ?case
  proof (cases r)
    case None
    then show ?thesis using b by simp
  next
    case (Some mo')
    show ?thesis
    proof (cases "m \<le> n")
      case True
      from Suc.IH [OF this] show ?thesis using b Some by simp
    next
      case False
      then have n: "n < m" "n = Suc (n - 1)" "n - 1 < m" using Suc.prems m by auto
      have "\<not> RUNNING (glob (others n s))" using stop n(1) by (simp add: stops_before_def)
      from monitor_pass_stopped [OF this, of X c mo] p Some have mo': "mo_phase mo' = MWoken"
        by (auto split: monitor_phase.splits)
      have "\<not> RUNNING (glob (others (n - 1) s'))" using stop n(3) by (simp add: stops_before_def)
      from monitor_pass_stopped [OF this, of X c mo']
      have "drive n (with_log others) (logged (monitor_pass X c)) mo' (s', lg @ e) =
          Some (others (n - 1) s', lg @ e)"
        by (subst n(2)) (simp add: logged_def with_log_def mo')
      then show ?thesis using b Some by simp
    qed
  qed
qed (use m in simp)

lemma stop_and_join_returns:
  assumes "clock_ok X" "finish_ok X th" "200 < fuel"
  shows "\<exists>clean t. stop_and_join X th fuel handles s = Some (clean, t)"
  using join_workers_bounded_aux [OF assms] unfolding stop_and_join_def by blast

lemma stop_and_join_result:
  assumes "clock_ok X" "finish_ok X th" "200 < fuel" "stop_and_join X th fuel handles s = Some (clean, t)"
  shows "\<not> RUNNING (glob t)" "clean \<Longrightarrow> h \<in> set handles \<Longrightarrow> is_finished th h (world t)"
    "WORKER_FATAL (glob t) = WORKER_FATAL (glob s)"
  using join_workers_bounded_aux [OF assms(1-3), of handles "s\<lparr>glob := (glob s)\<lparr>RUNNING := False\<rparr>\<rparr>"] assms(4)
  unfolding stop_and_join_def by (auto split: if_splits)

text \<open>The threads a run starts: those created before the first failure.\<close>

definition started_threads :: "(nat \<Rightarrow> string option) \<Rightarrow> nat \<Rightarrow> nat list" where
  "started_threads spawn k = takeWhile (\<lambda>i. spawn i = None) (workers_and_fetcher k)"

lemma find_upt_Some:
  assumes "List.find P [0..<k] = Some i"
  shows "i < k" "P i" "\<And>j. j < i \<Longrightarrow> \<not> P j"
  using assms by (auto simp: find_Some_iff)

lemma workers_and_fetcher_split: "j \<le> k \<Longrightarrow> \<exists>rest. workers_and_fetcher k = [0..<j] @ j # rest"
  using upt_add_eq_append [of 0 j "k - j"] upt_conv_Cons [of j k]
  by (cases "j = k") (auto simp: workers_and_fetcher_def)

lemma started_threads_prefix:
  assumes "j \<le> k" "\<And>i. i < j \<Longrightarrow> spawn i = None" "spawn j = Some e"
  shows "started_threads spawn k = [0..<j]"
proof -
  obtain rest where "workers_and_fetcher k = [0..<j] @ j # rest" using workers_and_fetcher_split [OF assms(1)] by blast
  moreover have "takeWhile (\<lambda>i. spawn i = None) ([0..<j] @ j # rest) = [0..<j] @ takeWhile (\<lambda>i. spawn i = None) (j # rest)"
    by (rule takeWhile_append2) (use assms(2) in auto)
  ultimately show ?thesis using assms(3) by (simp add: started_threads_def)
qed

lemma started_threads_all: "(\<And>i. i \<le> k \<Longrightarrow> spawn i = None) \<Longrightarrow> started_threads spawn k = workers_and_fetcher k"
  by (auto simp: started_threads_def workers_and_fetcher_def takeWhile_eq_all_conv)

text \<open>Every path of the run is an end of one of two kinds, over the threads started.\<close>

lemma run_redoer_cases:
  assumes "run_redoer X th spawn fuel n others late c s = Some (r, t)"
  obtains (abort) e s' where "abort_with X th fuel (started_threads spawn (unat (c_threads c))) e s' = Some (r, t)"
    | (teardown) s' where "\<forall>i \<le> unat (c_threads c). spawn i = None"
      "teardown_redoer X th fuel late (started_threads spawn (unat (c_threads c))) s' = Some (r, t)"
proof -
  let ?k = "unat (c_threads c)" and ?s0 = "redoer_start X (c_threads c) s"
  show ?thesis
  proof (cases "List.find (\<lambda>i. spawn i \<noteq> None) [0..<?k]")
    case (Some i)
    note f = find_upt_Some [OF Some]
    then have "started_threads spawn ?k = [0..<i]" by (auto intro!: started_threads_prefix)
    with assms Some abort show ?thesis by (simp add: run_redoer_def Let_def)
  next
    case None
    then have workers: "\<And>i. i < ?k \<Longrightarrow> spawn i = None" by (auto simp: find_None_iff)
    show ?thesis
    proof (cases "spawn ?k")
      case (Some e)
      have "started_threads spawn ?k = [0..<?k]" using workers Some by (intro started_threads_prefix) auto
      with assms None Some abort show ?thesis by (simp add: run_redoer_def Let_def)
    next
      case fetcher: None
      have ok: "spawn i = None" if "i \<le> ?k" for i using workers fetcher that by (cases "i = ?k") auto
      then have all: "started_threads spawn ?k = workers_and_fetcher ?k" by (rule started_threads_all)
      obtain e s1 where "call (get_engine X) ?s0 = (e, s1)" by fastforce
      with assms None fetcher show ?thesis
        by (cases e) (auto simp: run_redoer_def Let_def ok simp flip: all intro: abort teardown
            split: option.splits)
    qed
  qed
qed

lemma print_stats_fields: "glob (print_stats X s) = glob s" "world (print_stats X s) = snd (get_stats X (world s))"
  by (auto simp: print_stats_def call_def split: prod.splits sum.splits)

lemma run_redoer_returns_aux:
  assumes "clock_ok X" "finish_ok X th" "200 < fuel" "stops_before m others" "2 \<le> m" "m \<le> n"
  shows "\<exists>clean result t. run_redoer X th spawn fuel n others late c s = Some ((clean, result), t)"
proof -
  have j: "\<exists>clean t. stop_and_join X th fuel handles s' = Some (clean, t)" for handles s'
    by (rule stop_and_join_returns [OF assms(1-3)])
  have a: "\<exists>r. abort_with X th fuel handles e s' = Some r" for handles e s'
    using j [of handles s'] by (auto simp: abort_with_def)
  have d: "\<exists>r. teardown_redoer X th fuel late handles s' = Some r" for handles s'
    using j [of handles s'] by (auto simp: teardown_redoer_def Let_def)
  obtain e s1 where g: "call (get_engine X) (redoer_start X (c_threads c) s) = (e, s1)" by fastforce
  obtain s2 w where l: "drive n (with_log others) (logged (monitor_pass X c))
      (monitor_new (now_ns X (world s1))) (s1, []) = Some (s2, w)"
    using monitor_ends [OF assms(4-6), of X c] by fastforce
  have "\<exists>r. run_redoer X th spawn fuel n others late c s = Some r"
    by (cases "List.find (\<lambda>i. spawn i \<noteq> None) [0..<unat (c_threads c)]"; cases "spawn (unat (c_threads c))"; cases e)
      (simp_all only: run_redoer_def Let_def g l a d prod.case option.case sum.case)
  then show ?thesis by auto
qed

lemma run_redoer_truthful:
  assumes "clock_ok X" "finish_ok X th" "200 < fuel"
    and stable: "\<And>h w. is_finished th h w \<Longrightarrow> is_finished th h (snd (get_stats X w))"
      "\<And>h s. is_finished th h (world s) \<Longrightarrow> is_finished th h (world (late s))"
      "\<And>s. \<not> RUNNING (glob s) \<Longrightarrow> \<not> RUNNING (glob (late s))"
    and run: "run_redoer X th spawn fuel n others late c s = Some ((clean, result), t)"
  shows "\<not> RUNNING (glob t) \<and>
    (clean \<longrightarrow> (\<forall>h \<in> set (started_threads spawn (unat (c_threads c))). is_finished th h (world t))) \<and>
    (result = Ok () \<longrightarrow> (\<forall>i \<le> unat (c_threads c). spawn i = None) \<and> \<not> WORKER_FATAL (glob t))"
proof -
  note j = stop_and_join_result [OF assms(1-3)]
  from run show ?thesis
  proof (cases rule: run_redoer_cases)
    case (abort e s')
    then show ?thesis using j by (auto simp: abort_with_def)
  next
    case (teardown s')
    from teardown(2) obtain t' where t': "stop_and_join X th fuel (started_threads spawn (unat (c_threads c))) s' = Some (clean, t')"
      "t = print_stats X (late t')" "result = (if WORKER_FATAL (glob t) then Err FailedFatally else Ok ())"
      by (auto simp: teardown_redoer_def Let_def)
    from j [OF t'(1)] stable t'(2,3) teardown(1) show ?thesis by (simp add: print_stats_fields)
  qed
qed

section \<open>Properties\<close>

text \<open>C25: once the process is stopped (by a signal, a fatal worker or the fetcher), the redo-only
  run returns, whatever the threads do, on every path: its monitor loop ends within two more passes and its
  join within its grace.\<close>

theorem run_redoer_returns:
  assumes "clock_ok X" "finish_ok X th" "200 < fuel" "stops_before m others" "2 \<le> m" "m \<le> n"
  shows "\<exists>clean result t. run_redoer X th spawn fuel n others late c s = Some ((clean, result), t)"
  by (rule run_redoer_returns_aux [OF assms])

text \<open>C24: what the redo-only run reports: a clean shutdown only if every thread it created has
  finished, the fetcher included, on the abort paths those created before the failure; success only if all
  were created and neither a worker nor the fetcher failed fatally. It never leaves the process running.\<close>

theorem run_redoer_reports_truthfully:
  assumes "clock_ok X" "finish_ok X th" "200 < fuel"
    and stable: "\<And>h w. is_finished th h w \<Longrightarrow> is_finished th h (snd (get_stats X w))"
      "\<And>h s. is_finished th h (world s) \<Longrightarrow> is_finished th h (world (late s))"
      "\<And>s. \<not> RUNNING (glob s) \<Longrightarrow> \<not> RUNNING (glob (late s))"
    and run: "run_redoer X th spawn fuel n others late c s = Some ((clean, result), t)"
  shows "\<not> RUNNING (glob t) \<and>
    (clean \<longrightarrow> (\<forall>h \<in> set (started_threads spawn (unat (c_threads c))). is_finished th h (world t))) \<and>
    (result = Ok () \<longrightarrow> (\<forall>i \<le> unat (c_threads c). spawn i = None) \<and> \<not> WORKER_FATAL (glob t))"
  by (rule run_redoer_truthful [OF assms])

text \<open>The two threads of the instance (a worker and the fetcher) end after 70 ms.\<close>

definition demo_pair :: "demo_world threads" where
  "demo_pair = \<lparr>is_finished = (\<lambda>h w. 70000000 \<le> dw_time w), panicked = (\<lambda>h. False)\<rparr>"

definition demo_stopper :: "nat \<Rightarrow> 'w proc \<Rightarrow> 'w proc" where
  "demo_stopper k s = (if k < 2 then s\<lparr>glob := (glob s)\<lparr>RUNNING := False\<rparr>\<rparr> else s)"

lemma demo_run_hyps: "clock_ok demo_ext" "finish_ok demo_ext demo_pair" "stops_before 2 demo_stopper"
  by (simp_all add: clock_ok_def finish_ok_def stops_before_def demo_ext_def demo_pair_def demo_stopper_def)

abbreviation demo_redoer_run ::
  "((bool \<times> (redoer_error + unit)) \<times> demo_world proc) option" where
  "demo_redoer_run \<equiv> run_redoer demo_ext demo_pair (\<lambda>_. None) 201 9 demo_stopper (\<lambda>s. s)
     (demo_config\<lparr>c_threads := 1\<rparr>) demo_proc"

theorem run_redoer_returns_witness: "\<exists>clean result t. demo_redoer_run = Some ((clean, result), t)"
  by (rule run_redoer_returns [OF demo_run_hyps(1,2) _ demo_run_hyps(3)]) simp_all

theorem run_redoer_reports_truthfully_witness:
  "\<exists>clean result t. demo_redoer_run = Some ((clean, result), t) \<and> \<not> RUNNING (glob t) \<and>
     (clean \<longrightarrow> is_finished demo_pair 1 (world t)) \<and> (result = Ok () \<longrightarrow> \<not> WORKER_FATAL (glob t))"
proof -
  obtain clean result t where run: "demo_redoer_run = Some ((clean, result), t)"
    using run_redoer_returns_aux [OF demo_run_hyps(1,2) _ demo_run_hyps(3), of 201 9] by fastforce
  have fuel: "200 < (201 :: nat)" by simp
  have "1 \<in> set (started_threads (\<lambda>_. None) (unat (c_threads (demo_config\<lparr>c_threads := 1\<rparr>))))"
    by (simp add: started_threads_def workers_and_fetcher_def)
  moreover note run_redoer_reports_truthfully [OF demo_run_hyps(1,2) fuel _ _ _ run]
  ultimately show ?thesis using run by (auto simp: demo_pair_def demo_ext_def)
qed

end
