(* ===== verification/Sz_Rabbit_System.thy ===== *)
theory Sz_Rabbit_System
  imports Sz_Rabbit
begin

text \<open>
  The RabbitMQ consumer as a whole: the async task of \<open>crates/rabbit/src/combined.rs\<close> with its
  worker threads, the redo threads, the broker and the signals, as an inductive step relation.
  A step is one arm of the \<open>select!\<close>, one turn of the drain, the final settlement, or a step of one
  worker between two accesses to what the threads share. What is proved of every reachable state:
  a delivery is settled at most once, an acknowledgement is backed by the engine, and no delivery is
  lost.
\<close>

section \<open>The effect of the handlers on deliveries\<close>

text \<open>What is tracked: for a tag in the in-flight map, whether it has been rejected already.\<close>

definition tracked :: "'w rabbit \<Rightarrow> u64 \<rightharpoonup> bool" where
  "tracked st tag = map_option if_rejected (map_of (rb_in_flight st) tag)"

definition settled :: "'w rabbit \<Rightarrow> u64 list" where
  "settled st = map call_tag (rb_calls st)"

definition keys_ok :: "'w rabbit \<Rightarrow> bool" where
  "keys_ok st \<longleftrightarrow> distinct (map fst (rb_in_flight st))"

text \<open>The calls an outcome leads to.\<close>

definition outcome_calls :: "outcome \<Rightarrow> 'w rabbit \<Rightarrow> amqp_call list" where
  "outcome_calls o' st =
     (if tracked st (o_delivery_tag o') = Some True then []
      else case o_action o' of
             Ack _ \<Rightarrow> [BasicAck (o_delivery_tag o')]
           | RejectNoRequeue \<Rightarrow> [BasicReject (o_delivery_tag o')]
           | Fatal _ \<Rightarrow> [])"

lemma rb_simps [simp]:
  "rb_in_flight (print_rb l st) = rb_in_flight st" "rb_calls (print_rb l st) = rb_calls st"
  "rb_in_flight (call_rb c st) = rb_in_flight st" "rb_calls (call_rb c st) = rb_calls st @ [c]"
  "rb_in_flight (count_rb f st) = rb_in_flight st" "rb_calls (count_rb f st) = rb_calls st"
  "rb_in_flight (forget_rb tag st) = hm_remove tag (rb_in_flight st)" "rb_calls (forget_rb tag st) = rb_calls st"
  "rb_in_flight (begin_shutdown msg st) = rb_in_flight st" "rb_calls (begin_shutdown msg st) = rb_calls st"
  "rb_proc (begin_shutdown msg st) = rb_proc st" "rb_proc (call_rb c st) = rb_proc st"
  "rb_proc (forget_rb tag st) = rb_proc st"
  "rb_in_flight (on_notified st) = rb_in_flight st" "rb_calls (on_notified st) = rb_calls st"
  "rb_proc (on_notified st) = rb_proc st"
  "rb_in_flight (on_signal st) = rb_in_flight st" "rb_calls (on_signal st) = rb_calls st"
  "rb_proc (on_signal st) = rb_proc st"
  "rb_in_flight (on_send_failed st) = rb_in_flight st" "rb_calls (on_send_failed st) = rb_calls st"
  "rb_proc (on_send_failed st) = rb_proc st"
  by (simp_all add: print_rb_def call_rb_def count_rb_def forget_rb_def begin_shutdown_def
      on_notified_def on_signal_def on_send_failed_def)

text \<open>The handlers of the task leave the channels and \<open>started\<close> alone.\<close>

definition same_channels :: "'w proc \<Rightarrow> 'w proc \<Rightarrow> bool" where
  "same_channels s t \<longleftrightarrow> work_ch t = work_ch s \<and> result_ch t = result_ch s \<and> started t = started s"

lemma same_channels_refl [simp]: "same_channels s s"
  by (simp add: same_channels_def)

lemma same_channels_rb [simp]:
  "same_channels s (rb_proc (print_rb l st)) = same_channels s (rb_proc st)"
  "same_channels s (rb_proc (count_rb f st)) = same_channels s (rb_proc st)"
  by (simp_all add: same_channels_def print_rb_def count_rb_def)

lemma handle_outcome_effect:
  assumes "handle_outcome o' st = (msg, st')"
  shows "rb_in_flight st' = hm_remove (o_delivery_tag o') (rb_in_flight st)"
    "rb_calls st' = rb_calls st @ outcome_calls o' st" "same_channels (rb_proc st) (rb_proc st')"
    "(msg \<noteq> None) = is_fatal (o_action o')"
  using assms
  by (auto simp: handle_outcome_def outcome_calls_def tracked_def is_fatal_def Let_def
      split: action.splits option.splits if_splits)

lemma on_outcome_effect:
  shows "rb_in_flight (on_outcome now o' st) = hm_remove (o_delivery_tag o') (rb_in_flight st)"
    "rb_calls (on_outcome now o' st) = rb_calls st @ outcome_calls o' st"
    "same_channels (rb_proc st) (rb_proc (on_outcome now o' st))"
proof -
  obtain msg st1 where h: "handle_outcome o' st = (msg, st1)" by fastforce
  note e = handle_outcome_effect [OF h]
  show "rb_in_flight (on_outcome now o' st) = hm_remove (o_delivery_tag o') (rb_in_flight st)"
    "rb_calls (on_outcome now o' st) = rb_calls st @ outcome_calls o' st"
    "same_channels (rb_proc st) (rb_proc (on_outcome now o' st))"
    using e by (auto simp: on_outcome_def h Let_def split: option.splits)
qed

lemma drain_outcome_effect:
  shows "rb_in_flight (drain_outcome o' st) = hm_remove (o_delivery_tag o') (rb_in_flight st)"
    "rb_calls (drain_outcome o' st) = rb_calls st @ outcome_calls o' st"
    "same_channels (rb_proc st) (rb_proc (drain_outcome o' st))"
proof -
  obtain msg st1 where h: "handle_outcome o' st = (msg, st1)" by fastforce
  note e = handle_outcome_effect [OF h]
  show "rb_in_flight (drain_outcome o' st) = hm_remove (o_delivery_tag o') (rb_in_flight st)"
    "rb_calls (drain_outcome o' st) = rb_calls st @ outcome_calls o' st"
    "same_channels (rb_proc st) (rb_proc (drain_outcome o' st))"
    using e by (auto simp: drain_outcome_def h)
qed

lemma map_of_set_rejected:
  "map_of (set_rejected tag m) k = (if k = tag then map_option (if_rejected_update (\<lambda>_. True)) (map_of m k) else map_of m k)"
  by (induction m) (auto simp: set_rejected_def)

lemma keys_set_rejected [simp]: "map fst (set_rejected tag m) = map fst m"
  by (simp add: set_rejected_def comp_def case_prod_beta)

text \<open>Rejecting a list of tracked tags.\<close>

lemma fold_reject_long:
  assumes "distinct tags" "set tags \<subseteq> fst ` set (rb_in_flight st)"
  shows "rb_calls (fold reject_long tags st) = rb_calls st @ map BasicReject tags \<and>
    map fst (rb_in_flight (fold reject_long tags st)) = map fst (rb_in_flight st) \<and>
    tracked (fold reject_long tags st) = (\<lambda>t. if t \<in> set tags then Some True else tracked st t) \<and>
    same_channels (rb_proc st) (rb_proc (fold reject_long tags st))"
  using assms
proof (induction tags arbitrary: st)
  case (Cons tag tags)
  obtain f where f: "map_of (rb_in_flight st) tag = Some f"
    using Cons.prems(2) by (auto simp: map_of_eq_None_iff dest!: weak_map_of_SomeI)
  let ?st = "reject_long tag st"
  have st: "rb_calls ?st = rb_calls st @ [BasicReject tag]" "map fst (rb_in_flight ?st) = map fst (rb_in_flight st)"
    "tracked ?st = (\<lambda>t. if t = tag then Some True else tracked st t)" "same_channels (rb_proc st) (rb_proc ?st)"
    by (auto simp: reject_long_def f tracked_def map_of_set_rejected fun_eq_iff)
  have "set tags \<subseteq> fst ` set (rb_in_flight ?st)" using Cons.prems(2) st(2) by (metis list.set_map set_subset_Cons subset_trans)
  note IH = Cons.IH [OF _ this]
  have "same_channels (rb_proc st) (rb_proc (fold reject_long tags ?st))"
    using IH Cons.prems(1) st(4) by (auto simp: same_channels_def)
  with IH Cons.prems(1) st show ?case by (auto simp: fun_eq_iff)
qed (simp add: fun_eq_iff)

lemma monitor_effect:
  assumes keys: "keys_ok st"
  obtains tags where "rb_calls (monitor_long_records now long k st) = rb_calls st @ map BasicReject tags"
    "distinct tags" "\<And>t. t \<in> set tags \<Longrightarrow> tracked st t = Some False"
    "map fst (rb_in_flight (monitor_long_records now long k st)) = map fst (rb_in_flight st)"
    "tracked (monitor_long_records now long k st) = (\<lambda>t. if t \<in> set tags then Some True else tracked st t)"
    "same_channels (rb_proc st) (rb_proc (monitor_long_records now long k st))"
proof -
  let ?late = "filter (\<lambda>(_, f). \<not> if_rejected f \<and> now - if_started f > long * 2) (rb_in_flight st)"
  let ?tags = "map fst ?late"
  define st1 where "st1 = (if length (filter (\<lambda>(_, f). now - if_started f > long) (rb_in_flight st)) \<ge> unat k
    then print_rb (AllStuck k) st else st)"
  have st1: "rb_in_flight st1 = rb_in_flight st" "rb_calls st1 = rb_calls st" "same_channels (rb_proc st) (rb_proc st1)"
    "tracked st1 = tracked st" by (auto simp: st1_def tracked_def fun_eq_iff)
  have m: "monitor_long_records now long k st = fold reject_long ?tags st1"
    by (simp add: monitor_long_records_def Let_def st1_def)
  have d: "distinct ?tags" using keys by (simp add: keys_ok_def distinct_map_filter)
  have sub: "set ?tags \<subseteq> fst ` set (rb_in_flight st1)" by (auto simp: st1)
  have "tracked st t = Some False" if t: "t \<in> set ?tags" for t
  proof -
    obtain f where f: "(t, f) \<in> set (rb_in_flight st)" "\<not> if_rejected f" using t by auto
    with keys show ?thesis by (simp add: keys_ok_def tracked_def)
  qed
  moreover note F = fold_reject_long [OF d sub]
  moreover have "same_channels (rb_proc st) (rb_proc (fold reject_long ?tags st1))"
    using F st1(3) by (simp add: same_channels_def)
  ultimately show ?thesis using d st1
    by (intro that [of ?tags], unfold m) (simp_all only:)
qed

lemma fold_settle_one:
  "rb_calls (fold (settle_one snap) m st) = rb_calls st @
     map (BasicReject \<circ> fst) (filter (\<lambda>(t, f). \<not> if_rejected f \<and> t \<in> snap) m) \<and>
   rb_in_flight (fold (settle_one snap) m st) = rb_in_flight st \<and> rb_proc (fold (settle_one snap) m st) = rb_proc st"
  by (induction m arbitrary: st) (auto simp: settle_one_def)

section \<open>The system\<close>

text \<open>Where the async task is: at the \<open>select!\<close>, in the send of a delivery to the workers, draining,
  or past the final settlement.\<close>

datatype main_phase = MLoop | MSending load_item | MDraining | MClosed

text \<open>
  \<open>y_busy\<close> are the items workers have picked up and not finished, \<open>y_alive\<close> the number of workers running,
  \<open>y_fetcher\<close> whether the redo fetcher runs. A buffer of outcomes longer than its capacity holds, at its
  end, those of threads still blocked in their send. The rest is history:
  \<open>y_delivered\<close> the deliveries of the broker, \<open>y_accepted\<close> the items whose \<open>add_record\<close> succeeded,
  \<open>y_left\<close> the tags the program stopped tracking without settling them (the broker redelivers them).
\<close>

record 'w sys =
  y_rb :: "'w rabbit"
  y_phase :: main_phase
  y_busy :: "load_item list"
  y_alive :: nat
  y_fetcher :: bool
  y_delivered :: "(u64 \<times> string) list"
  y_accepted :: "load_item list"
  y_left :: "u64 list"

abbreviation y_proc :: "'w sys \<Rightarrow> 'w proc" where
  "y_proc st \<equiv> rb_proc (y_rb st)"

definition sys_init :: "'w proc \<Rightarrow> nat \<Rightarrow> nat \<Rightarrow> bool \<Rightarrow> 'w sys" where
  "sys_init s now threads fetcher =
     \<lparr>y_rb = rabbit_new (s\<lparr>started := {}, work_ch := chan_new threads 1,
        result_ch := chan_new (threads * 2) (threads + (if fetcher then 1 else 0))\<rparr>) now,
      y_phase = MLoop, y_busy = [], y_alive = threads, y_fetcher = fetcher, y_delivered = [], y_accepted = [], y_left = []\<rparr>"

text \<open>The end of a turn of the loop: \<open>if shutting_down\<close>.\<close>

definition loop_tail :: "'w rabbit \<Rightarrow> 'w sys \<Rightarrow> 'w sys" where
  "loop_tail rb st =
     (if rb_shutting_down rb then st\<lparr>y_rb := enter_drain rb, y_phase := MDraining\<rparr>
      else st\<lparr>y_rb := rb, y_phase := MLoop\<rparr>)"

definition with_result_ch :: "outcome chan \<Rightarrow> 'w rabbit \<Rightarrow> 'w rabbit" where
  "with_result_ch ch rb = rb\<lparr>rb_proc := (rb_proc rb)\<lparr>result_ch := ch\<rparr>\<rparr>"

definition with_proc :: "'w proc \<Rightarrow> 'w sys \<Rightarrow> 'w sys" where
  "with_proc s st = st\<lparr>y_rb := (y_rb st)\<lparr>rb_proc := s\<rparr>\<rparr>"

text \<open>A fatal outcome for a delivery not yet rejected leaves it to the broker.\<close>

definition left_by :: "outcome \<Rightarrow> 'w rabbit \<Rightarrow> u64 list" where
  "left_by o' rb =
     (if is_fatal (o_action o') \<and> tracked rb (o_delivery_tag o') = Some False then [o_delivery_tag o'] else [])"

text \<open>A worker between two deliveries (a mixed worker may be in a redo record then); a thread that ends drops
  its sender of outcomes, one that met a fatal error reports it before.\<close>

definition y_idle :: "'w sys \<Rightarrow> bool" where
  "y_idle st \<longleftrightarrow> length (y_busy st) < y_alive st"

definition drop_sender :: "'w sys \<Rightarrow> 'w sys" where
  "drop_sender st = with_proc ((y_proc st)\<lparr>result_ch := chan_drop_sender (result_ch (y_proc st))\<rparr>) st"

definition report_fatal :: "string \<Rightarrow> 'w sys \<Rightarrow> 'w sys" where
  "report_fatal msg st = with_proc (signal_fatal msg ((y_proc st)\<lparr>glob := mark_fatal (glob (y_proc st))\<rparr>)) st"

inductive rb_step ::
  "('w, 'e) ext \<Rightarrow> worker_ctx \<Rightarrow> nat \<Rightarrow> usize \<Rightarrow> 'w sys \<Rightarrow> 'w sys \<Rightarrow> bool"
  for X c long threads where
  deliver_bad: "\<lbrakk>y_phase st = MLoop; tag \<noteq> 0; tag \<notin> fst ` set (y_delivered st);
      on_delivery (json_parse X) now (Delivery tag data) (y_rb st) = (rb, None)\<rbrakk>
    \<Longrightarrow> rb_step X c long threads st (st\<lparr>y_rb := rb, y_delivered := y_delivered st @ [(tag, data)]\<rparr>)"
| deliver_good: "\<lbrakk>y_phase st = MLoop; tag \<noteq> 0; tag \<notin> fst ` set (y_delivered st);
      on_delivery (json_parse X) now (Delivery tag data) (y_rb st) = (rb, Some item)\<rbrakk>
    \<Longrightarrow> rb_step X c long threads st
          (st\<lparr>y_rb := rb, y_phase := MSending item, y_delivered := y_delivered st @ [(tag, data)]\<rparr>)"
| stream_ends: "\<lbrakk>y_phase st = MLoop; d = StreamEnded \<or> (\<exists>e. d = ConsumeError e);
      on_delivery (json_parse X) now d (y_rb st) = (rb, None)\<rbrakk>
    \<Longrightarrow> rb_step X c long threads st (loop_tail rb st)"
| send: "\<lbrakk>y_phase st = MSending item; chan_send (work_ch (y_proc st)) item = (Sent, ch)\<rbrakk>
    \<Longrightarrow> rb_step X c long threads st (with_proc ((y_proc st)\<lparr>work_ch := ch\<rparr>) (st\<lparr>y_phase := MLoop\<rparr>))"
| send_fails: "\<lbrakk>y_phase st = MSending item; \<not> ch_rx (work_ch (y_proc st))\<rbrakk>
    \<Longrightarrow> rb_step X c long threads st (loop_tail (on_send_failed (y_rb st)) st)"
| notified: "\<lbrakk>y_phase st = MLoop \<or> y_phase st = MSending item; notified (y_proc st) > 0\<rbrakk>
    \<Longrightarrow> rb_step X c long threads st (loop_tail (on_notified (y_rb st)) st)"
| signal: "y_phase st = MLoop \<Longrightarrow> rb_step X c long threads st (loop_tail (on_signal (y_rb st)) st)"
| outcome: "\<lbrakk>y_phase st = MLoop; chan_recv (result_ch (y_proc st)) = (Item o', ch)\<rbrakk>
    \<Longrightarrow> rb_step X c long threads st
          (loop_tail (on_outcome now o' (with_result_ch ch (y_rb st)))
             (st\<lparr>y_left := y_left st @ left_by o' (y_rb st)\<rparr>))"
| monitor: "y_phase st = MLoop
    \<Longrightarrow> rb_step X c long threads st (st\<lparr>y_rb := monitor_long_records now long threads (y_rb st)\<rparr>)"
| drain: "\<lbrakk>y_phase st = MDraining; rb_in_flight (y_rb st) \<noteq> []; chan_recv (result_ch (y_proc st)) = (Item o', ch)\<rbrakk>
    \<Longrightarrow> rb_step X c long threads st
          (st\<lparr>y_rb := drain_outcome o' (with_result_ch ch (y_rb st)), y_left := y_left st @ left_by o' (y_rb st)\<rparr>)"
| settle: "\<lbrakk>y_phase st = MDraining \<or> (y_phase st = MLoop \<and> chan_recv (result_ch (y_proc st)) = (Closed, ch))\<rbrakk>
    \<Longrightarrow> rb_step X c long threads st
          (st\<lparr>y_rb := settle_remaining (y_rb st), y_phase := MClosed,
              y_left := y_left st @ map fst (filter (\<lambda>(t, f). \<not> if_rejected f \<and> t \<notin> started (y_proc st)) (rb_in_flight (y_rb st)))\<rparr>)"
| pick: "\<lbrakk>chan_recv (work_ch (y_proc st)) = (Item item, ch); y_idle st\<rbrakk>
    \<Longrightarrow> rb_step X c long threads st
          (with_proc (begin_load X c item ((y_proc st)\<lparr>work_ch := ch\<rparr>)) (st\<lparr>y_busy := y_busy st @ [item]\<rparr>))"
| finish: "\<lbrakk>y_busy st = as @ item # bs; load_action X c item (y_proc st) = (act, s1);
      finish_load item act elapsed s1 = (kg, s2)\<rbrakk>
    \<Longrightarrow> rb_step X c long threads st
          (with_proc s2 (st\<lparr>y_busy := as @ bs,
             y_accepted := y_accepted st @ (case act of Ack _ \<Rightarrow> [item] | _ \<Rightarrow> [])\<rparr>))"
| worker_fatal: "y_idle st
    \<Longrightarrow> rb_step X c long threads st (drop_sender (report_fatal msg st\<lparr>y_alive := y_alive st - 1\<rparr>))"
| worker_ends: "\<lbrakk>y_idle st; fst (chan_recv (work_ch (y_proc st))) = Closed\<rbrakk>
    \<Longrightarrow> rb_step X c long threads st (drop_sender (st\<lparr>y_alive := y_alive st - 1\<rparr>))"
| fetcher_fatal: "y_fetcher st
    \<Longrightarrow> rb_step X c long threads st (drop_sender (report_fatal msg st\<lparr>y_fetcher := False\<rparr>))"
| fetcher_ends: "y_fetcher st \<Longrightarrow> rb_step X c long threads st (drop_sender (st\<lparr>y_fetcher := False\<rparr>))"
| elsewhere: "same_channels (y_proc st) s \<Longrightarrow> rb_step X c long threads st (with_proc s st)"

inductive rb_reach ::
  "('w, 'e) ext \<Rightarrow> worker_ctx \<Rightarrow> nat \<Rightarrow> usize \<Rightarrow> 'w sys \<Rightarrow> 'w sys \<Rightarrow> bool"
  for X c long threads st0 where
  start: "rb_reach X c long threads st0 st0"
| step: "\<lbrakk>rb_reach X c long threads st0 st; rb_step X c long threads st st'\<rbrakk> \<Longrightarrow> rb_reach X c long threads st0 st'"

inductive_cases rb_stepE: "rb_step X c long threads st st'"
inductive_simps rb_reach_simps: "rb_reach X c long threads st0 st"

section \<open>The ledger of deliveries\<close>

text \<open>
  \<open>tags\<close> are the deliveries so far, \<open>left\<close> those left to the broker. Every delivery is settled, tracked
  or left; it is settled at most once; a tracked one has been settled exactly if it is marked rejected.
\<close>

definition ledger :: "u64 list \<Rightarrow> u64 list \<Rightarrow> 'w rabbit \<Rightarrow> bool" where
  "ledger tags left rb \<longleftrightarrow>
     keys_ok rb \<and> distinct tags \<and> 0 \<notin> set tags \<and> distinct (settled rb) \<and>
     set tags = set (settled rb) \<union> dom (tracked rb) \<union> set left \<and>
     (\<forall>t b. tracked rb t = Some b \<longrightarrow> (t \<in> set (settled rb) \<longleftrightarrow> b) \<and> t \<notin> set left) \<and>
     set left \<inter> set (settled rb) = {}"

lemma ledger_cong:
  "rb_in_flight rb' = rb_in_flight rb \<Longrightarrow> rb_calls rb' = rb_calls rb \<Longrightarrow> ledger tags left rb' = ledger tags left rb"
  by (simp add: ledger_def keys_ok_def settled_def tracked_def fun_eq_iff dom_def)

lemma tracked_remove:
  "rb_in_flight rb' = hm_remove t (rb_in_flight rb) \<Longrightarrow> tracked rb' = (tracked rb)(t := None)"
  by (simp add: tracked_def hm.get_del fun_eq_iff)

lemma tracked_insert:
  "rb_in_flight rb' = hm_insert t f (rb_in_flight rb) \<Longrightarrow> tracked rb' = (tracked rb)(t \<mapsto> if_rejected f)"
  by (simp add: tracked_def hm.get_ins fun_eq_iff)

lemma ledger_conclude:
  assumes l: "ledger tags left rb" and fl: "rb_in_flight rb' = hm_remove (o_delivery_tag o') (rb_in_flight rb)"
    and calls: "rb_calls rb' = rb_calls rb @ outcome_calls o' rb"
    and tag: "o_delivery_tag o' \<in> dom (tracked rb) \<or> (o_delivery_tag o' = 0 \<and> is_fatal (o_action o'))"
  shows "ledger tags (left @ left_by o' rb) rb'"
proof -
  let ?t = "o_delivery_tag o'"
  have T: "tracked rb' = (tracked rb)(?t := None)" using tracked_remove [OF fl] .
  have S: "settled rb' = settled rb @ map call_tag (outcome_calls o' rb)" by (simp add: settled_def calls)
  have K: "keys_ok rb'" using l by (simp add: ledger_def keys_ok_def fl distinct_hm_remove)
  show ?thesis
  proof (cases "tracked rb ?t")
    case None
    then have "?t = 0" "is_fatal (o_action o')" using tag by auto
    moreover have "tracked rb 0 = None" using None \<open>?t = 0\<close> by simp
    ultimately have "outcome_calls o' rb = []" "left_by o' rb = []" "tracked rb' = tracked rb"
      by (auto simp: outcome_calls_def left_by_def T is_fatal_def fun_upd_idem split: action.splits)
    then show ?thesis using l K S unfolding ledger_def by auto
  next
    case (Some b)
    have t: "?t \<in> set tags" "(?t \<in> set (settled rb)) = b" "?t \<notin> set left" using l Some by (auto simp: ledger_def)
    show ?thesis
    proof (cases b)
      case True
      then have "outcome_calls o' rb = []" "left_by o' rb = []" by (simp_all add: outcome_calls_def left_by_def Some)
      then show ?thesis using l K S T t True Some by (auto simp: ledger_def)
    next
      case False
      then have "if is_fatal (o_action o') then outcome_calls o' rb = [] \<and> left_by o' rb = [?t]
        else map call_tag (outcome_calls o' rb) = [?t] \<and> left_by o' rb = []"
        by (auto simp: outcome_calls_def left_by_def Some is_fatal_def split: action.splits)
      then show ?thesis using l K S T t False Some
        by (auto simp: ledger_def split: if_splits)
    qed
  qed
qed

lemma ledger_reject_new:
  "ledger tags left rb \<Longrightarrow> t \<noteq> 0 \<Longrightarrow> t \<notin> set tags \<Longrightarrow> ledger (tags @ [t]) left (call_rb (BasicReject t) rb)"
  by (auto simp: ledger_def keys_ok_def settled_def tracked_def)

lemma ledger_track_new:
  assumes "ledger tags left rb" "t \<noteq> 0" "t \<notin> set tags" "rb_in_flight rb' = hm_insert t f (rb_in_flight rb)"
    "\<not> if_rejected f" "rb_calls rb' = rb_calls rb"
  shows "ledger (tags @ [t]) left rb'"
proof -
  have "tracked rb' = (tracked rb)(t \<mapsto> False)" using tracked_insert [OF assms(4)] assms(5) by simp
  moreover have "keys_ok rb'" using assms(1,4) by (simp add: ledger_def keys_ok_def distinct_hm_insert)
  moreover have "settled rb' = settled rb" by (simp add: settled_def assms(6))
  ultimately show ?thesis using assms(1-3) by (auto simp: ledger_def)
qed

lemma ledger_reject_tracked:
  assumes "ledger tags left rb" "rb_calls rb' = rb_calls rb @ map BasicReject ts" "distinct ts"
    "\<And>t. t \<in> set ts \<Longrightarrow> tracked rb t = Some False" "keys_ok rb'"
    "tracked rb' = (\<lambda>t. if t \<in> set ts then Some True else tracked rb t)"
  shows "ledger tags left rb'"
proof -
  have S: "settled rb' = settled rb @ ts" by (simp add: settled_def assms(2) comp_def)
  have tr: "\<And>t b. tracked rb t = Some b \<Longrightarrow> (t \<in> set (settled rb) \<longleftrightarrow> b) \<and> t \<notin> set left"
    using assms(1) by (simp add: ledger_def)
  have new: "set ts \<inter> set (settled rb) = {}" "set ts \<inter> set left = {}" "set ts \<subseteq> dom (tracked rb)"
    using assms(4) tr by blast+
  have dom: "dom (tracked rb') = dom (tracked rb)" using new(3) by (auto simp: assms(6) split: if_splits)
  have "(t \<in> set (settled rb') \<longleftrightarrow> b) \<and> t \<notin> set left" if "tracked rb' t = Some b" for t b
    using that tr [of t b] new(2) by (auto simp: S assms(6) split: if_splits)
  moreover have "distinct (settled rb')" using assms(1,3) new(1) by (auto simp: S ledger_def)
  moreover have "set tags = set (settled rb') \<union> dom (tracked rb') \<union> set left" "set left \<inter> set (settled rb') = {}"
    unfolding S dom using assms(1) new by (auto simp: ledger_def)
  ultimately show ?thesis using assms(1,5) tr unfolding ledger_def by blast
qed

lemma ledger_settle:
  assumes "ledger tags left rb"
  defines "left_now \<equiv> map fst (filter (\<lambda>(t, f). \<not> if_rejected f \<and> t \<notin> started (rb_proc rb)) (rb_in_flight rb))"
  shows "ledger tags (left @ left_now) (settle_remaining rb)"
proof -
  let ?m = "rb_in_flight rb" and ?snap = "started (rb_proc rb)"
  let ?now = "map fst (filter (\<lambda>(t, f). \<not> if_rejected f \<and> t \<in> ?snap) ?m)"
  have keys: "distinct (map fst ?m)" using assms(1) by (simp add: ledger_def keys_ok_def)
  have S: "settled (settle_remaining rb) = settled rb @ ?now"
    using fold_settle_one [of ?snap ?m "rb\<lparr>rb_in_flight := []\<rparr>"]
    by (simp add: settle_remaining_def settled_def comp_def)
  have T: "tracked (settle_remaining rb) = Map.empty" "keys_ok (settle_remaining rb)"
    using fold_settle_one [of ?snap ?m "rb\<lparr>rb_in_flight := []\<rparr>"]
    by (simp_all add: settle_remaining_def tracked_def keys_ok_def fun_eq_iff)
  have in_m: "tracked rb t = Some b \<longleftrightarrow> (\<exists>f. (t, f) \<in> set ?m \<and> if_rejected f = b)" for t b
    using keys by (auto simp: tracked_def)
  define N where "N = set ?now"
  define L where "L = set left_now"
  have now: "t \<in> N \<longleftrightarrow> tracked rb t = Some False \<and> t \<in> ?snap"
    and lft: "t \<in> L \<longleftrightarrow> tracked rb t = Some False \<and> t \<notin> ?snap" for t
    by (auto simp: in_m left_now_def N_def L_def image_iff)
  have l: "\<And>t b. tracked rb t = Some b \<Longrightarrow> (t \<in> set (settled rb) \<longleftrightarrow> b) \<and> t \<notin> set left"
    "set tags = set (settled rb) \<union> dom (tracked rb) \<union> set left"
    "set left \<inter> set (settled rb) = {}" "distinct (settled rb)"
    using assms(1) by (auto simp: ledger_def)
  have "dom (tracked rb) \<subseteq> set (settled rb) \<union> N \<union> L"
  proof
    fix t assume "t \<in> dom (tracked rb)"
    then obtain b where "tracked rb t = Some b" by blast
    then show "t \<in> set (settled rb) \<union> N \<union> L"
      using l(1) [of t b] now [of t] lft [of t] by (cases b; cases "t \<in> ?snap") simp_all
  qed
  moreover have "N \<union> L \<subseteq> dom (tracked rb)" using now lft by blast
  ultimately have tags: "set tags = (set (settled rb) \<union> N) \<union> (set left \<union> L)" using l(2) by blast
  have disj: "N \<inter> set (settled rb) = {}" "(set left \<union> L) \<inter> (set (settled rb) \<union> N) = {}"
    using l(1,3) now lft by blast+
  have "distinct ?now" using keys by (simp add: distinct_map_filter)
  then have "distinct (settled rb @ ?now)" using l(4) disj(1) unfolding N_def distinct_append by blast
  moreover have "distinct tags" "0 \<notin> set tags" using assms(1) unfolding ledger_def by blast+
  moreover have "set tags = set (settled rb) \<union> N \<union> dom Map.empty \<union> (set left \<union> L)"
    unfolding tags by auto
  moreover have "Map.empty t = Some b \<Longrightarrow> (t \<in> set (settled rb) \<union> N \<longleftrightarrow> b) \<and> t \<notin> set left \<union> L" for t b
    by simp
  ultimately show ?thesis using T(2) disj(2)
    unfolding ledger_def S T(1) set_append N_def [symmetric] L_def [symmetric] by blast
qed

section \<open>The invariant of the system\<close>

definition is_ack :: "action \<Rightarrow> bool" where
  "is_ack a = (case a of Ack _ \<Rightarrow> True | _ \<Rightarrow> False)"

text \<open>The item is a delivery of the broker, parsed; the engine has taken the item.\<close>

definition came :: "('w, 'e) ext \<Rightarrow> (u64 \<times> string) list \<Rightarrow> load_item \<Rightarrow> bool" where
  "came X dlv i \<longleftrightarrow> (delivery_tag i, body i) \<in> set dlv \<and> parse_record (json_parse X) (body i) = Ok (info i)"

definition engine_took :: "('w, 'e) ext \<Rightarrow> worker_ctx \<Rightarrow> load_item \<Rightarrow> bool" where
  "engine_took X c i \<longleftrightarrow>
     (\<exists>w w' resp. add_record X (data_source (info i)) (record_id (info i)) (body i) (add_flags c) w = (Ok resp, w'))"

definition sending :: "main_phase \<Rightarrow> load_item list" where
  "sending ph = (case ph of MSending i \<Rightarrow> [i] | _ \<Rightarrow> [])"

definition work_items :: "'w rabbit \<Rightarrow> load_item list" where
  "work_items rb = ch_buf (work_ch (rb_proc rb))"

definition outcomes :: "'w rabbit \<Rightarrow> outcome list" where
  "outcomes rb = ch_buf (result_ch (rb_proc rb))"

definition outcome_ok :: "load_item list \<Rightarrow> outcome \<Rightarrow> bool" where
  "outcome_ok acc o' \<longleftrightarrow> (o_delivery_tag o' = 0 \<longrightarrow> is_fatal (o_action o')) \<and>
     (is_ack (o_action o') \<longrightarrow> o_delivery_tag o' \<in> delivery_tag ` set acc)"

text \<open>\<open>items\<close> are those queued, in workers and being sent.\<close>

definition transit_ok :: "'w rabbit \<Rightarrow> bool \<Rightarrow> load_item list \<Rightarrow> (u64 \<times> string) list \<Rightarrow> bool" where
  "transit_ok rb over items dlv \<longleftrightarrow>
     (let ts = map delivery_tag items @ filter (\<lambda>x. x \<noteq> 0) (map o_delivery_tag (outcomes rb))
      in distinct ts \<and> set ts \<subseteq> fst ` set dlv \<and> (\<not> over \<longrightarrow> set ts \<subseteq> dom (tracked rb)))"

lemma transit_ok_cong:
  "tracked rb' = tracked rb \<Longrightarrow> outcomes rb' = outcomes rb \<Longrightarrow> transit_ok rb' over items dlv = transit_ok rb over items dlv"
  by (simp add: transit_ok_def)

lemma transit_ok_drop: "transit_ok rb over (is @ js) dlv \<Longrightarrow> transit_ok rb over is dlv"
  unfolding transit_ok_def Let_def map_append set_append distinct_append by blast

lemma transit_ok_over: "transit_ok rb over items dlv \<Longrightarrow> transit_ok rb True items dlv"
  by (simp add: transit_ok_def Let_def)

lemma transit_ok_consume:
  assumes t: "transit_ok rb False items dlv" and o: "outcomes rb = o' # rest" "outcomes rb' = rest"
    and T: "tracked rb' = (tracked rb)(o_delivery_tag o' := None)" and "0 \<notin> fst ` set dlv"
  shows "transit_ok rb' False items dlv"
proof -
  let ?f = "\<lambda>os. filter (\<lambda>x. x \<noteq> 0) (map o_delivery_tag os)"
  have ts: "distinct (map delivery_tag items @ ?f (o' # rest))" "set (map delivery_tag items @ ?f (o' # rest)) \<subseteq> fst ` set dlv"
    "set (map delivery_tag items @ ?f (o' # rest)) \<subseteq> dom (tracked rb)"
    using t unfolding transit_ok_def Let_def o by blast+
  have sub: "set (map delivery_tag items @ ?f rest) \<subseteq> set (map delivery_tag items @ ?f (o' # rest))" by auto
  have dom': "dom (tracked rb') = dom (tracked rb) - {o_delivery_tag o'}" by (simp add: T)
  have notin: "o_delivery_tag o' \<notin> set (map delivery_tag items @ ?f rest)"
    using ts(1,2) assms(5) by (cases "o_delivery_tag o' = 0") auto
  have "distinct (map delivery_tag items @ ?f rest)" using ts(1) by (auto split: if_splits)
  moreover have "set (map delivery_tag items @ ?f rest) \<subseteq> fst ` set dlv" using sub ts(2) by (rule order_trans)
  moreover have "set (map delivery_tag items @ ?f rest) \<subseteq> dom (tracked rb')"
    using order_trans [OF sub ts(3)] notin dom' by (metis Diff_empty subset_Diff_insert)
  ultimately show ?thesis unfolding transit_ok_def Let_def o(2) by (intro conjI impI)
qed

definition sys_inv :: "('w, 'e) ext \<Rightarrow> worker_ctx \<Rightarrow> 'w sys \<Rightarrow> bool" where
  "sys_inv X c st \<longleftrightarrow>
     (let rb = y_rb st; items = work_items rb @ y_busy st @ sending (y_phase st)
      in ledger (map fst (y_delivered st)) (y_left st) rb \<and>
         transit_ok rb (y_phase st = MClosed) items (y_delivered st) \<and>
         (\<forall>o' \<in> set (outcomes rb). outcome_ok (y_accepted st) o') \<and>
         (\<forall>i \<in> set items. came X (y_delivered st) i) \<and>
         (\<forall>i \<in> set (y_accepted st). came X (y_delivered st) i \<and> engine_took X c i) \<and>
         (\<forall>t. BasicAck t \<in> set (rb_calls rb) \<longrightarrow> t \<in> delivery_tag ` set (y_accepted st)))"

lemma sys_invI:
  assumes "ledger (map fst (y_delivered st)) (y_left st) (y_rb st)"
    "transit_ok (y_rb st) (y_phase st = MClosed) (work_items (y_rb st) @ y_busy st @ sending (y_phase st)) (y_delivered st)"
    "\<And>o'. o' \<in> set (outcomes (y_rb st)) \<Longrightarrow> outcome_ok (y_accepted st) o'"
    "\<And>i. i \<in> set (work_items (y_rb st) @ y_busy st @ sending (y_phase st)) \<Longrightarrow> came X (y_delivered st) i"
    "\<And>i. i \<in> set (y_accepted st) \<Longrightarrow> came X (y_delivered st) i \<and> engine_took X c i"
    "\<And>t. BasicAck t \<in> set (rb_calls (y_rb st)) \<Longrightarrow> t \<in> delivery_tag ` set (y_accepted st)"
  shows "sys_inv X c st"
  using assms by (simp add: sys_inv_def Let_def)

lemma sys_invD:
  assumes "sys_inv X c st"
  shows "ledger (map fst (y_delivered st)) (y_left st) (y_rb st)"
    "transit_ok (y_rb st) (y_phase st = MClosed) (work_items (y_rb st) @ y_busy st @ sending (y_phase st)) (y_delivered st)"
    "\<And>o'. o' \<in> set (outcomes (y_rb st)) \<Longrightarrow> outcome_ok (y_accepted st) o'"
    "\<And>i. i \<in> set (work_items (y_rb st) @ y_busy st @ sending (y_phase st)) \<Longrightarrow> came X (y_delivered st) i"
    "\<And>i. i \<in> set (y_accepted st) \<Longrightarrow> came X (y_delivered st) i \<and> engine_took X c i"
    "\<And>t. BasicAck t \<in> set (rb_calls (y_rb st)) \<Longrightarrow> t \<in> delivery_tag ` set (y_accepted st)"
  using assms by (simp_all add: sys_inv_def Let_def)

text \<open>Steps that leave deliveries, calls and channel contents alone; the item being sent may be dropped.\<close>

lemma sys_inv_same:
  assumes inv: "sys_inv X c st"
    and "rb_in_flight (y_rb st') = rb_in_flight (y_rb st)" "rb_calls (y_rb st') = rb_calls (y_rb st)"
      "work_items (y_rb st') = work_items (y_rb st)" "outcomes (y_rb st') = outcomes (y_rb st)"
      "y_busy st' = y_busy st" "y_delivered st' = y_delivered st" "y_accepted st' = y_accepted st"
      "y_left st' = y_left st" "sending (y_phase st') = sending (y_phase st) \<or> sending (y_phase st') = []"
      "y_phase st = MClosed \<longrightarrow> y_phase st' = MClosed"
  shows "sys_inv X c st'"
proof -
  have T: "tracked (y_rb st') = tracked (y_rb st)" using assms(2) by (simp add: tracked_def fun_eq_iff)
  show ?thesis
  proof (rule sys_invI)
    show "transit_ok (y_rb st') (y_phase st' = MClosed) (work_items (y_rb st') @ y_busy st' @ sending (y_phase st')) (y_delivered st')"
    proof -
      let ?is = "work_items (y_rb st) @ y_busy st"
      have "transit_ok (y_rb st) (y_phase st = MClosed) (?is @ sending (y_phase st')) (y_delivered st)"
        using sys_invD(2) [OF inv] transit_ok_drop [of _ _ ?is "sending (y_phase st)"] assms(10) by (auto simp del: append_assoc simp add: append_assoc [symmetric])
      then have "transit_ok (y_rb st) (y_phase st' = MClosed) (?is @ sending (y_phase st')) (y_delivered st)"
        using transit_ok_over assms(11) by (cases "y_phase st' = MClosed") auto
      then show ?thesis using transit_ok_cong [OF T assms(5)] assms(4,6,7) by simp
    qed
    show "ledger (map fst (y_delivered st')) (y_left st') (y_rb st')"
      using sys_invD(1) [OF inv] assms ledger_cong [OF assms(2,3)] by simp
  qed (use sys_invD [OF inv] assms in auto)
qed

lemma loop_tail_fields [simp]:
  "rb_in_flight (y_rb (loop_tail rb st)) = rb_in_flight rb" "rb_calls (y_rb (loop_tail rb st)) = rb_calls rb"
  "work_items (y_rb (loop_tail rb st)) = work_items rb" "outcomes (y_rb (loop_tail rb st)) = outcomes rb"
  "y_busy (loop_tail rb st) = y_busy st" "y_delivered (loop_tail rb st) = y_delivered st"
  "y_accepted (loop_tail rb st) = y_accepted st" "y_left (loop_tail rb st) = y_left st"
  "sending (y_phase (loop_tail rb st)) = []" "y_phase (loop_tail rb st) \<noteq> MClosed"
  "started (rb_proc (y_rb (loop_tail rb st))) = started (rb_proc rb)"
  by (auto simp: loop_tail_def enter_drain_def Let_def work_items_def outcomes_def chan_drop_sender_def sending_def)

lemma sys_inv_outcome:
  assumes inv: "sys_inv X c st" and open': "y_phase st = MLoop \<or> y_phase st = MDraining"
    and r: "outcomes (y_rb st) = o' # rest"
    and st': "rb_in_flight (y_rb st') = hm_remove (o_delivery_tag o') (rb_in_flight (y_rb st))"
      "rb_calls (y_rb st') = rb_calls (y_rb st) @ outcome_calls o' (y_rb st)"
      "work_items (y_rb st') = work_items (y_rb st)" "outcomes (y_rb st') = rest"
      "y_busy st' = y_busy st" "y_delivered st' = y_delivered st" "y_accepted st' = y_accepted st"
      "y_left st' = y_left st @ left_by o' (y_rb st)" "sending (y_phase st') = []" "y_phase st' \<noteq> MClosed"
  shows "sys_inv X c st'"
proof -
  let ?t = "o_delivery_tag o'"
  have T: "tracked (y_rb st') = (tracked (y_rb st))(?t := None)" using tracked_remove [OF st'(1)] .
  have snd: "sending (y_phase st) = []" "y_phase st \<noteq> MClosed" using open' by (auto simp: sending_def)
  note tr = sys_invD(2) [OF inv, unfolded transit_ok_def Let_def]
  have zero: "0 \<notin> fst ` set (y_delivered st)" using sys_invD(1) [OF inv] by (auto simp: ledger_def)
  have ok: "outcome_ok (y_accepted st) o'" using sys_invD(3) [OF inv] r by simp
  have tag: "?t \<in> dom (tracked (y_rb st)) \<or> (?t = 0 \<and> is_fatal (o_action o'))"
    using tr ok r snd by (auto simp: outcome_ok_def)
  show ?thesis
  proof (rule sys_invI)
    show "ledger (map fst (y_delivered st')) (y_left st') (y_rb st')"
      using ledger_conclude [OF sys_invD(1) [OF inv] st'(1,2) tag] st'(6,8) by simp
    show "transit_ok (y_rb st') (y_phase st' = MClosed) (work_items (y_rb st') @ y_busy st' @ sending (y_phase st')) (y_delivered st')"
      using transit_ok_consume [OF _ r st'(4) T] sys_invD(2) [OF inv] snd st'(3,5,6,9,10) zero by simp
    show "\<And>t. BasicAck t \<in> set (rb_calls (y_rb st')) \<Longrightarrow> t \<in> delivery_tag ` set (y_accepted st')"
      using sys_invD(6) [OF inv] ok
      by (auto simp: st'(2,7) outcome_calls_def outcome_ok_def is_ack_def split: if_splits action.splits)
  qed (use sys_invD [OF inv] r st' snd in auto)
qed

text \<open>The rules, one by one.\<close>

lemma sys_inv_deliver:
  assumes inv: "sys_inv X c st" and ph: "y_phase st = MLoop" and tag: "tag \<noteq> 0" "tag \<notin> fst ` set (y_delivered st)"
    and d: "on_delivery (json_parse X) now (Delivery tag data) (y_rb st) = (rb, item)"
  shows "sys_inv X c (st\<lparr>y_rb := rb, y_phase := (case item of None \<Rightarrow> MLoop | Some i \<Rightarrow> MSending i),
    y_delivered := y_delivered st @ [(tag, data)]\<rparr>)" (is "sys_inv X c ?st'")
proof -
  note D = sys_invD [OF inv]
  have l: "ledger (map fst (y_delivered st)) (y_left st) (y_rb st)" using D(1) .
  have snd: "sending (y_phase st) = []" by (simp add: ph sending_def)
  have fresh: "tag \<notin> set (map fst (y_delivered st))" using tag(2) by simp
  have mono: "\<And>i. came X (y_delivered st) i \<Longrightarrow> came X (y_delivered st @ [(tag, data)]) i" by (simp add: came_def)
  have tr: "transit_ok (y_rb st) False (work_items (y_rb st) @ y_busy st) (y_delivered st)"
    using D(2) by (simp add: ph sending_def)
  show ?thesis
  proof (cases "parse_record (json_parse X) data")
    case (Inl e)
    then have rb: "rb = call_rb (BasicReject tag) (y_rb st)" "item = None" using d by (simp_all add: on_delivery_def)
    have same: "tracked rb = tracked (y_rb st)" "outcomes rb = outcomes (y_rb st)" "work_items rb = work_items (y_rb st)"
      by (simp_all add: rb tracked_def outcomes_def work_items_def fun_eq_iff)
    show ?thesis
    proof (rule sys_invI)
      show "ledger (map fst (y_delivered ?st')) (y_left ?st') (y_rb ?st')"
        using ledger_reject_new [OF l tag(1) fresh] by (simp add: rb)
      show "transit_ok (y_rb ?st') (y_phase ?st' = MClosed) (work_items (y_rb ?st') @ y_busy ?st' @ sending (y_phase ?st')) (y_delivered ?st')"
        using tr by (auto simp: rb(2) same sending_def transit_ok_def Let_def)
    qed (use D mono snd in \<open>auto simp: rb(2) same sending_def\<close>, use D(6) in \<open>auto simp: rb(1)\<close>)
  next
    case (Inr ri)
    let ?i = "\<lparr>delivery_tag = tag, body = data, info = ri\<rparr>"
    let ?f = "\<lparr>if_info = ri, if_started = now, if_rejected = False\<rparr>"
    have rb: "rb = (y_rb st)\<lparr>rb_in_flight := hm_insert tag ?f (rb_in_flight (y_rb st))\<rparr>" "item = Some ?i"
      using d by (auto simp: on_delivery_def Inr)
    have same: "outcomes rb = outcomes (y_rb st)" "work_items rb = work_items (y_rb st)" "rb_calls rb = rb_calls (y_rb st)"
      by (simp_all add: rb outcomes_def work_items_def)
    have T: "tracked rb = (tracked (y_rb st))(tag \<mapsto> False)"
      using tracked_insert [of rb tag ?f "y_rb st"] by (simp add: rb)
    show ?thesis
    proof (rule sys_invI)
      show "ledger (map fst (y_delivered ?st')) (y_left ?st') (y_rb ?st')"
        using ledger_track_new [OF l tag(1) fresh, of rb ?f] by (simp add: rb)
      show "transit_ok (y_rb ?st') (y_phase ?st' = MClosed) (work_items (y_rb ?st') @ y_busy ?st' @ sending (y_phase ?st')) (y_delivered ?st')"
        using tr tag(2) by (auto simp: rb(2) same T sending_def transit_ok_def Let_def)
      show "\<And>i. i \<in> set (work_items (y_rb ?st') @ y_busy ?st' @ sending (y_phase ?st')) \<Longrightarrow> came X (y_delivered ?st') i"
        using D(4) mono by (auto simp: rb(2) same sending_def came_def Inr)
    qed (use D mono in \<open>auto simp: same\<close>)
  qed
qed

lemma sys_inv_send:
  assumes inv: "sys_inv X c st" and ph: "y_phase st = MSending item" and s: "chan_send (work_ch (y_proc st)) item = (Sent, ch)"
  shows "sys_inv X c (with_proc ((y_proc st)\<lparr>work_ch := ch\<rparr>) (st\<lparr>y_phase := MLoop\<rparr>))" (is "sys_inv X c ?st'")
proof -
  have ch: "ch_buf ch = ch_buf (work_ch (y_proc st)) @ [item]" using s by (auto simp: chan_send_def split: if_splits)
  have v: "rb_in_flight (y_rb ?st') = rb_in_flight (y_rb st)" "rb_calls (y_rb ?st') = rb_calls (y_rb st)"
    "outcomes (y_rb ?st') = outcomes (y_rb st)" "work_items (y_rb ?st') = work_items (y_rb st) @ [item]"
    "y_busy ?st' = y_busy st" "y_delivered ?st' = y_delivered st" "y_accepted ?st' = y_accepted st"
    "y_left ?st' = y_left st" "y_phase ?st' = MLoop"
    by (simp_all add: with_proc_def outcomes_def work_items_def ch)
  have T: "tracked (y_rb ?st') = tracked (y_rb st)" using v(1) by (simp add: tracked_def fun_eq_iff)
  note D = sys_invD [OF inv]
  show ?thesis
  proof (rule sys_invI)
    show "ledger (map fst (y_delivered ?st')) (y_left ?st') (y_rb ?st')"
      using D(1) ledger_cong [OF v(1,2)] by (simp add: v)
    show "transit_ok (y_rb ?st') (y_phase ?st' = MClosed) (work_items (y_rb ?st') @ y_busy ?st' @ sending (y_phase ?st')) (y_delivered ?st')"
      using D(2) by (auto simp: transit_ok_def Let_def T v ph sending_def)
  qed (use D in \<open>auto simp: v ph sending_def\<close>)
qed

lemma sys_inv_pick:
  assumes inv: "sys_inv X c st" and r: "chan_recv (work_ch (y_proc st)) = (Item item, ch)"
  shows "sys_inv X c (with_proc (begin_load X c item ((y_proc st)\<lparr>work_ch := ch\<rparr>)) (st\<lparr>y_busy := y_busy st @ [item]\<rparr>))"
    (is "sys_inv X c ?st'")
proof -
  have ch: "ch_buf (work_ch (y_proc st)) = item # ch_buf ch"
    using r by (auto simp: chan_recv_def split: list.splits if_splits)
  note pf = only_world_fields [OF poll_p_only_world [where X = X and c = c and s = "(y_proc st)\<lparr>work_ch := ch\<rparr>"]]
  have v: "rb_in_flight (y_rb ?st') = rb_in_flight (y_rb st)" "rb_calls (y_rb ?st') = rb_calls (y_rb st)"
    "outcomes (y_rb ?st') = outcomes (y_rb st)" "work_items (y_rb st) = item # work_items (y_rb ?st')"
    "y_busy ?st' = y_busy st @ [item]" "y_delivered ?st' = y_delivered st" "y_accepted ?st' = y_accepted st"
    "y_left ?st' = y_left st" "y_phase ?st' = y_phase st"
    by (simp_all add: with_proc_def outcomes_def work_items_def ch begin_load_def Let_def pf)
  have T: "tracked (y_rb ?st') = tracked (y_rb st)" using v(1) by (simp add: tracked_def fun_eq_iff)
  note D = sys_invD [OF inv]
  show ?thesis
  proof (rule sys_invI)
    show "ledger (map fst (y_delivered ?st')) (y_left ?st') (y_rb ?st')"
      using D(1) ledger_cong [OF v(1,2)] by (simp add: v)
    show "transit_ok (y_rb ?st') (y_phase ?st' = MClosed) (work_items (y_rb ?st') @ y_busy ?st' @ sending (y_phase ?st')) (y_delivered ?st')"
      using D(2) unfolding v(3,5-9) v(4) by (auto simp: transit_ok_def Let_def T v(3))
  qed (use D in \<open>auto simp: v\<close>)
qed

text \<open>A worker that finishes an item: the item leaves the worker, its outcome joins the results.\<close>

lemma transit_ok_finish:
  assumes t: "transit_ok rb over (xs @ item # ys) dlv" and T: "tracked rb' = tracked rb"
    and O: "outcomes rb' = outcomes rb \<or> (outcomes rb' = outcomes rb @ [o'] \<and> o_delivery_tag o' = delivery_tag item)"
  shows "transit_ok rb' over (xs @ ys) dlv"
  using O
proof
  assume "outcomes rb' = outcomes rb"
  then show ?thesis using t T by (auto simp: transit_ok_def Let_def)
next
  assume "outcomes rb' = outcomes rb @ [o'] \<and> o_delivery_tag o' = delivery_tag item"
  then show ?thesis using t T by (auto simp: transit_ok_def Let_def)
qed

lemma finish_load_sends:
  assumes "finish_load item act n s = (kg, t)"
  shows "work_ch t = work_ch s" "started t = started s - {delivery_tag item}"
    "ch_buf (result_ch t) = ch_buf (result_ch s) \<or> ch_buf (result_ch t) = ch_buf (result_ch s) @ [outcome_of item act]"
  using assms by (auto simp: finish_load_def send_outcome_p_def chan_blocking_send_def outcome_of_def Let_def
      split: if_splits)

lemma justified_ack:
  assumes "justified X c item act" "is_ack act"
  shows "engine_took X c item"
proof -
  obtain b where b: "from_utf8 (body item) = Some b" using assms
    by (cases "from_utf8 (body item)") (auto simp: justified_def is_ack_def)
  then have "b = body item" by (simp add: from_utf8_def split: if_splits)
  then obtain w w' r where r: "add_record X (data_source (info item)) (record_id (info item)) (body item) (add_flags c) w = (r, w')"
    "act = (case r of Inr resp \<Rightarrow> Ack (if want_info c then Some resp else None)
       | Inl e \<Rightarrow> (if is_bad_input X e \<or> is_retryable X e \<or> error_code X e = Some 82
                   then RejectNoRequeue else Fatal (err_display X e)))"
    using assms(1) b unfolding justified_def by auto
  show ?thesis
  proof (cases r)
    case (Inl e)
    then have "\<not> is_ack act" by (simp add: r(2) is_ack_def)
    with assms(2) show ?thesis by simp
  next
    case (Inr resp)
    then show ?thesis using r(1) unfolding engine_took_def by blast
  qed
qed

lemma outcome_ok_more: "outcome_ok acc o' \<Longrightarrow> outcome_ok (acc @ acc2) o'"
  by (auto simp: outcome_ok_def)

lemma sys_inv_finish:
  assumes inv: "sys_inv X c st" and busy: "y_busy st = as @ item # bs"
    and a: "load_action X c item (y_proc st) = (act, s1)" and f: "finish_load item act n s1 = (kg, s2)"
  shows "sys_inv X c (with_proc s2 (st\<lparr>y_busy := as @ bs,
     y_accepted := y_accepted st @ (case act of Ack _ \<Rightarrow> [item] | _ \<Rightarrow> [])\<rparr>))" (is "sys_inv X c ?st'")
proof -
  note j = load_action_justified [OF a]
  note f1 = only_world_fields [OF conjunct1 [OF j]]
  note e = finish_load_sends(1,3) [OF f, unfolded f1]
  have v: "rb_in_flight (y_rb ?st') = rb_in_flight (y_rb st)" "rb_calls (y_rb ?st') = rb_calls (y_rb st)"
    "work_items (y_rb ?st') = work_items (y_rb st)" "y_busy ?st' = as @ bs" "y_delivered ?st' = y_delivered st"
    "y_left ?st' = y_left st" "y_phase ?st' = y_phase st"
    "y_accepted ?st' = y_accepted st @ (if is_ack act then [item] else [])"
    by (simp_all add: with_proc_def work_items_def e(1)) (cases act; simp add: is_ack_def)
  have O: "outcomes (y_rb ?st') = outcomes (y_rb st) \<or> outcomes (y_rb ?st') = outcomes (y_rb st) @ [outcome_of item act]"
    using e(2) by (simp add: with_proc_def outcomes_def)
  have T: "tracked (y_rb ?st') = tracked (y_rb st)" using v(1) by (simp add: tracked_def fun_eq_iff)
  note D = sys_invD [OF inv]
  have it: "came X (y_delivered st) item" using D(4) [of item] by (simp add: busy)
  then have "delivery_tag item \<in> set (map fst (y_delivered st))" unfolding came_def by force
  then have nz: "delivery_tag item \<noteq> 0" using D(1) unfolding ledger_def by metis
  have ok: "outcome_ok (y_accepted ?st') (outcome_of item act)"
    using nz by (simp add: outcome_ok_def outcome_of_def v(8))
  show ?thesis
  proof (rule sys_invI)
    show "ledger (map fst (y_delivered ?st')) (y_left ?st') (y_rb ?st')"
      using D(1) ledger_cong [OF v(1,2)] by (simp add: v)
    show "transit_ok (y_rb ?st') (y_phase ?st' = MClosed) (work_items (y_rb ?st') @ y_busy ?st' @ sending (y_phase ?st')) (y_delivered ?st')"
      using transit_ok_finish [of "y_rb st" _ "work_items (y_rb st) @ as" item "bs @ sending (y_phase st)"
          "y_delivered st" "y_rb ?st'" "outcome_of item act"] D(2) T O
      by (simp add: v busy outcome_of_def)
    show "\<And>o'. o' \<in> set (outcomes (y_rb ?st')) \<Longrightarrow> outcome_ok (y_accepted ?st') o'"
      using O ok outcome_ok_more [OF D(3), of _ "if is_ack act then [item] else []"] unfolding v(8) by fastforce
    show "\<And>i. i \<in> set (y_accepted ?st') \<Longrightarrow> came X (y_delivered ?st') i \<and> engine_took X c i"
      using D(5) it justified_ack [OF conjunct2 [OF j]] by (auto simp: v(5,8) split: if_splits)
    show "\<And>t. BasicAck t \<in> set (rb_calls (y_rb ?st')) \<Longrightarrow> t \<in> delivery_tag ` set (y_accepted ?st')"
      using D(6) by (auto simp: v(2,8))
    show "\<And>i. i \<in> set (work_items (y_rb ?st') @ y_busy ?st' @ sending (y_phase ?st')) \<Longrightarrow> came X (y_delivered ?st') i"
      using D(4) by (auto simp: v busy)
  qed
qed

lemma sys_inv_fatal:
  assumes inv: "sys_inv X c st"
  shows "sys_inv X c (report_fatal msg st)" (is "sys_inv X c ?st'")
proof -
  let ?o = "\<lparr>o_delivery_tag = 0, o_info = record_info_empty, o_action = Fatal msg\<rparr>"
  have v: "rb_in_flight (y_rb ?st') = rb_in_flight (y_rb st)" "rb_calls (y_rb ?st') = rb_calls (y_rb st)"
    "work_items (y_rb ?st') = work_items (y_rb st)" "y_busy ?st' = y_busy st" "y_delivered ?st' = y_delivered st"
    "y_left ?st' = y_left st" "y_phase ?st' = y_phase st" "y_accepted ?st' = y_accepted st"
    by (simp_all add: report_fatal_def with_proc_def work_items_def)
  have O: "outcomes (y_rb ?st') = outcomes (y_rb st) @ (if ch_rx (result_ch (y_proc st)) then [?o] else [])"
    by (simp add: report_fatal_def with_proc_def outcomes_def signal_fatal_buf)
  have T: "tracked (y_rb ?st') = tracked (y_rb st)" using v(1) by (simp add: tracked_def fun_eq_iff)
  note D = sys_invD [OF inv]
  show ?thesis
  proof (rule sys_invI)
    show "ledger (map fst (y_delivered ?st')) (y_left ?st') (y_rb ?st')"
      using D(1) ledger_cong [OF v(1,2)] by (simp add: v)
    show "transit_ok (y_rb ?st') (y_phase ?st' = MClosed) (work_items (y_rb ?st') @ y_busy ?st' @ sending (y_phase ?st')) (y_delivered ?st')"
      using D(2) T O by (auto simp: v transit_ok_def Let_def)
    show "\<And>o'. o' \<in> set (outcomes (y_rb ?st')) \<Longrightarrow> outcome_ok (y_accepted ?st') o'"
      using D(3) by (auto simp: O v outcome_ok_def is_fatal_def is_ack_def split: if_splits)
  qed (use D in \<open>auto simp: v\<close>)
qed

lemma sys_inv_leaves:
  assumes "sys_inv X c st"
  shows "sys_inv X c (drop_sender (st\<lparr>y_alive := k\<rparr>))" "sys_inv X c (drop_sender (st\<lparr>y_fetcher := f\<rparr>))"
  by (intro sys_inv_same [OF assms];
      auto simp: drop_sender_def with_proc_def work_items_def outcomes_def chan_drop_sender_def)+

lemma sys_inv_monitor:
  assumes inv: "sys_inv X c st"
  shows "sys_inv X c (st\<lparr>y_rb := monitor_long_records now long k (y_rb st)\<rparr>)" (is "sys_inv X c ?st'")
proof -
  note D = sys_invD [OF inv]
  have keys: "keys_ok (y_rb st)" using D(1) by (simp add: ledger_def)
  obtain tags where m: "rb_calls (y_rb ?st') = rb_calls (y_rb st) @ map BasicReject tags"
    "distinct tags" "\<And>t. t \<in> set tags \<Longrightarrow> tracked (y_rb st) t = Some False"
    "map fst (rb_in_flight (y_rb ?st')) = map fst (rb_in_flight (y_rb st))"
    "tracked (y_rb ?st') = (\<lambda>t. if t \<in> set tags then Some True else tracked (y_rb st) t)"
    "same_channels (y_proc st) (y_proc ?st')"
    by (rule monitor_effect [OF keys, of now long k]) (use that in simp)
  have v: "work_items (y_rb ?st') = work_items (y_rb st)" "outcomes (y_rb ?st') = outcomes (y_rb st)"
    using m(6) by (simp_all add: same_channels_def work_items_def outcomes_def)
  have dom': "dom (tracked (y_rb ?st')) = dom (tracked (y_rb st))"
    using m(3) unfolding m(5) by (auto split: if_splits)
  show ?thesis
  proof (rule sys_invI)
    show "ledger (map fst (y_delivered ?st')) (y_left ?st') (y_rb ?st')"
      using ledger_reject_tracked [OF D(1) m(1-3) _ m(5)] keys m(4) by (simp add: keys_ok_def)
    show "transit_ok (y_rb ?st') (y_phase ?st' = MClosed) (work_items (y_rb ?st') @ y_busy ?st' @ sending (y_phase ?st')) (y_delivered ?st')"
      using D(2) unfolding transit_ok_def v dom' by simp
    show "\<And>t. BasicAck t \<in> set (rb_calls (y_rb ?st')) \<Longrightarrow> t \<in> delivery_tag ` set (y_accepted ?st')"
      using D(6) unfolding m(1) by auto
    show "\<And>o'. o' \<in> set (outcomes (y_rb ?st')) \<Longrightarrow> outcome_ok (y_accepted ?st') o'"
      using D(3) unfolding v by simp
    show "\<And>i. i \<in> set (work_items (y_rb ?st') @ y_busy ?st' @ sending (y_phase ?st')) \<Longrightarrow> came X (y_delivered ?st') i"
      using D(4) unfolding v by simp
  qed (use D(5) in simp)
qed

lemma sys_inv_settle:
  assumes inv: "sys_inv X c st" and ph: "y_phase st = MDraining \<or> y_phase st = MLoop"
  shows "sys_inv X c (st\<lparr>y_rb := settle_remaining (y_rb st), y_phase := MClosed,
     y_left := y_left st @ map fst (filter (\<lambda>(t, f). \<not> if_rejected f \<and> t \<notin> started (y_proc st)) (rb_in_flight (y_rb st)))\<rparr>)"
    (is "sys_inv X c ?st'")
proof -
  note D = sys_invD [OF inv]
  have e: "rb_proc (settle_remaining (y_rb st)) = y_proc st"
    "\<exists>ts. rb_calls (settle_remaining (y_rb st)) = rb_calls (y_rb st) @ map BasicReject ts"
    using fold_settle_one [of "started (y_proc st)" "rb_in_flight (y_rb st)" "(y_rb st)\<lparr>rb_in_flight := []\<rparr>"]
    by (auto simp: settle_remaining_def map_map [symmetric] simp del: map_map)
  have v: "work_items (y_rb ?st') = work_items (y_rb st)" "outcomes (y_rb ?st') = outcomes (y_rb st)"
    by (simp_all add: work_items_def outcomes_def e(1))
  have snd: "sending (y_phase st) = []" using ph by (auto simp: sending_def)
  show ?thesis
  proof (rule sys_invI)
    show "ledger (map fst (y_delivered ?st')) (y_left ?st') (y_rb ?st')" using ledger_settle [OF D(1)] by simp
    show "transit_ok (y_rb ?st') (y_phase ?st' = MClosed) (work_items (y_rb ?st') @ y_busy ?st' @ sending (y_phase ?st')) (y_delivered ?st')"
    proof -
      have "sending (y_phase ?st') = []" by (simp add: sending_def)
      then show ?thesis using transit_ok_over [OF D(2)] unfolding transit_ok_def v snd by simp
    qed
    show "\<And>t. BasicAck t \<in> set (rb_calls (y_rb ?st')) \<Longrightarrow> t \<in> delivery_tag ` set (y_accepted ?st')"
      using D(6) e(2) by auto
    show "\<And>o'. o' \<in> set (outcomes (y_rb ?st')) \<Longrightarrow> outcome_ok (y_accepted ?st') o'"
      using D(3) unfolding v by simp
    show "\<And>i. i \<in> set (work_items (y_rb ?st') @ y_busy ?st' @ sending (y_phase ?st')) \<Longrightarrow> came X (y_delivered ?st') i"
      using D(4) unfolding v by (auto simp: sending_def)
  qed (use D(5) in simp)
qed

lemma recv_item: "chan_recv ch = (Item x, ch') \<Longrightarrow> ch_buf ch = x # ch_buf ch'"
  by (auto simp: chan_recv_def split: list.splits if_splits)

lemma with_result_ch_fields [simp]:
  "rb_in_flight (with_result_ch ch rb) = rb_in_flight rb" "rb_calls (with_result_ch ch rb) = rb_calls rb"
  "rb_proc (with_result_ch ch rb) = (rb_proc rb)\<lparr>result_ch := ch\<rparr>"
  "outcome_calls o' (with_result_ch ch rb) = outcome_calls o' rb" "tracked (with_result_ch ch rb) = tracked rb"
  by (simp_all add: with_result_ch_def outcome_calls_def tracked_def fun_eq_iff)

text \<open>An arm that handles an outcome, in the loop and in the drain.\<close>

lemma handled_outcome:
  assumes inv: "sys_inv X c st" and open': "y_phase st = MLoop \<or> y_phase st = MDraining"
    and r: "chan_recv (result_ch (y_proc st)) = (Item o', ch)"
    and rb: "rb_in_flight rb = hm_remove (o_delivery_tag o') (rb_in_flight (with_result_ch ch (y_rb st)))"
      "rb_calls rb = rb_calls (with_result_ch ch (y_rb st)) @ outcome_calls o' (with_result_ch ch (y_rb st))"
      "same_channels (rb_proc (with_result_ch ch (y_rb st))) (rb_proc rb)"
  shows "sys_inv X c (loop_tail rb (st\<lparr>y_left := y_left st @ left_by o' (y_rb st)\<rparr>))"
    "sys_inv X c (st\<lparr>y_rb := rb, y_left := y_left st @ left_by o' (y_rb st)\<rparr>)"
proof -
  have v: "work_items rb = work_items (y_rb st)" "outcomes rb = ch_buf ch" "outcomes (y_rb st) = o' # ch_buf ch"
    using rb(3) recv_item [OF r] by (simp_all add: work_items_def outcomes_def same_channels_def)
  show "sys_inv X c (loop_tail rb (st\<lparr>y_left := y_left st @ left_by o' (y_rb st)\<rparr>))"
    by (rule sys_inv_outcome [OF inv open' v(3)]) (simp_all add: rb v)
  show "sys_inv X c (st\<lparr>y_rb := rb, y_left := y_left st @ left_by o' (y_rb st)\<rparr>)"
    by (rule sys_inv_outcome [OF inv open' v(3)]) (use open' in \<open>auto simp: rb v sending_def\<close>)
qed

lemma sys_inv_tail:
  assumes "sys_inv X c st" "y_phase st \<noteq> MClosed" "rb_in_flight rb = rb_in_flight (y_rb st)"
    "rb_calls rb = rb_calls (y_rb st)" "same_channels (y_proc st) (rb_proc rb)"
  shows "sys_inv X c (loop_tail rb st)"
proof -
  have "work_items rb = work_items (y_rb st)" "outcomes rb = outcomes (y_rb st)"
    using assms(5) by (simp_all add: work_items_def outcomes_def same_channels_def)
  then show ?thesis using assms by (intro sys_inv_same [OF assms(1)]) auto
qed

theorem sys_inv_step:
  assumes "rb_step X c long threads st st'" "sys_inv X c st"
  shows "sys_inv X c st'"
  using assms
proof (cases rule: rb_step.cases)
  case (deliver_bad tag now data rb)
  have "sys_inv X c (st\<lparr>y_rb := rb, y_phase := MLoop, y_delivered := y_delivered st @ [(tag, data)]\<rparr>)"
    using sys_inv_deliver [OF assms(2) deliver_bad(2-5)] by simp
  moreover have "st\<lparr>y_rb := rb, y_phase := MLoop, y_delivered := y_delivered st @ [(tag, data)]\<rparr> = st'"
    unfolding deliver_bad(1) using deliver_bad(2) by (cases st) simp
  ultimately show ?thesis by simp
next
  case (deliver_good tag now data rb item)
  with sys_inv_deliver [OF assms(2) deliver_good(2-5)] show ?thesis by simp
next
  case (stream_ends d now rb)
  then have "rb_in_flight rb = rb_in_flight (y_rb st) \<and> rb_calls rb = rb_calls (y_rb st) \<and> rb_proc rb = y_proc st"
    by (auto simp: on_delivery_def begin_shutdown_def)
  then show ?thesis using stream_ends sys_inv_tail [OF assms(2)] by simp
next
  case (send item ch)
  then show ?thesis using sys_inv_send [OF assms(2)] by simp
next
  case (send_fails item)
  then show ?thesis using sys_inv_tail [OF assms(2)] by simp
next
  case (notified item)
  then show ?thesis using sys_inv_tail [OF assms(2)] by auto
next
  case signal
  then show ?thesis using sys_inv_tail [OF assms(2)] by simp
next
  case (outcome o' ch now)
  then show ?thesis using handled_outcome(1) [OF assms(2) _ outcome(3) on_outcome_effect] by simp
next
  case (monitor now)
  then show ?thesis using sys_inv_monitor [OF assms(2)] by simp
next
  case (drain o' ch)
  then show ?thesis using handled_outcome(2) [OF assms(2) _ drain(4) drain_outcome_effect] by simp
next
  case (settle ch)
  then show ?thesis using sys_inv_settle [OF assms(2)] by blast
next
  case (pick item ch)
  then show ?thesis using sys_inv_pick [OF assms(2)] by simp
next
  case (finish as item bs act s1 elapsed kg s2)
  then show ?thesis using sys_inv_finish [OF assms(2)] by simp
next
  case (worker_fatal msg)
  then show ?thesis using sys_inv_leaves(1) [OF sys_inv_fatal [OF assms(2)]] by simp
next
  case worker_ends
  then show ?thesis using sys_inv_leaves(1) [OF assms(2)] by simp
next
  case (fetcher_fatal msg)
  then show ?thesis using sys_inv_leaves(2) [OF sys_inv_fatal [OF assms(2)]] by simp
next
  case fetcher_ends
  then show ?thesis using sys_inv_leaves(2) [OF assms(2)] by simp
next
  case (elsewhere s)
  then show ?thesis
    by (intro sys_inv_same [OF assms(2)])
      (auto simp: with_proc_def work_items_def outcomes_def same_channels_def)
qed

lemma sys_inv_init: "sys_inv X c (sys_init s now threads fetcher)"
  by (simp add: sys_inv_def sys_init_def rabbit_new_def ledger_def keys_ok_def settled_def tracked_def transit_ok_def
      outcomes_def work_items_def sending_def chan_new_def Let_def fun_eq_iff)

lemma sys_inv_reach:
  assumes "rb_reach X c long threads (sys_init s now k fetcher) st"
  shows "sys_inv X c st"
  using assms by induction (auto intro: sys_inv_init sys_inv_step)

text \<open>Past the settlement nothing is tracked.\<close>

lemma with_proc_fields [simp]:
  "rb_in_flight (y_rb (with_proc s st)) = rb_in_flight (y_rb st)" "y_phase (with_proc s st) = y_phase st"
  "rb_calls (y_rb (with_proc s st)) = rb_calls (y_rb st)" "y_left (with_proc s st) = y_left st"
  "y_proc (with_proc s st) = s" "y_busy (with_proc s st) = y_busy st"
  "y_delivered (with_proc s st) = y_delivered st" "y_accepted (with_proc s st) = y_accepted st"
  "y_alive (with_proc s st) = y_alive st" "y_fetcher (with_proc s st) = y_fetcher st"
  "rb_processed (y_rb (with_proc s st)) = rb_processed (y_rb st)"
  by (simp_all add: with_proc_def)

lemmas leaving_defs = drop_sender_def report_fatal_def

lemma settle_remaining_empty [simp]: "rb_in_flight (settle_remaining rb) = []"
  using fold_settle_one [of "started (rb_proc rb)" "rb_in_flight rb" "rb\<lparr>rb_in_flight := []\<rparr>"]
  by (simp add: settle_remaining_def)

lemma closed_empty_step:
  assumes "rb_step X c long threads st st'" "y_phase st = MClosed \<longrightarrow> rb_in_flight (y_rb st) = []"
  shows "y_phase st' = MClosed \<longrightarrow> rb_in_flight (y_rb st') = []"
  using assms by (elim rb_stepE) (auto simp: leaving_defs)

lemma closed_empty_reach:
  assumes "rb_reach X c long threads (sys_init s now k fetcher) st"
  shows "y_phase st = MClosed \<longrightarrow> rb_in_flight (y_rb st) = []"
  using assms by induction (simp add: sys_init_def, use closed_empty_step in blast)

section \<open>Properties\<close>

text \<open>C5: in every reachable state of the consumer no delivery has been acknowledged or rejected
  twice (the broker would close the channel), and none that was not delivered has been.\<close>

theorem delivery_settled_at_most_once:
  assumes "rb_reach X c long threads (sys_init s now k fetcher) st"
  shows "distinct (map call_tag (rb_calls (y_rb st))) \<and>
    set (map call_tag (rb_calls (y_rb st))) \<subseteq> fst ` set (y_delivered st)"
  using sys_invD(1) [OF sys_inv_reach [OF assms]] unfolding ledger_def settled_def by force

text \<open>C6: a delivery is acknowledged only if its own body was parsed and an \<open>add_record\<close> call of the
  engine with exactly that body, data source and record id returned \<open>Ok\<close>.\<close>

theorem acknowledged_means_loaded:
  assumes "rb_reach X c long threads (sys_init s now k fetcher) st" "BasicAck t \<in> set (rb_calls (y_rb st))"
  shows "\<exists>data ri w w' resp. (t, data) \<in> set (y_delivered st) \<and> parse_record (json_parse X) data = Ok ri \<and>
    add_record X (data_source ri) (record_id ri) data (add_flags c) w = (Ok resp, w')"
proof -
  note D = sys_invD [OF sys_inv_reach [OF assms(1)]]
  from D(6) [OF assms(2)] obtain i where i: "i \<in> set (y_accepted st)" "t = delivery_tag i" by blast
  then show ?thesis using D(5) [OF i(1)] unfolding came_def engine_took_def by blast
qed

text \<open>C7: no delivery is forgotten. Every delivery has been settled, is still tracked, or was left
  unacknowledged for the broker to redeliver, and what was left was never settled. A tracked delivery
  has been settled exactly if it is marked rejected. Once the task is past its final settlement
  nothing is tracked: each delivery was acknowledged, rejected or left to the broker.\<close>

theorem no_delivery_is_lost:
  assumes "rb_reach X c long threads (sys_init s now k fetcher) st"
  shows "fst ` set (y_delivered st) =
      call_tag ` set (rb_calls (y_rb st)) \<union> fst ` set (rb_in_flight (y_rb st)) \<union> set (y_left st) \<and>
    set (y_left st) \<inter> call_tag ` set (rb_calls (y_rb st)) = {} \<and>
    (\<forall>(t, f) \<in> set (rb_in_flight (y_rb st)). if_rejected f \<longleftrightarrow> t \<in> call_tag ` set (rb_calls (y_rb st))) \<and>
    (y_phase st = MClosed \<longrightarrow> rb_in_flight (y_rb st) = [])"
proof (intro conjI)
  have l: "ledger (map fst (y_delivered st)) (y_left st) (y_rb st)"
    using sys_invD(1) [OF sys_inv_reach [OF assms]] .
  have S: "set (settled (y_rb st)) = call_tag ` set (rb_calls (y_rb st))" by (simp add: settled_def)
  have T: "dom (tracked (y_rb st)) = fst ` set (rb_in_flight (y_rb st))"
    by (simp add: tracked_def dom_map_of_conv_image_fst [symmetric] dom_def)
  show "fst ` set (y_delivered st) =
      call_tag ` set (rb_calls (y_rb st)) \<union> fst ` set (rb_in_flight (y_rb st)) \<union> set (y_left st)"
    using l unfolding ledger_def S T by simp
  show "set (y_left st) \<inter> call_tag ` set (rb_calls (y_rb st)) = {}" using l unfolding ledger_def S by blast
  show "\<forall>(t, f) \<in> set (rb_in_flight (y_rb st)). if_rejected f \<longleftrightarrow> t \<in> call_tag ` set (rb_calls (y_rb st))"
  proof (clarify)
    fix t f assume "(t, f) \<in> set (rb_in_flight (y_rb st))"
    then have "tracked (y_rb st) t = Some (if_rejected f)" using l by (simp add: ledger_def keys_ok_def tracked_def)
    then show "if_rejected f \<longleftrightarrow> t \<in> call_tag ` set (rb_calls (y_rb st))" using l unfolding ledger_def S by blast
  qed
  show "y_phase st = MClosed \<longrightarrow> rb_in_flight (y_rb st) = []" using closed_empty_reach [OF assms] .
qed

section \<open>A run of the concrete instance\<close>

definition demo_sys :: "demo_world sys" where
  "demo_sys = sys_init demo_proc 0 1 False"

lemma finish_load_result:
  "ch_rx (result_ch s) \<Longrightarrow> finish_load item act n s = (kg, t) \<Longrightarrow>
     result_ch t = (result_ch s)\<lparr>ch_buf := ch_buf (result_ch s) @ [outcome_of item act]\<rparr>"
  by (auto simp: finish_load_def send_outcome_p_def chan_blocking_send_def outcome_of_def Let_def)

lemma demo_action:
  assumes "load_action demo_ext demo_ctx demo_item s = (act, t)"
  shows "act = Ack (Some ''done'')"
  using load_action_justified [OF assms]
  by (simp add: justified_def demo_item_def demo_ctx_def demo_ext_def from_utf8_def)

text \<open>The record is delivered, sent, picked up, loaded, and its outcome waits in the channel.\<close>

lemma demo_loaded:
  "\<exists>st ch. rb_reach demo_ext demo_ctx 1 1 demo_sys st \<and> y_phase st = MLoop \<and> rb_calls (y_rb st) = [] \<and>
     y_delivered st = [(1, ''r1'')] \<and> y_accepted st = [demo_item] \<and> y_left st = [] \<and>
     fst ` set (rb_in_flight (y_rb st)) = {1} \<and> tracked (y_rb st) 1 = Some False \<and> started (y_proc st) = {} \<and>
     chan_recv (result_ch (y_proc st)) = (Item (outcome_of demo_item (Ack (Some ''done''))), ch) \<and>
     \<not> rb_shutting_down (y_rb st)"
proof -
  let ?f = "\<lparr>if_info = info demo_item, if_started = 0, if_rejected = False\<rparr>"
  define rb1 where "rb1 = (y_rb demo_sys)\<lparr>rb_in_flight := [(1, ?f)]\<rparr>"
  define s1 where "s1 = demo_sys\<lparr>y_rb := rb1, y_phase := MSending demo_item, y_delivered := [(1, ''r1'')]\<rparr>"
  have parse: "parse_record (json_parse demo_ext) ''r1'' = Ok (info demo_item)"
    by (simp add: parse_record_def demo_ext_def demo_json_def get_field_def demo_item_def)
  have "on_delivery (json_parse demo_ext) 0 (Delivery 1 ''r1'') (y_rb demo_sys) = (rb1, Some demo_item)"
    by (simp add: on_delivery_def parse rb1_def demo_sys_def sys_init_def rabbit_new_def hm_insert_def hm_remove_def demo_item_def)
  from rb_step.deliver_good [OF _ _ _ this] have 1: "rb_step demo_ext demo_ctx 1 1 demo_sys s1"
    by (simp add: s1_def demo_sys_def sys_init_def)
  define p2 where "p2 = (y_proc s1)\<lparr>work_ch := (work_ch (y_proc s1))\<lparr>ch_buf := [demo_item]\<rparr>\<rparr>"
  define s2 where "s2 = with_proc p2 (s1\<lparr>y_phase := MLoop\<rparr>)"
  have ch1: "work_ch (y_proc s1) = chan_new 1 1" "result_ch (y_proc s1) = chan_new 2 1" "y_phase s1 = MSending demo_item"
    "started (y_proc s1) = {}" "y_busy s1 = []" "y_accepted s1 = []" "y_left s1 = []" "rb_calls (y_rb s1) = []"
    by (simp_all add: s1_def rb1_def demo_sys_def sys_init_def rabbit_new_def)
  have "chan_send (work_ch (y_proc s1)) demo_item = (Sent, (work_ch (y_proc s1))\<lparr>ch_buf := [demo_item]\<rparr>)"
    by (simp add: ch1 chan_send_def chan_new_def)
  from rb_step.send [OF ch1(3) this] have 2: "rb_step demo_ext demo_ctx 1 1 s1 s2" by (simp add: s2_def p2_def)
  have "chan_recv (work_ch (y_proc s2)) = (Item demo_item, chan_new 1 1)"
    by (simp add: s2_def p2_def ch1 chan_new_def chan_recv_def)
  define s3 where "s3 = with_proc (begin_load demo_ext demo_ctx demo_item ((y_proc s2)\<lparr>work_ch := chan_new 1 1\<rparr>))
    (s2\<lparr>y_busy := y_busy s2 @ [demo_item]\<rparr>)"
  have 3: "rb_step demo_ext demo_ctx 1 1 s2 s3"
    unfolding s3_def by (rule rb_step.pick, fact) (simp add: s2_def s1_def y_idle_def demo_sys_def sys_init_def with_proc_def)
  note pf = only_world_fields [OF poll_p_only_world]
  have p3: "result_ch (y_proc s3) = chan_new 2 1" "started (y_proc s3) = {1}" "y_busy s3 = [] @ demo_item # []"
    by (simp_all add: s3_def s2_def p2_def begin_load_def Let_def pf ch1 demo_item_def)
  obtain act q where la: "load_action demo_ext demo_ctx demo_item (y_proc s3) = (act, q)" by fastforce
  have act: "act = Ack (Some ''done'')" using demo_action [OF la] .
  note qf = only_world_fields [OF conjunct1 [OF load_action_justified [OF la]]]
  obtain kg r where fl: "finish_load demo_item act 0 q = (kg, r)" by fastforce
  define s4 where "s4 = with_proc r (s3\<lparr>y_busy := [] @ [], y_accepted := y_accepted s3 @ [demo_item]\<rparr>)"
  have 4: "rb_step demo_ext demo_ctx 1 1 s3 s4"
    using rb_step.finish [OF p3(3) la fl] by (simp add: s4_def act)
  have st4: "started r = {}"
    using finish_load_sends(2) [OF fl] by (simp add: qf p3(2) demo_item_def)
  have res4: "chan_recv (result_ch r) = (Item (outcome_of demo_item (Ack (Some ''done''))), chan_new 2 1)"
    using finish_load_result [OF _ fl] by (simp add: qf p3(1) chan_recv_def chan_new_def act)
  have "rb_reach demo_ext demo_ctx 1 1 demo_sys s4"
    by (intro rb_reach.step [OF _ 4] rb_reach.step [OF _ 3] rb_reach.step [OF _ 2] rb_reach.step [OF _ 1] rb_reach.start)
  moreover have "y_phase s4 = MLoop" "rb_calls (y_rb s4) = []" "y_delivered s4 = [(1, ''r1'')]"
    "y_accepted s4 = [demo_item]" "y_left s4 = []" "rb_in_flight (y_rb s4) = [(1, ?f)]" "\<not> rb_shutting_down (y_rb s4)"
    by (simp_all add: s4_def s3_def s2_def ch1) (simp_all add: s1_def rb1_def demo_sys_def sys_init_def rabbit_new_def with_proc_def)
  ultimately show ?thesis using st4 res4
    by (intro exI [of _ s4] exI [of _ "chan_new 2 1"]) (simp add: s4_def tracked_def)
qed

text \<open>Its outcome is handled: the delivery is acknowledged.\<close>

lemma demo_acked:
  "\<exists>st. rb_reach demo_ext demo_ctx 1 1 demo_sys st \<and> rb_calls (y_rb st) = [BasicAck 1] \<and>
     y_delivered st = [(1, ''r1'')]"
proof -
  obtain st ch where r: "rb_reach demo_ext demo_ctx 1 1 demo_sys st" "y_phase st = MLoop" "rb_calls (y_rb st) = []"
    "y_delivered st = [(1, ''r1'')]" "tracked (y_rb st) 1 = Some False"
    "chan_recv (result_ch (y_proc st)) = (Item (outcome_of demo_item (Ack (Some ''done''))), ch)"
    using demo_loaded by blast
  let ?o = "outcome_of demo_item (Ack (Some ''done''))"
  let ?st = "loop_tail (on_outcome 0 ?o (with_result_ch ch (y_rb st))) (st\<lparr>y_left := y_left st @ left_by ?o (y_rb st)\<rparr>)"
  have "rb_reach demo_ext demo_ctx 1 1 demo_sys ?st"
    using rb_reach.step [OF r(1) rb_step.outcome [OF r(2,6)]] .
  moreover have "rb_calls (y_rb ?st) = [BasicAck 1]"
    by (simp add: on_outcome_effect r(3) outcome_calls_def outcome_of_def demo_item_def r(5))
  ultimately show ?thesis using r(4) by (intro exI [of _ ?st]) simp
qed

theorem delivery_settled_at_most_once_witness:
  "\<exists>st. rb_reach demo_ext demo_ctx 1 1 demo_sys st \<and> rb_calls (y_rb st) = [BasicAck 1] \<and>
     distinct (map call_tag (rb_calls (y_rb st)))"
proof -
  obtain st where st: "rb_reach demo_ext demo_ctx 1 1 demo_sys st" "rb_calls (y_rb st) = [BasicAck 1]"
    using demo_acked by blast
  from delivery_settled_at_most_once [OF st(1) [unfolded demo_sys_def]] st show ?thesis by blast
qed

theorem acknowledged_means_loaded_witness:
  "\<exists>ri w w' resp. parse_record demo_json ''r1'' = Ok ri \<and>
     add_record demo_ext (data_source ri) (record_id ri) ''r1'' (Some 0) w = (Ok resp, w')"
proof -
  obtain st where st: "rb_reach demo_ext demo_ctx 1 1 demo_sys st" "rb_calls (y_rb st) = [BasicAck 1]"
    "y_delivered st = [(1, ''r1'')]"
    using demo_acked by blast
  from acknowledged_means_loaded [OF st(1) [unfolded demo_sys_def], of 1] st(2,3) show ?thesis
    by (simp add: demo_ctx_def demo_ext_def)
qed

theorem no_delivery_is_lost_witness:
  "\<exists>st. rb_reach demo_ext demo_ctx 1 1 demo_sys st \<and> y_delivered st = [(1, ''r1'')] \<and>
     1 \<in> call_tag ` set (rb_calls (y_rb st)) \<union> fst ` set (rb_in_flight (y_rb st)) \<union> set (y_left st)"
proof -
  obtain st where st: "rb_reach demo_ext demo_ctx 1 1 demo_sys st" "y_delivered st = [(1, ''r1'')]"
    using demo_acked by blast
  from conjunct1 [OF no_delivery_is_lost [OF st(1) [unfolded demo_sys_def]]] st(2)
  have "1 \<in> call_tag ` set (rb_calls (y_rb st)) \<union> fst ` set (rb_in_flight (y_rb st)) \<union> set (y_left st)" by auto
  with st show ?thesis by blast
qed

text \<open>The final settlement takes a delivery absent from the started set for one that no worker
  has begun. A worker that finished after the drain gave up has left that set too, so a delivery the
  engine has loaded can be left unacknowledged, and the broker delivers it again.\<close>

theorem loaded_delivery_can_be_redelivered:
  "\<exists>st. rb_reach demo_ext demo_ctx 1 1 (sys_init demo_proc 0 1 False) st \<and> y_phase st = MClosed \<and>
     demo_item \<in> set (y_accepted st) \<and> delivery_tag demo_item \<in> set (y_left st)"
proof -
  obtain st where r: "rb_reach demo_ext demo_ctx 1 1 demo_sys st" "y_phase st = MLoop" "y_accepted st = [demo_item]"
    "tracked (y_rb st) 1 = Some False" "started (y_proc st) = {}"
    using demo_loaded by blast
  let ?sig = "loop_tail (on_signal (y_rb st)) st"
  have sig: "rb_reach demo_ext demo_ctx 1 1 demo_sys ?sig"
    using rb_reach.step [OF r(1) rb_step.signal [OF r(2)]] .
  have ph: "y_phase ?sig = MDraining" by (simp add: loop_tail_def on_signal_def)
  obtain f where f: "map_of (rb_in_flight (y_rb st)) 1 = Some f" "\<not> if_rejected f"
    using r(4) by (auto simp: tracked_def)
  let ?fin = "?sig\<lparr>y_rb := settle_remaining (y_rb ?sig), y_phase := MClosed,
    y_left := y_left ?sig @ map fst (filter (\<lambda>(t, f). \<not> if_rejected f \<and> t \<notin> started (y_proc ?sig)) (rb_in_flight (y_rb ?sig)))\<rparr>"
  have "rb_reach demo_ext demo_ctx 1 1 demo_sys ?fin"
    using rb_reach.step [OF sig rb_step.settle [OF disjI1 [OF ph]]] .
  moreover have "1 \<in> set (y_left ?fin)"
    using map_of_SomeD [OF f(1)] f(2) r(5) by (force simp: image_iff)
  moreover have "demo_item \<in> set (y_accepted ?fin)" using r(3) by simp
  ultimately show ?thesis unfolding demo_sys_def by (intro exI [of _ ?fin]) (simp add: demo_item_def)
qed

end
