(* ===== verification/Sz_Progress.thy ===== *)
theory Sz_Progress
  imports Sz_Prelude
begin

text \<open>
  Progress of a system of events, for any schedule of its threads. A system has a measure of the work
  left that no event increases, and as long as the system is not over some event decreases it. Then a
  schedule makes at most as many productive steps as the measure says, and the end can always be reached.
\<close>

section \<open>Runs of a system of events\<close>

fun run_of :: "('s \<Rightarrow> 'e \<Rightarrow> 's option) \<Rightarrow> 's \<Rightarrow> 'e list \<Rightarrow> 's option" where
  "run_of next s [] = Some s"
| "run_of next s (e # es) = (case next s e of None \<Rightarrow> None | Some s' \<Rightarrow> run_of next s' es)"

text \<open>The number of productive steps of a run: those that decrease the measure.\<close>

fun strides :: "('s \<Rightarrow> 'e \<Rightarrow> 's option) \<Rightarrow> ('s \<Rightarrow> nat) \<Rightarrow> 's \<Rightarrow> 'e list \<Rightarrow> nat" where
  "strides next left s [] = 0"
| "strides next left s (e # es) =
     (case next s e of
        None \<Rightarrow> 0
      | Some s' \<Rightarrow> (if left s' < left s then 1 else 0) + strides next left s' es)"

definition can_advance :: "('s \<Rightarrow> 'e \<Rightarrow> 's option) \<Rightarrow> ('s \<Rightarrow> nat) \<Rightarrow> 's \<Rightarrow> bool" where
  "can_advance next left s \<longleftrightarrow> (\<exists>e s'. next s e = Some s' \<and> left s' < left s)"

lemma run_of_append:
  "run_of next s (es @ es') = (case run_of next s es of None \<Rightarrow> None | Some s' \<Rightarrow> run_of next s' es')"
  by (induction es arbitrary: s) (auto split: option.split)

section \<open>The interface\<close>

locale progress =
  fixes "next" :: "'s \<Rightarrow> 'e \<Rightarrow> 's option" and inv :: "'s \<Rightarrow> bool" and over :: "'s \<Rightarrow> bool" and left :: "'s \<Rightarrow> nat"
  assumes inv_next: "inv s \<Longrightarrow> next s e = Some s' \<Longrightarrow> inv s'"
    and never_back: "inv s \<Longrightarrow> next s e = Some s' \<Longrightarrow> left s' \<le> left s"
    and advance: "inv s \<Longrightarrow> \<not> over s \<Longrightarrow> can_advance next left s"
begin

lemma inv_run: "run_of next s es = Some s' \<Longrightarrow> inv s \<Longrightarrow> inv s'"
  by (induction es arbitrary: s) (auto split: option.splits dest: inv_next)

lemma strides_bound:
  "run_of next s es = Some s' \<Longrightarrow> inv s \<Longrightarrow> strides next left s es + left s' \<le> left s"
proof (induction es arbitrary: s)
  case (Cons e es)
  then obtain s1 where s1: "next s e = Some s1" "run_of next s1 es = Some s'" by (auto split: option.splits)
  have "strides next left s1 es + left s' \<le> left s1" using Cons.IH [OF s1(2)] inv_next [OF Cons.prems(2) s1(1)] .
  then show ?case using never_back [OF Cons.prems(2) s1(1)] by (simp add: s1(1))
qed simp

lemma over_or_advance: "run_of next s es = Some s' \<Longrightarrow> inv s \<Longrightarrow> over s' \<or> can_advance next left s'"
  using advance inv_run by blast

lemma can_finish: "inv s \<Longrightarrow> \<exists>es s'. run_of next s es = Some s' \<and> over s' \<and> length es \<le> left s"
proof (induction "left s" arbitrary: s rule: less_induct)
  case less
  show ?case
  proof (cases "over s")
    case True
    then show ?thesis by (intro exI [of _ "[]"]) simp
  next
    case False
    then obtain e s1 where s1: "next s e = Some s1" "left s1 < left s"
      using advance [OF less.prems] by (auto simp: can_advance_def)
    obtain es s' where "run_of next s1 es = Some s'" "over s'" "length es \<le> left s1"
      using less.hyps [OF s1(2) inv_next [OF less.prems s1(1)]] by blast
    then show ?thesis using s1 by (intro exI [of _ "e # es"] exI [of _ s']) simp
  qed
qed

end

end
