(* ===== verification/Sz_Contract.thy ===== *)
theory Sz_Contract
  imports Sz_Worker Sz_Progress
begin

text \<open>
  The contract of a consumer with its queue, independent of the broker, as a small machine that executes
  what the consumer does to its messages: a message arrives once and is pending until it is settled
  (loaded, refused, or skipped because there is nothing in it) or left to its source, and nothing happens
  to it after that. A consumer refines it when every step of the program is exactly the actions the step
  stands for; then what the program reports can be computed from the actions alone.
\<close>

section \<open>The abstract consumer\<close>

datatype verdict = Accepted | Refused | Ignored

datatype k_act = Arrive u64 | Settle verdict u64 | Leave u64

record contract =
  k_pending :: "u64 set"
  k_settled :: "u64 list"
  k_left :: "u64 set"

definition k_known :: "contract \<Rightarrow> u64 set" where
  "k_known k = k_pending k \<union> set (k_settled k) \<union> k_left k"

definition k_init :: contract where
  "k_init = \<lparr>k_pending = {}, k_settled = [], k_left = {}\<rparr>"

text \<open>\<open>None\<close> is an action the contract forbids: a message that is not new arrives, or one that is not pending
  is settled or left.\<close>

fun k_do :: "contract \<Rightarrow> k_act \<Rightarrow> contract option" where
  "k_do k (Arrive t) =
     (if t \<in> k_known k then None else Some (k\<lparr>k_pending := insert t (k_pending k)\<rparr>))"
| "k_do k (Settle v t) =
     (if t \<in> k_pending k then Some (k\<lparr>k_pending := k_pending k - {t}, k_settled := k_settled k @ [t]\<rparr>) else None)"
| "k_do k (Leave t) =
     (if t \<in> k_pending k then Some (k\<lparr>k_pending := k_pending k - {t}, k_left := insert t (k_left k)\<rparr>) else None)"

abbreviation k_run :: "contract \<Rightarrow> k_act list \<Rightarrow> contract option" where
  "k_run \<equiv> run_of k_do"

lemma k_run_append: "k_run k as = Some k' \<Longrightarrow> k_run k (as @ bs) = k_run k' bs"
  by (simp add: run_of_append)

definition k_ok :: "contract \<Rightarrow> bool" where
  "k_ok k \<longleftrightarrow> distinct (k_settled k) \<and> k_pending k \<inter> set (k_settled k) = {} \<and>
     k_pending k \<inter> k_left k = {} \<and> set (k_settled k) \<inter> k_left k = {}"

lemma k_ok_init [simp]: "k_ok k_init"
  by (simp add: k_ok_def k_init_def)

lemma k_ok_do: "k_do k a = Some k' \<Longrightarrow> k_ok k \<Longrightarrow> k_ok k'"
  by (cases a) (auto simp: k_ok_def k_known_def split: if_splits)

lemma k_ok_run: "k_run k as = Some k' \<Longrightarrow> k_ok k \<Longrightarrow> k_ok k'"
  by (induction as arbitrary: k) (auto split: option.splits dest: k_ok_do)

section \<open>What a sequence of actions amounts to\<close>

fun arrivals :: "k_act list \<Rightarrow> u64 list" where
  "arrivals [] = []"
| "arrivals (Arrive t # as) = t # arrivals as"
| "arrivals (_ # as) = arrivals as"

fun settlements :: "k_act list \<Rightarrow> (verdict \<times> u64) list" where
  "settlements [] = []"
| "settlements (Settle v t # as) = (v, t) # settlements as"
| "settlements (_ # as) = settlements as"

fun departures :: "k_act list \<Rightarrow> u64 list" where
  "departures [] = []"
| "departures (Leave t # as) = t # departures as"
| "departures (_ # as) = departures as"

definition verdicts :: "verdict \<Rightarrow> k_act list \<Rightarrow> nat" where
  "verdicts v as = length (filter (\<lambda>x. fst x = v) (settlements as))"

lemma arrivals_append [simp]: "arrivals (as @ bs) = arrivals as @ arrivals bs"
  by (induction as rule: arrivals.induct) auto

lemma settlements_append [simp]: "settlements (as @ bs) = settlements as @ settlements bs"
  by (induction as rule: settlements.induct) auto

lemma departures_append [simp]: "departures (as @ bs) = departures as @ departures bs"
  by (induction as rule: departures.induct) auto

lemma verdicts_append [simp]: "verdicts v (as @ bs) = verdicts v as + verdicts v bs"
  by (simp add: verdicts_def)

lemma verdicts_simps [simp]:
  "verdicts v [] = 0" "verdicts v (Arrive t # as) = verdicts v as" "verdicts v (Leave t # as) = verdicts v as"
  "verdicts v (Settle v' t # as) = (if v' = v then 1 else 0) + verdicts v as"
  by (simp_all add: verdicts_def)

lemma k_run_amounts:
  "k_run k as = Some k' \<Longrightarrow>
     k_settled k' = k_settled k @ map snd (settlements as) \<and> k_left k' = k_left k \<union> set (departures as) \<and>
     k_known k' = k_known k \<union> set (arrivals as)"
proof (induction as arbitrary: k)
  case (Cons a as)
  obtain k1 where k1: "k_do k a = Some k1" "k_run k1 as = Some k'" using Cons.prems by (auto split: option.splits)
  have "k_settled k1 = k_settled k @ map snd (settlements [a]) \<and> k_left k1 = k_left k \<union> set (departures [a]) \<and>
      k_known k1 = k_known k \<union> set (arrivals [a])"
    using k1(1) by (cases a) (auto simp: k_known_def split: if_splits)
  moreover have "settlements (a # as) = settlements [a] @ settlements as" "departures (a # as) = departures [a] @ departures as"
    "arrivals (a # as) = arrivals [a] @ arrivals as"
    by (cases a; simp)+
  ultimately show ?case using Cons.IH [OF k1(2)] by auto
qed simp

text \<open>No message arrives twice.\<close>

lemma k_run_arrivals: "k_run k as = Some k' \<Longrightarrow> distinct (arrivals as) \<and> set (arrivals as) \<inter> k_known k = {}"
proof (induction as arbitrary: k)
  case (Cons a as)
  obtain k1 where k1: "k_do k a = Some k1" "k_run k1 as = Some k'" using Cons.prems by (auto split: option.splits)
  then show ?case using Cons.IH [OF k1(2)] by (cases a) (auto simp: k_known_def split: if_splits)
qed simp

lemma k_settle_many:
  "distinct ts \<Longrightarrow> set ts \<subseteq> k_pending k \<Longrightarrow>
     k_run k (map (Settle v) ts) = Some (k\<lparr>k_pending := k_pending k - set ts, k_settled := k_settled k @ ts\<rparr>)"
proof (induction ts arbitrary: k)
  case (Cons t ts)
  let ?k = "k\<lparr>k_pending := k_pending k - {t}, k_settled := k_settled k @ [t]\<rparr>"
  have "k_run ?k (map (Settle v) ts) = Some (?k\<lparr>k_pending := k_pending ?k - set ts, k_settled := k_settled ?k @ ts\<rparr>)"
    by (rule Cons.IH) (use Cons.prems in auto)
  moreover have "k_pending ?k - set ts = k_pending k - set (t # ts)" by auto
  ultimately show ?case using Cons.prems by simp
qed simp

section \<open>How far a message has come\<close>

text \<open>Unknown to the consumer, pending, or over (settled or left), in this order.\<close>

datatype standing = Unseen | Pending | Over

definition rank :: "standing \<Rightarrow> nat" where
  "rank x = (case x of Unseen \<Rightarrow> 0 | Pending \<Rightarrow> 1 | Over \<Rightarrow> 2)"

instantiation standing :: linorder
begin

definition less_eq_standing :: "standing \<Rightarrow> standing \<Rightarrow> bool" where
  "less_eq_standing x y \<longleftrightarrow> rank x \<le> rank y"

definition less_standing :: "standing \<Rightarrow> standing \<Rightarrow> bool" where
  "less_standing x y \<longleftrightarrow> rank x < rank y"

instance
proof
  fix x y :: standing
  show "x \<le> y \<Longrightarrow> y \<le> x \<Longrightarrow> x = y"
    by (cases x; cases y) (simp_all add: less_eq_standing_def rank_def)
qed (auto simp: less_eq_standing_def less_standing_def)

end

definition standing_of :: "contract \<Rightarrow> u64 \<Rightarrow> standing" where
  "standing_of k t =
     (if t \<in> set (k_settled k) \<or> t \<in> k_left k then Over else if t \<in> k_pending k then Pending else Unseen)"

lemma standing_Unseen: "Unseen \<le> x"
  by (simp add: less_eq_standing_def rank_def)

lemma standing_Over: "x \<le> Over"
  by (cases x) (simp_all add: less_eq_standing_def rank_def)

lemma standing_do: "k_do k a = Some k' \<Longrightarrow> standing_of k t \<le> standing_of k' t"
  by (cases a) (auto simp: standing_of_def k_known_def standing_Unseen standing_Over split: if_splits)

lemma standing_run: "k_run k as = Some k' \<Longrightarrow> standing_of k t \<le> standing_of k' t"
  by (induction as arbitrary: k) (auto split: option.splits intro: order_trans dest: standing_do [of _ _ _ t])

section \<open>The actions of an outcome\<close>

text \<open>A body that is not a record is settled where it arrives.\<close>

definition malformed :: "('w, 'e) ext \<Rightarrow> string \<Rightarrow> bool" where
  "malformed X data \<longleftrightarrow> is_err (parse_record (json_parse X) data)"

text \<open>The sentinel of a thread without a message has tag 0.\<close>

definition outcome_acts :: "outcome \<Rightarrow> k_act list" where
  "outcome_acts o' =
     (let t = o_delivery_tag o'
      in if t = 0 then []
         else case o_action o' of
                Ack _ \<Rightarrow> [Settle Accepted t]
              | RejectNoRequeue \<Rightarrow> [Settle Refused t]
              | Fatal _ \<Rightarrow> [Leave t])"

text \<open>What the actions say of the messages that have come in and of the two counters of the adds.\<close>

fun count_act :: "k_act \<Rightarrow> u64 list \<times> usize \<times> usize \<Rightarrow> u64 list \<times> usize \<times> usize" where
  "count_act (Arrive t) (ids, p, r) = (ids @ [t], p, r)"
| "count_act (Settle Accepted _) (ids, p, r) = (ids, p + 1, r)"
| "count_act (Settle Refused _) (ids, p, r) = (ids, p, r + 1)"
| "count_act _ (ids, p, r) = (ids, p, r)"

lemma fold_count_act:
  "fold count_act as (ids, p, r) = (ids @ arrivals as, p + of_nat (verdicts Accepted as), r + of_nat (verdicts Refused as))"
proof (induction as arbitrary: ids p r)
  case (Cons a as)
  show ?case
  proof (cases a)
    case (Settle v t)
    with Cons show ?thesis by (cases v) simp_all
  qed (simp_all add: Cons)
qed simp

text \<open>A worker leaves these counters alone.\<close>

definition same_adds :: "'w proc \<Rightarrow> 'w proc \<Rightarrow> bool" where
  "same_adds s t \<longleftrightarrow> ADDS_PROCESSED (glob t) = ADDS_PROCESSED (glob s) \<and> ADDS_REJECTED (glob t) = ADDS_REJECTED (glob s)"

lemma finish_load_adds: "same_adds s (snd (finish_load item act n s))"
  by (simp add: same_adds_def finish_load_def send_outcome_p_def Let_def mark_fatal_def split: prod.split)

lemma signal_fatal_adds: "same_adds s (signal_fatal msg (s\<lparr>glob := mark_fatal (glob s)\<rparr>))"
  by (simp add: same_adds_def signal_fatal_def send_outcome_p_def Let_def mark_fatal_def split: prod.split)

section \<open>The interface of a consumer\<close>

text \<open>The actions of a run, event by event.\<close>

fun trace_of :: "('s \<Rightarrow> 'e \<Rightarrow> 's option) \<Rightarrow> ('s \<Rightarrow> 'e \<Rightarrow> k_act list) \<Rightarrow> 's \<Rightarrow> 'e list \<Rightarrow> k_act list" where
  "trace_of step acts s [] = []"
| "trace_of step acts s (e # es) =
     (case step s e of None \<Rightarrow> [] | Some s' \<Rightarrow> acts s e @ trace_of step acts s' es)"

text \<open>
  A consumer is a machine of events with an invariant, the actions each event stands for in the state it
  meets, and an abstraction under which the step does exactly these actions.
\<close>

locale consumer =
  fixes step :: "'s \<Rightarrow> 'e \<Rightarrow> 's option" and inv :: "'s \<Rightarrow> bool" and acts :: "'s \<Rightarrow> 'e \<Rightarrow> k_act list"
    and abstr :: "'s \<Rightarrow> contract"
  assumes inv_step: "inv s \<Longrightarrow> step s e = Some s' \<Longrightarrow> inv s'"
    and simulates: "inv s \<Longrightarrow> step s e = Some s' \<Longrightarrow> k_run (abstr s) (acts s e) = Some (abstr s')"
begin

lemma inv_run: "run_of step s es = Some s' \<Longrightarrow> inv s \<Longrightarrow> inv s'"
  by (induction es arbitrary: s) (auto split: option.splits dest: inv_step)

lemma refines: "run_of step s es = Some s' \<Longrightarrow> inv s \<Longrightarrow> k_run (abstr s) (trace_of step acts s es) = Some (abstr s')"
proof (induction es arbitrary: s)
  case (Cons e es)
  then obtain s1 where s1: "step s e = Some s1" "run_of step s1 es = Some s'" by (auto split: option.splits)
  have "k_run (abstr s1) (trace_of step acts s1 es) = Some (abstr s')"
    using Cons.IH [OF s1(2)] inv_step [OF Cons.prems(2) s1(1)] .
  then show ?case using k_run_append [OF simulates [OF Cons.prems(2) s1(1)]] by (simp add: s1(1))
qed simp

lemma never_goes_back:
  "run_of step s es = Some s' \<Longrightarrow> inv s \<Longrightarrow> standing_of (abstr s) t \<le> standing_of (abstr s') t"
  by (rule standing_run [OF refines])

end

text \<open>A consumer with something to observe (calls, counters, a watermark) that only its actions change.\<close>

locale observed_consumer = consumer step inv acts abstr
  for step :: "'s \<Rightarrow> 'e \<Rightarrow> 's option" and inv acts abstr +
  fixes obs :: "'s \<Rightarrow> 'o" and upd :: "k_act \<Rightarrow> 'o \<Rightarrow> 'o"
  assumes observes: "inv s \<Longrightarrow> step s e = Some s' \<Longrightarrow> obs s' = fold upd (acts s e) (obs s)"
begin

lemma observation: "run_of step s es = Some s' \<Longrightarrow> inv s \<Longrightarrow> obs s' = fold upd (trace_of step acts s es) (obs s)"
proof (induction es arbitrary: s)
  case (Cons e es)
  then obtain s1 where s1: "step s e = Some s1" "run_of step s1 es = Some s'" by (auto split: option.splits)
  show ?case
    using Cons.IH [OF s1(2) inv_step [OF Cons.prems(2) s1(1)]] observes [OF Cons.prems(2) s1(1)] by (simp add: s1(1))
qed simp

end

end
