(* ===== verification/Sz_Sqs.thy ===== *)
theory Sz_Sqs
  imports Sz_Rabbit_System Sz_Contract
begin

text \<open>
  \<open>crates/sqs/src/sqs.rs\<close>: the Amazon SQS consumer. The poller task, the main loop and the worker
  threads run interleaved; \<open>sq_step\<close> is one access of one of them to what they share, and a run is a
  list of such events. The worker pool is that of \<open>Sz_Worker\<close>.

  The AWS client is not part of the repository: what \<open>ReceiveMessage\<close> answers is part of the event,
  the receipt handles passed to \<open>DeleteMessage\<close> are recorded in order (a failure is only logged).
  \<open>next_id\<close> counts messages in 64 bits; a run of \<open>2 ^ 64\<close> messages is out of scope.
\<close>

section \<open>The state\<close>

record sqs_message =
  m_body :: "string option"
  m_handle :: "string option"

text \<open>Where \<open>poll_loop\<close> is: at the head of its loop, in the wait at the cap, in the receive, in the
  messages of a response, in the send of one of them, or returned.\<close>

datatype poller =
    PTop
  | PWaiting
  | PReceiving
  | PBatch "sqs_message list"
  | PSending load_item "sqs_message list"
  | PReturned

text \<open>Where \<open>run\<close> is: in its loop, in \<open>poller.await\<close>, in the bounded join.\<close>

datatype sqs_main = QLoop | QAwaitPoller | QJoining

record 'w sqs =
  sq_proc :: "'w proc"
  sq_in_flight :: "(u64, string) hash_map"
  sq_deletes :: "string list"
  sq_next_id :: u64
  sq_poller :: poller
  sq_main :: sqs_main
  sq_fatal :: "string option"
  sq_shutting_down :: bool

section \<open>Settling\<close>

definition delete_message :: "u64 \<Rightarrow> ('w, 'z) sqs_scheme \<Rightarrow> ('w, 'z) sqs_scheme" where
  "delete_message tag st =
     (let st1 = st\<lparr>sq_in_flight := hm_remove tag (sq_in_flight st)\<rparr>
      in case map_of (sq_in_flight st) tag of
           Some handle \<Rightarrow> st1\<lparr>sq_deletes := sq_deletes st1 @ [handle]\<rparr>
         | None \<Rightarrow> st1)"

definition sqs_handle_outcome ::
  "outcome \<Rightarrow> ('w, 'z) sqs_scheme \<Rightarrow> string option \<times> ('w, 'z) sqs_scheme" where
  "sqs_handle_outcome o' st =
     (let s = sq_proc st; g = glob s; tag = o_delivery_tag o'
      in case o_action o' of
           Ack maybe_info \<Rightarrow>
             (None, delete_message tag (st\<lparr>sq_proc :=
               s\<lparr>out := out s @ (case maybe_info of Some resp \<Rightarrow> [InfoPayload resp] | None \<Rightarrow> []),
                 glob := g\<lparr>ADDS_PROCESSED := ADDS_PROCESSED g + 1\<rparr>\<rparr>\<rparr>))
         | RejectNoRequeue \<Rightarrow>
             (None, delete_message tag (st\<lparr>sq_proc := s\<lparr>glob := g\<lparr>ADDS_REJECTED := ADDS_REJECTED g + 1\<rparr>\<rparr>\<rparr>))
         | Fatal msg \<Rightarrow> (Some msg, st\<lparr>sq_in_flight := hm_remove tag (sq_in_flight st)\<rparr>))"

section \<open>The main loop\<close>

text \<open>The three statements that begin a shutdown.\<close>

definition sqs_shut_down :: "('w, 'z) sqs_scheme \<Rightarrow> ('w, 'z) sqs_scheme" where
  "sqs_shut_down st =
     (let s = sq_proc st
      in st\<lparr>sq_shutting_down := True,
            sq_proc := s\<lparr>glob := (glob s)\<lparr>RUNNING := False\<rparr>, notified := Suc (notified s)\<rparr>\<rparr>)"

definition sqs_on_outcome :: "outcome \<Rightarrow> ('w, 'z) sqs_scheme \<Rightarrow> ('w, 'z) sqs_scheme" where
  "sqs_on_outcome o' st =
     (case sqs_handle_outcome o' st of
        (None, st1) \<Rightarrow> st1
      | (Some msg, st1) \<Rightarrow>
          sqs_shut_down (if sq_fatal st1 = None then st1\<lparr>sq_fatal := Some msg\<rparr> else st1))"

definition sqs_summary :: "('w, 'z) sqs_scheme \<Rightarrow> ('w, 'z) sqs_scheme" where
  "sqs_summary st =
     (let s = sq_proc st; g = glob s
      in st\<lparr>sq_proc := s\<lparr>out := out s @
              [ProcessedTotal (ADDS_PROCESSED g) (REDOS_PROCESSED g) (REDOS_DROPPED g) (ERRORS g)]\<rparr>\<rparr>)"

section \<open>The poller\<close>

text \<open>Returning from \<open>poll_loop\<close> drops \<open>work_tx\<close>.\<close>

definition poller_returns :: "('w, 'z) sqs_scheme \<Rightarrow> ('w, 'z) sqs_scheme" where
  "poller_returns st =
     (let s = sq_proc st in st\<lparr>sq_poller := PReturned, sq_proc := s\<lparr>work_ch := chan_drop_sender (work_ch s)\<rparr>\<rparr>)"

text \<open>The head of the loop; \<open>cap\<close> is the number of threads.\<close>

definition poll_head :: "usize \<Rightarrow> ('w, 'z) sqs_scheme \<Rightarrow> ('w, 'z) sqs_scheme" where
  "poll_head cap st =
     (if \<not> RUNNING (glob (sq_proc st)) then poller_returns st
      else if length (sq_in_flight st) \<ge> unat cap then st\<lparr>sq_poller := PWaiting\<rparr>
      else st\<lparr>sq_poller := PReceiving\<rparr>)"

text \<open>A response of \<open>ReceiveMessage\<close>; after an error the loop pauses for a second.\<close>

definition on_response :: "(unit + sqs_message list) \<Rightarrow> ('w, 'z) sqs_scheme \<Rightarrow> ('w, 'z) sqs_scheme" where
  "on_response r st =
     (case r of Inl _ \<Rightarrow> st\<lparr>sq_poller := PTop\<rparr> | Inr msgs \<Rightarrow> st\<lparr>sq_poller := PBatch msgs\<rparr>)"

text \<open>One turn of the loop over the messages, up to the send.\<close>

definition on_message ::
  "(string \<Rightarrow> json option) \<Rightarrow> sqs_message \<Rightarrow> sqs_message list \<Rightarrow> ('w, 'z) sqs_scheme \<Rightarrow> ('w, 'z) sqs_scheme" where
  "on_message from_slice m rest st =
     (case (m_body m, m_handle m) of
        (Some data, Some handle) \<Rightarrow>
          (let id = sq_next_id st; st1 = st\<lparr>sq_next_id := id + 1\<rparr>
           in case parse_record from_slice data of
                Inr ri \<Rightarrow>
                  st1\<lparr>sq_in_flight := hm_insert id handle (sq_in_flight st1),
                      sq_poller := PSending \<lparr>delivery_tag = id, body = data, info = ri\<rparr> rest\<rparr>
              | Inl e \<Rightarrow>
                  (let s = sq_proc st1
                   in st1\<lparr>sq_proc := s\<lparr>glob := (glob s)\<lparr>ADDS_REJECTED := ADDS_REJECTED (glob s) + 1\<rparr>\<rparr>,
                          sq_deletes := sq_deletes st1 @ [handle], sq_poller := PBatch rest\<rparr>))
      | _ \<Rightarrow> st\<lparr>sq_poller := PBatch rest\<rparr>)"

definition poller_sends :: "load_item \<Rightarrow> sqs_message list \<Rightarrow> ('w, 'z) sqs_scheme \<Rightarrow> ('w, 'z) sqs_scheme option" where
  "poller_sends item rest st =
     (let s = sq_proc st
      in if \<not> ch_rx (work_ch s) then Some (poller_returns st)
         else
           (case chan_send (work_ch s) item of
              (Sent, ch) \<Rightarrow> Some (st\<lparr>sq_poller := PBatch rest, sq_proc := s\<lparr>work_ch := ch\<rparr>\<rparr>)
            | _ \<Rightarrow> None))"

end
