(* ===== verification/Sz_Sqs_System.thy ===== *)
theory Sz_Sqs_System
  imports Sz_Sqs
begin

text \<open>
  The SQS consumer as a whole: \<open>run\<close> with its poller, main loop and worker pool, one event per access
  to what they share. Proved of every run: a message is deleted at most once, and only when it cannot be
  parsed or a worker loaded or refused it; no message is forgotten; how far the cap on outstanding
  messages holds; and that a run whose workers have all left can wait for its poller for ever.
\<close>

section \<open>The events\<close>

text \<open>
  \<open>q_busy\<close> and \<open>q_alive\<close> are the workers' items and the number of workers running, \<open>q_fetcher\<close> whether
  the redo fetcher holds its sender. \<open>q_received\<close> (id, body, receipt handle), \<open>q_gone\<close> (the ids whose
  message was deleted, in order), \<open>q_given_up\<close> (ids dropped on a fatal outcome) and \<open>q_acted\<close> (what
  workers did with each item) are history.
\<close>

record 'w sqs_sys = "'w sqs" +
  q_busy :: "load_item list"
  q_alive :: nat
  q_fetcher :: bool
  q_received :: "(u64 \<times> string \<times> string) list"
  q_gone :: "u64 list"
  q_given_up :: "u64 list"
  q_acted :: "(load_item \<times> action) list"

datatype 'w sqs_event =
    EPollHead
  | EPollWake
  | EPollNotified
  | EResponse "unit + sqs_message list"
  | EMessage
  | ESend
  | ESignal
  | EOutcome
  | EResultsClosed
  | EPollerJoined
  | EPick
  | EFinish nat nat
  | EWorkerFatal string
  | EWorkerEnds
  | EFetcherFatal string
  | EFetcherEnds
  | EElsewhere "'w proc"

definition sqs_init :: "'w proc \<Rightarrow> nat \<Rightarrow> bool \<Rightarrow> 'w sqs_sys" where
  "sqs_init s threads fetcher =
     \<lparr>sq_proc = s\<lparr>started := {}, work_ch := chan_new threads 1,
                  result_ch := chan_new (threads * 2) (threads + (if fetcher then 1 else 0))\<rparr>,
      sq_in_flight = [], sq_deletes = [], sq_next_id = 1, sq_poller = PTop, sq_main = QLoop,
      sq_fatal = None, sq_shutting_down = False,
      q_busy = [], q_alive = threads, q_fetcher = fetcher, q_received = [], q_gone = [], q_given_up = [],
      q_acted = []\<rparr>"

text \<open>The ids a step of the main loop or the poller takes out of the queue or gives up.\<close>

definition deleted_by :: "outcome \<Rightarrow> 'w sqs_sys \<Rightarrow> u64 list" where
  "deleted_by o' st =
     (if \<not> is_fatal (o_action o') \<and> o_delivery_tag o' \<in> fst ` set (sq_in_flight st)
      then [o_delivery_tag o'] else [])"

definition given_up_by :: "outcome \<Rightarrow> 'w sqs_sys \<Rightarrow> u64 list" where
  "given_up_by o' st =
     (if is_fatal (o_action o') \<and> o_delivery_tag o' \<in> fst ` set (sq_in_flight st)
      then [o_delivery_tag o'] else [])"

definition message_id :: "sqs_message \<Rightarrow> 'w sqs_sys \<Rightarrow> (u64 \<times> string \<times> string) list" where
  "message_id m st =
     (case (m_body m, m_handle m) of
        (Some data, Some handle) \<Rightarrow> [(sq_next_id st, data, handle)]
      | _ \<Rightarrow> [])"

definition take_message :: "('w, 'e) ext \<Rightarrow> sqs_message \<Rightarrow> sqs_message list \<Rightarrow> 'w sqs_sys \<Rightarrow> 'w sqs_sys" where
  "take_message X m rest st =
     (on_message (json_parse X) m rest st)
       \<lparr>q_received := q_received st @ message_id m st,
        q_gone := q_gone st @ map fst (filter (malformed X \<circ> fst \<circ> snd) (message_id m st))\<rparr>"

definition drop_result_tx :: "('w, 'z) sqs_scheme \<Rightarrow> ('w, 'z) sqs_scheme" where
  "drop_result_tx st =
     (let s = sq_proc st in st\<lparr>sq_proc := s\<lparr>result_ch := chan_drop_sender (result_ch s)\<rparr>\<rparr>)"

text \<open>Only the consumer writes the counters of the adds; nothing ever sets \<open>RUNNING\<close> again.\<close>

definition idle_worker :: "'w sqs_sys \<Rightarrow> bool" where
  "idle_worker st \<longleftrightarrow> length (q_busy st) < q_alive st"

definition sq_step ::
  "('w, 'e) ext \<Rightarrow> worker_ctx \<Rightarrow> usize \<Rightarrow> nat \<Rightarrow> 'w sqs_sys \<Rightarrow> 'w sqs_event \<Rightarrow> 'w sqs_sys option" where
  "sq_step X c cap max_messages st ev =
     (let s = sq_proc st
      in case ev of
        EPollHead \<Rightarrow> if sq_poller st = PTop then Some (poll_head cap st) else None
      | EPollWake \<Rightarrow> if sq_poller st = PWaiting then Some (st\<lparr>sq_poller := PTop\<rparr>) else None
      | EPollNotified \<Rightarrow>
          if sq_poller st \<in> {PWaiting, PReceiving} \<and> notified s > 0 then Some (poller_returns st) else None
      | EResponse r \<Rightarrow>
          if sq_poller st = PReceiving \<and> (case r of Inr msgs \<Rightarrow> length msgs \<le> max_messages | Inl _ \<Rightarrow> True)
          then Some (on_response r st) else None
      | EMessage \<Rightarrow>
          (case sq_poller st of
             PBatch [] \<Rightarrow> Some (st\<lparr>sq_poller := PTop\<rparr>)
           | PBatch (m # rest) \<Rightarrow>
               if unat (sq_next_id st) < 2 ^ 64 - 1 then
                 Some (take_message X m rest st)
               else None
           | _ \<Rightarrow> None)
      | ESend \<Rightarrow> (case sq_poller st of PSending item rest \<Rightarrow> poller_sends item rest st | _ \<Rightarrow> None)
      | ESignal \<Rightarrow> if sq_main st = QLoop \<and> \<not> sq_shutting_down st then Some (sqs_shut_down st) else None
      | EOutcome \<Rightarrow>
          (case chan_recv (result_ch s) of
             (Item o', ch) \<Rightarrow>
               if sq_main st = QLoop then
                 Some ((sqs_on_outcome o' (st\<lparr>sq_proc := s\<lparr>result_ch := ch\<rparr>\<rparr>))
                   \<lparr>q_gone := q_gone st @ deleted_by o' st, q_given_up := q_given_up st @ given_up_by o' st\<rparr>)
               else None
           | _ \<Rightarrow> None)
      | EResultsClosed \<Rightarrow>
          if sq_main st = QLoop \<and> ch_buf (result_ch s) = [] \<and> ch_senders (result_ch s) = 0
          then Some (st\<lparr>sq_main := QAwaitPoller\<rparr>) else None
      | EPollerJoined \<Rightarrow>
          if sq_main st = QAwaitPoller \<and> sq_poller st = PReturned then Some (st\<lparr>sq_main := QJoining\<rparr>) else None
      | EPick \<Rightarrow>
          (case chan_recv (work_ch s) of
             (Item item, ch) \<Rightarrow>
               if idle_worker st
               then Some (st\<lparr>sq_proc := begin_load X c item (s\<lparr>work_ch := ch\<rparr>), q_busy := q_busy st @ [item]\<rparr>)
               else None
           | _ \<Rightarrow> None)
      | EFinish j elapsed \<Rightarrow>
          if j < length (q_busy st) \<and> result_room s then
            (case load_action X c (q_busy st ! j) s of
               (act, s1) \<Rightarrow>
                 Some (st\<lparr>sq_proc := snd (finish_load (q_busy st ! j) act elapsed s1),
                          q_busy := take j (q_busy st) @ drop (Suc j) (q_busy st),
                          q_acted := q_acted st @ [(q_busy st ! j, act)]\<rparr>))
          else None
      | EWorkerFatal msg \<Rightarrow>
          if idle_worker st \<and> result_room s
          then Some (drop_result_tx (st\<lparr>sq_proc := signal_fatal msg (s\<lparr>glob := mark_fatal (glob s)\<rparr>),
                                        q_alive := q_alive st - 1\<rparr>))
          else None
      | EWorkerEnds \<Rightarrow>
          if idle_worker st \<and> fst (chan_recv (work_ch s)) = Closed
          then Some (drop_result_tx (st\<lparr>q_alive := q_alive st - 1\<rparr>)) else None
      | EFetcherFatal msg \<Rightarrow>
          if q_fetcher st \<and> result_room s
          then Some (drop_result_tx (st\<lparr>sq_proc := signal_fatal msg (s\<lparr>glob := mark_fatal (glob s)\<rparr>),
                                        q_fetcher := False\<rparr>))
          else None
      | EFetcherEnds \<Rightarrow> if q_fetcher st then Some (drop_result_tx (st\<lparr>q_fetcher := False\<rparr>)) else None
      | EElsewhere t \<Rightarrow>
          if same_channels s t \<and> same_adds s t \<and> (RUNNING (glob t) \<longrightarrow> RUNNING (glob s))
          then Some (st\<lparr>sq_proc := t\<rparr>) else None)"

fun sq_run ::
  "('w, 'e) ext \<Rightarrow> worker_ctx \<Rightarrow> usize \<Rightarrow> nat \<Rightarrow> 'w sqs_sys \<Rightarrow> 'w sqs_event list \<Rightarrow> 'w sqs_sys option" where
  "sq_run X c cap max_messages st [] = Some st"
| "sq_run X c cap max_messages st (e # es) =
     (case sq_step X c cap max_messages st e of
        None \<Rightarrow> None
      | Some st' \<Rightarrow> sq_run X c cap max_messages st' es)"

section \<open>What each event leaves alone\<close>

lemma delete_message_fields:
  "sq_in_flight (delete_message tag st) = hm_remove tag (sq_in_flight st)"
  "sq_deletes (delete_message tag st) = sq_deletes st @ (case map_of (sq_in_flight st) tag of Some h \<Rightarrow> [h] | None \<Rightarrow> [])"
  "sq_proc (delete_message tag st) = sq_proc st" "sq_next_id (delete_message tag st) = sq_next_id st"
  "sq_poller (delete_message tag st) = sq_poller st" "sq_main (delete_message tag st) = sq_main st"
  "sq_fatal (delete_message tag st) = sq_fatal st" "sqs.more (delete_message tag st) = sqs.more st"
  by (simp_all add: delete_message_def Let_def split: option.split)

lemma delete_message_history:
  "q_received (delete_message tag st) = q_received st" "q_acted (delete_message tag st) = q_acted st"
  "q_busy (delete_message tag st) = q_busy st" "q_alive (delete_message tag st) = q_alive st"
  "q_gone (delete_message tag st) = q_gone st" "q_given_up (delete_message tag st) = q_given_up st"
  "q_fetcher (delete_message tag st) = q_fetcher st"
  by (simp_all add: delete_message_def Let_def split: option.split)

lemmas outcome_defs = sqs_on_outcome_def sqs_handle_outcome_def sqs_shut_down_def Let_def

lemma on_outcome_fields:
  "sq_in_flight (sqs_on_outcome o' st) = hm_remove (o_delivery_tag o') (sq_in_flight st)"
  "sq_deletes (sqs_on_outcome o' st) = sq_deletes st @
     (if is_fatal (o_action o') then []
      else case map_of (sq_in_flight st) (o_delivery_tag o') of Some h \<Rightarrow> [h] | None \<Rightarrow> [])"
  "sq_next_id (sqs_on_outcome o' st) = sq_next_id st" "sq_poller (sqs_on_outcome o' st) = sq_poller st"
  "sq_main (sqs_on_outcome o' st) = sq_main st"
  "work_ch (sq_proc (sqs_on_outcome o' st)) = work_ch (sq_proc st)"
  "result_ch (sq_proc (sqs_on_outcome o' st)) = result_ch (sq_proc st)"
  by (cases "o_action o'"; simp add: outcome_defs delete_message_fields is_fatal_def)+

lemma on_outcome_history:
  "q_received (sqs_on_outcome o' st) = q_received st" "q_acted (sqs_on_outcome o' st) = q_acted st"
  "q_busy (sqs_on_outcome o' st) = q_busy st" "q_alive (sqs_on_outcome o' st) = q_alive st"
  "q_fetcher (sqs_on_outcome o' st) = q_fetcher st"
  by (cases "o_action o'"; simp add: outcome_defs delete_message_history)+

definition same_store :: "'w sqs_sys \<Rightarrow> 'w sqs_sys \<Rightarrow> bool" where
  "same_store st st' \<longleftrightarrow> sq_in_flight st' = sq_in_flight st \<and> sq_deletes st' = sq_deletes st \<and>
     sq_next_id st' = sq_next_id st \<and> q_received st' = q_received st \<and> q_gone st' = q_gone st \<and>
     q_given_up st' = q_given_up st"

lemma sq_step_store:
  assumes "sq_step X c cap mm st ev = Some st'" "ev \<noteq> EMessage" "ev \<noteq> EOutcome"
  shows "same_store st st'"
  using assms
  by (cases ev)
    (auto simp: sq_step_def Let_def same_store_def poll_head_def poller_returns_def on_response_def poller_sends_def
      sqs_shut_down_def drop_result_tx_def
      split: if_splits sum.splits poller.splits send_outcome.splits try_outcome.splits prod.splits)

section \<open>The books of the run\<close>

definition handle_of :: "(u64 \<times> string \<times> string) list \<Rightarrow> u64 \<Rightarrow> string" where
  "handle_of rec t = (case map_of rec t of Some (_, h) \<Rightarrow> h | None \<Rightarrow> [])"

definition sq_abs :: "'w sqs_sys \<Rightarrow> contract" where
  "sq_abs st = \<lparr>k_pending = fst ` set (sq_in_flight st), k_settled = q_gone st, k_left = set (q_given_up st)\<rparr>"

text \<open>Ids are fresh, tracked messages were received with their handle, and the handles deleted are
  those of the settled ids.\<close>

definition ids_ok :: "(u64 \<times> string \<times> string) list \<Rightarrow> u64 \<Rightarrow> bool" where
  "ids_ok rec n \<longleftrightarrow> distinct (map fst rec) \<and> 1 \<le> unat n \<and> (\<forall>x \<in> set rec. 1 \<le> unat (fst x) \<and> unat (fst x) < unat n)"

definition store_ok :: "'w sqs_sys \<Rightarrow> bool" where
  "store_ok st \<longleftrightarrow> k_ok (sq_abs st) \<and>
     ids_ok (q_received st) (sq_next_id st) \<and>
     (\<forall>t h. map_of (sq_in_flight st) t = Some h \<longrightarrow> handle_of (q_received st) t = h) \<and>
     k_known (sq_abs st) = fst ` set (q_received st) \<and>
     sq_deletes st = map (handle_of (q_received st)) (q_gone st)"

lemma store_ok_same: "same_store st st' \<Longrightarrow> store_ok st' = store_ok st \<and> sq_abs st' = sq_abs st"
  by (simp add: same_store_def store_ok_def sq_abs_def)

lemma ids_ok_new:
  assumes "ids_ok rec n" "unat n < 2 ^ 64 - 1"
  shows "ids_ok (rec @ [(n, x)]) (n + 1)" "n \<notin> fst ` set rec"
proof -
  have "n \<noteq> - 1" using assms(2) by (auto simp: unat_max_word)
  then have "unat (n + 1) = Suc (unat n)" by (rule unat_succ)
  then show "ids_ok (rec @ [(n, x)]) (n + 1)" "n \<notin> fst ` set rec" using assms(1) by (auto simp: ids_ok_def)
qed

lemma handle_of_snoc: "n \<notin> fst ` set rec \<Longrightarrow> handle_of (rec @ [(n, b, h)]) t = (if t = n then h else handle_of rec t)"
  using map_of_eq_None_iff [of rec n] by (auto simp: handle_of_def map_add_def split: option.split)

lemma store_outcome:
  fixes st st' :: "'w sqs_sys"
  assumes ok: "store_ok st"
    and st': "sq_in_flight st' = hm_remove t (sq_in_flight st)"
      "sq_deletes st' = sq_deletes st @ (if f then [] else case map_of (sq_in_flight st) t of Some h \<Rightarrow> [h] | None \<Rightarrow> [])"
      "sq_next_id st' = sq_next_id st" "q_received st' = q_received st"
      "q_gone st' = q_gone st @ (if \<not> f \<and> t \<in> fst ` set (sq_in_flight st) then [t] else [])"
      "q_given_up st' = q_given_up st @ (if f \<and> t \<in> fst ` set (sq_in_flight st) then [t] else [])"
  shows "store_ok st'"
proof (cases "map_of (sq_in_flight st) t")
  case None
  then have "t \<notin> fst ` set (sq_in_flight st)" by (simp add: map_of_eq_None_iff)
  then have "same_store st st'" using st' None by (simp add: same_store_def hm_remove_fresh)
  with ok store_ok_same show ?thesis by fastforce
next
  case (Some h)
  then have t: "t \<in> fst ` set (sq_in_flight st)" by (metis map_of_eq_None_iff option.distinct(1))
  have h: "handle_of (q_received st) t = h" using ok Some by (simp add: store_ok_def)
  have fine: "k_ok (sq_abs st')"
    using t st' ok by (cases f) (auto simp: store_ok_def sq_abs_def k_ok_def)
  have known: "k_known (sq_abs st') = k_known (sq_abs st)"
    using t st' by (cases f) (auto simp: sq_abs_def k_known_def)
  show ?thesis using ok fine st' t h Some unfolding store_ok_def known by (simp add: map_of_hm_remove)
qed

lemma on_message_fields:
  "q_received (on_message fs m rest st) = q_received st" "q_acted (on_message fs m rest st) = q_acted st"
  "q_busy (on_message fs m rest st) = q_busy st" "q_alive (on_message fs m rest st) = q_alive st"
  "q_gone (on_message fs m rest st) = q_gone st" "q_given_up (on_message fs m rest st) = q_given_up st"
  "sq_main (on_message fs m rest st) = sq_main st"
  "work_ch (sq_proc (on_message fs m rest st)) = work_ch (sq_proc st)"
  "result_ch (sq_proc (on_message fs m rest st)) = result_ch (sq_proc st)"
  by (simp_all add: on_message_def Let_def split: option.split sum.split)

text \<open>A message takes the next id and is tracked, or is deleted at once.\<close>

lemma store_message:
  assumes ok: "store_ok st" and bound: "unat (sq_next_id st) < 2 ^ 64 - 1" and st': "st' = take_message X m rest st"
  shows "store_ok st'"
proof (cases "message_id m st")
  case Nil
  then have "same_store st st'" unfolding same_store_def st' take_message_def
    by (auto simp: on_message_def message_id_def Let_def split: option.splits sum.splits)
  with ok store_ok_same show ?thesis by fastforce
next
  case (Cons x xs)
  let ?n = "sq_next_id st"
  obtain b h where m: "m_body m = Some b" "m_handle m = Some h" "message_id m st = [(?n, b, h)]"
    using Cons by (auto simp: message_id_def split: option.splits)
  have ids: "ids_ok (q_received st) ?n" using ok by (simp add: store_ok_def)
  note new = ids_ok_new(1) [OF ids bound, of "(b, h)"] ids_ok_new(2) [OF ids bound]
  have fresh: "?n \<notin> k_known (sq_abs st)" using ok new(2) by (simp add: store_ok_def)
  have rec: "q_received st' = q_received st @ [(?n, b, h)]" "q_given_up st' = q_given_up st" "sq_next_id st' = ?n + 1"
    by (auto simp: st' take_message_def m on_message_fields on_message_def Let_def split: sum.split)
  have hof: "handle_of (q_received st') t = (if t = ?n then h else handle_of (q_received st) t)" for t
    unfolding rec(1) by (rule handle_of_snoc [OF new(2)])
  have "?n \<notin> set (q_gone st)" using fresh by (simp add: k_known_def sq_abs_def)
  then have old: "map (handle_of (q_received st')) (q_gone st) = sq_deletes st"
    using ok hof by (auto simp: store_ok_def)
  have "map_of (sq_in_flight st) ?n = None" using fresh by (simp add: k_known_def sq_abs_def map_of_eq_None_iff)
  then have old_handles: "map_of (sq_in_flight st) t = Some h' \<Longrightarrow> handle_of (q_received st') t = h'" for t h'
    using ok hof by (auto simp: store_ok_def)
  show ?thesis
  proof (cases "malformed X b")
    case True
    then have e: "q_gone st' = q_gone st @ [?n]" "sq_in_flight st' = sq_in_flight st" "sq_deletes st' = sq_deletes st @ [h]"
      by (auto simp: st' take_message_def m malformed_def on_message_def is_err_def Let_def split: sum.splits)
    have "k_ok (sq_abs st')" using ok fresh by (auto simp: store_ok_def k_ok_def k_known_def sq_abs_def e rec)
    moreover have "k_known (sq_abs st') = insert ?n (k_known (sq_abs st))"
      by (auto simp: k_known_def sq_abs_def e rec)
    ultimately show ?thesis using ok new(1) old old_handles
      unfolding store_ok_def rec(3) e by (simp add: rec(1) [symmetric] hof) (simp add: rec(1))
  next
    case False
    then have e: "q_gone st' = q_gone st" "sq_in_flight st' = hm_insert ?n h (sq_in_flight st)" "sq_deletes st' = sq_deletes st"
      by (auto simp: st' take_message_def m malformed_def on_message_def is_err_def Let_def on_message_fields split: sum.splits)
    have keys: "fst ` set (sq_in_flight st') = insert ?n (fst ` set (sq_in_flight st))"
      by (auto simp: e(2) hm_insert_def hm_remove_def)
    have "sq_abs st' = (sq_abs st)\<lparr>k_pending := insert ?n (k_pending (sq_abs st))\<rparr>"
      by (simp add: sq_abs_def keys e(1) rec)
    then have "k_ok (sq_abs st')" using ok fresh by (auto simp: store_ok_def k_ok_def k_known_def)
    moreover have "k_known (sq_abs st') = insert ?n (k_known (sq_abs st))"
      by (simp add: k_known_def sq_abs_def keys e(1) rec)
    moreover have "map_of (sq_in_flight st') t = Some h' \<Longrightarrow> handle_of (q_received st') t = h'" for t h'
      using old_handles [of t h'] by (cases "t = ?n") (simp_all add: e(2) hm.get_ins hof)
    ultimately show ?thesis using ok new(1) old
      unfolding store_ok_def rec(3) e(1,3) by (simp add: rec(1))
  qed
qed

lemma store_step:
  assumes "sq_step X c cap mm st ev = Some st'" "store_ok st"
  shows "store_ok st'"
proof -
  consider "ev \<noteq> EMessage" "ev \<noteq> EOutcome" | "ev = EMessage" | "ev = EOutcome" by blast
  then show ?thesis
  proof cases
    case 1
    with assms sq_step_store store_ok_same show ?thesis by fastforce
  next
    case 2
    from assms(1) 2 consider "same_store st st'"
      | m rest where "unat (sq_next_id st) < 2 ^ 64 - 1" "st' = take_message X m rest st"
      by (auto simp: sq_step_def Let_def same_store_def split: poller.splits list.splits if_splits)
    then show ?thesis
    proof cases
      case 1
      with assms(2) store_ok_same show ?thesis by fastforce
    next
      case (2 m rest)
      with store_message [OF assms(2)] show ?thesis by blast
    qed
  next
    case 3
    then obtain o' ch where st': "st' = (sqs_on_outcome o' (st\<lparr>sq_proc := (sq_proc st)\<lparr>result_ch := ch\<rparr>\<rparr>))
        \<lparr>q_gone := q_gone st @ deleted_by o' st, q_given_up := q_given_up st @ given_up_by o' st\<rparr>"
      using assms(1) by (auto simp: sq_step_def Let_def split: try_outcome.splits prod.splits if_splits)
    show ?thesis
      by (rule store_outcome [OF assms(2), where t = "o_delivery_tag o'" and f = "is_fatal (o_action o')"])
        (simp_all add: st' on_outcome_fields on_outcome_history deleted_by_def given_up_by_def)
  qed
qed

lemma store_ok_init [simp]: "store_ok (sqs_init s threads fetcher)" "sq_abs (sqs_init s threads fetcher) = k_init"
  by (simp_all add: store_ok_def sqs_init_def ids_ok_def k_ok_def k_known_def sq_abs_def k_init_def)

text \<open>An invariant of \<open>sq_step\<close> holds after every run.\<close>

lemma sq_run_inv:
  assumes "\<And>st ev st'. I st \<Longrightarrow> sq_step X c cap mm st ev = Some st' \<Longrightarrow> I st'" "I st"
    "sq_run X c cap mm st es = Some st'"
  shows "I st'"
  using assms(2,3)
proof (induction es arbitrary: st)
  case (Cons e es)
  then obtain st1 where "sq_step X c cap mm st e = Some st1" "sq_run X c cap mm st1 es = Some st'"
    by (auto split: option.splits)
  with Cons assms(1) show ?case by blast
qed simp

section \<open>The cap on outstanding messages\<close>

definition unhandled :: "poller \<Rightarrow> nat" where
  "unhandled p = (case p of PBatch ms \<Rightarrow> length ms | PSending _ ms \<Rightarrow> length ms | _ \<Rightarrow> 0)"

definition cap_ok :: "usize \<Rightarrow> nat \<Rightarrow> 'w sqs_sys \<Rightarrow> bool" where
  "cap_ok cap mm st \<longleftrightarrow>
     length (sq_in_flight st) + unhandled (sq_poller st) \<le> unat cap - 1 + mm \<and>
     (sq_poller st = PReceiving \<longrightarrow> length (sq_in_flight st) < unat cap)"

lemma poller_of_steps:
  assumes "sq_step X c cap mm st ev = Some st'"
    "ev \<notin> {EPollHead, EPollWake, EPollNotified, EMessage, ESend}" "\<And>r. ev \<noteq> EResponse r"
  shows "sq_poller st' = sq_poller st"
  using assms
  by (cases ev)
    (auto simp: sq_step_def Let_def sqs_shut_down_def drop_result_tx_def on_outcome_fields
      split: if_splits try_outcome.splits prod.splits)

lemma length_hm_remove_le: "length (hm_remove k m) \<le> length m"
  by (simp add: hm_remove_def)

lemma cap_ok_step:
  assumes ok: "cap_ok cap mm st" and s: "sq_step X c cap mm st ev = Some st'"
  shows "cap_ok cap mm st'"
proof (cases "ev \<in> {EPollHead, EPollWake, EPollNotified, EMessage, ESend} \<or> (\<exists>r. ev = EResponse r)")
  case False
  then have p: "sq_poller st' = sq_poller st" using poller_of_steps [OF s] by blast
  have "length (sq_in_flight st') \<le> length (sq_in_flight st)"
  proof (cases "ev = EOutcome")
    case True
    then show ?thesis using s
      by (auto simp: sq_step_def Let_def on_outcome_fields length_hm_remove_le
          split: try_outcome.splits prod.splits if_splits)
  next
    case o: False
    with False sq_step_store [OF s] show ?thesis by (auto simp: same_store_def)
  qed
  with ok p show ?thesis by (auto simp: cap_ok_def)
next
  case True
  then consider "ev = EPollHead" | "ev = EPollWake" | "ev = EPollNotified" | "ev = EMessage" | "ev = ESend"
    | r where "ev = EResponse r" by blast
  then show ?thesis
  proof cases
    case 4
    show ?thesis
    proof (cases "sq_poller st")
      case (PBatch ms)
      then show ?thesis
      proof (cases ms)
        case Nil
        with s 4 PBatch ok show ?thesis by (auto simp: sq_step_def Let_def cap_ok_def unhandled_def)
      next
        case (Cons m rest)
        with s 4 PBatch have st': "st' = take_message X m rest st"
          by (auto simp: sq_step_def Let_def split: if_splits)
        have "length (hm_insert n h (sq_in_flight st)) + k \<le> b" if "Suc (length (sq_in_flight st) + k) \<le> b" for n h k b
          using that length_hm_remove_le [of n "sq_in_flight st"] by (simp add: hm_insert_def)
        then show ?thesis using ok PBatch Cons
          by (auto simp: st' take_message_def on_message_def cap_ok_def unhandled_def Let_def
              split: option.split sum.split)
      qed
    qed (use s 4 in \<open>auto simp: sq_step_def Let_def\<close>)
  qed (use s ok in \<open>auto simp: sq_step_def Let_def cap_ok_def unhandled_def poll_head_def poller_returns_def
      on_response_def poller_sends_def split: if_splits sum.splits poller.splits send_outcome.splits prod.splits\<close>)
qed

lemma cap_ok_init: "cap_ok cap mm (sqs_init s threads fetcher)"
  by (simp add: cap_ok_def sqs_init_def unhandled_def)

section \<open>Why a message was deleted\<close>

definition sq_sending :: "poller \<Rightarrow> load_item list" where
  "sq_sending p = (case p of PSending i _ \<Rightarrow> [i] | _ \<Rightarrow> [])"

definition sq_items :: "'w sqs_sys \<Rightarrow> load_item list" where
  "sq_items st = ch_buf (work_ch (sq_proc st)) @ q_busy st @ sq_sending (sq_poller st)"

definition sq_results :: "'w sqs_sys \<Rightarrow> outcome list" where
  "sq_results st = ch_buf (result_ch (sq_proc st))"

definition q_came :: "('w, 'e) ext \<Rightarrow> (u64 \<times> string \<times> string) list \<Rightarrow> load_item \<Rightarrow> bool" where
  "q_came X rec i \<longleftrightarrow> (\<exists>h. (delivery_tag i, body i, h) \<in> set rec) \<and> parse_record (json_parse X) (body i) = Ok (info i)"

definition q_loaded :: "('w, 'e) ext \<Rightarrow> worker_ctx \<Rightarrow> (load_item \<times> action) list \<Rightarrow> u64 \<Rightarrow> string \<Rightarrow> bool" where
  "q_loaded X c acted t b \<longleftrightarrow>
     (\<exists>i a. (i, a) \<in> set acted \<and> delivery_tag i = t \<and> body i = b \<and> parse_record (json_parse X) b = Ok (info i) \<and>
        justified X c i a \<and> \<not> is_fatal a)"

definition q_reason :: "('w, 'e) ext \<Rightarrow> worker_ctx \<Rightarrow> 'w sqs_sys \<Rightarrow> u64 \<Rightarrow> bool" where
  "q_reason X c st t \<longleftrightarrow>
     (\<exists>b h. (t, b, h) \<in> set (q_received st) \<and> (malformed X b \<or> q_loaded X c (q_acted st) t b))"

definition just_ok :: "('w, 'e) ext \<Rightarrow> worker_ctx \<Rightarrow> 'w sqs_sys \<Rightarrow> bool" where
  "just_ok X c st \<longleftrightarrow>
     (\<forall>i \<in> set (sq_items st). q_came X (q_received st) i) \<and>
     (\<forall>(i, a) \<in> set (q_acted st). q_came X (q_received st) i \<and> justified X c i a) \<and>
     (\<forall>o' \<in> set (sq_results st). is_fatal (o_action o') \<or>
        (\<exists>i. (i, o_action o') \<in> set (q_acted st) \<and> delivery_tag i = o_delivery_tag o')) \<and>
     (\<forall>t \<in> set (q_gone st). q_reason X c st t)"

lemma just_okI:
  assumes "\<And>i. i \<in> set (sq_items st) \<Longrightarrow> q_came X (q_received st) i"
    "\<And>i a. (i, a) \<in> set (q_acted st) \<Longrightarrow> q_came X (q_received st) i \<and> justified X c i a"
    "\<And>o'. o' \<in> set (sq_results st) \<Longrightarrow> \<not> is_fatal (o_action o') \<Longrightarrow>
       \<exists>i. (i, o_action o') \<in> set (q_acted st) \<and> delivery_tag i = o_delivery_tag o'"
    "\<And>t. t \<in> set (q_gone st) \<Longrightarrow> q_reason X c st t"
  shows "just_ok X c st"
  using assms by (auto simp: just_ok_def)

lemma just_okD:
  assumes "just_ok X c st"
  shows "\<And>i. i \<in> set (sq_items st) \<Longrightarrow> q_came X (q_received st) i"
    "\<And>i a. (i, a) \<in> set (q_acted st) \<Longrightarrow> q_came X (q_received st) i \<and> justified X c i a"
    "\<And>o'. o' \<in> set (sq_results st) \<Longrightarrow> \<not> is_fatal (o_action o') \<Longrightarrow>
       \<exists>i. (i, o_action o') \<in> set (q_acted st) \<and> delivery_tag i = o_delivery_tag o'"
    "\<And>t. t \<in> set (q_gone st) \<Longrightarrow> q_reason X c st t"
  using assms by (auto simp: just_ok_def)

lemma q_came_more: "q_came X rec i \<Longrightarrow> q_came X (rec @ more_rec) i"
  by (auto simp: q_came_def)

lemma q_reason_more:
  "q_reason X c st t \<Longrightarrow> set (q_received st) \<subseteq> set (q_received st') \<Longrightarrow> set (q_acted st) \<subseteq> set (q_acted st') \<Longrightarrow>
     q_reason X c st' t"
  unfolding q_reason_def q_loaded_def by blast

text \<open>Steps that only move items or add fatal outcomes.\<close>

lemma just_ok_same:
  assumes ok: "just_ok X c st" and "set (sq_items st') \<subseteq> set (sq_items st)"
    "\<And>o'. o' \<in> set (sq_results st') \<Longrightarrow> is_fatal (o_action o') \<or> o' \<in> set (sq_results st)"
    "q_received st' = q_received st" "q_acted st' = q_acted st" "q_gone st' = q_gone st"
  shows "just_ok X c st'"
proof (rule just_okI)
  show "\<And>t. t \<in> set (q_gone st') \<Longrightarrow> q_reason X c st' t"
    using just_okD(4) [OF ok] q_reason_more [of X c st _ st'] assms(4-6) by simp
  show "\<And>o'. o' \<in> set (sq_results st') \<Longrightarrow> \<not> is_fatal (o_action o') \<Longrightarrow>
     \<exists>i. (i, o_action o') \<in> set (q_acted st') \<and> delivery_tag i = o_delivery_tag o'"
    using just_okD(3) [OF ok] assms(3,5) by metis
qed (use just_okD(1,2) [OF ok] assms(2,4,5) in auto)

lemma just_ok_message:
  assumes ok: "just_ok X c st" and p: "sq_poller st = PBatch (m # rest)" and st': "st' = take_message X m rest st"
  shows "just_ok X c st'"
proof -
  note D = just_okD [OF ok]
  have v: "q_received st' = q_received st @ message_id m st" "q_acted st' = q_acted st" "sq_results st' = sq_results st"
    "work_ch (sq_proc st') = work_ch (sq_proc st)" "q_busy st' = q_busy st"
    by (simp_all add: st' take_message_def sq_results_def on_message_fields)
  have gone: "set (q_gone st') = set (q_gone st) \<union> {t. \<exists>b h. (t, b, h) \<in> set (message_id m st) \<and> malformed X b}"
    by (force simp: st' take_message_def)
  have new: "i \<in> set (sq_sending (sq_poller st')) \<Longrightarrow> q_came X (q_received st') i" for i
    by (auto simp: v(1)) (auto simp: st' take_message_def on_message_def message_id_def sq_sending_def q_came_def Let_def
        split: option.splits sum.splits)
  have old: "i \<in> set (sq_items st) \<Longrightarrow> q_came X (q_received st') i" for i
    unfolding v(1) by (intro q_came_more D(1))
  show ?thesis
  proof (rule just_okI)
    show "\<And>i. i \<in> set (sq_items st') \<Longrightarrow> q_came X (q_received st') i"
      using old new by (auto simp: sq_items_def v(4,5))
    show "\<And>t. t \<in> set (q_gone st') \<Longrightarrow> q_reason X c st' t"
      using D(4) q_reason_more [of X c st _ st'] unfolding gone by (auto simp: v(1,2)) (auto simp: q_reason_def v(1))
    show "\<And>i a. (i, a) \<in> set (q_acted st') \<Longrightarrow> q_came X (q_received st') i \<and> justified X c i a"
      using D(2) q_came_more unfolding v(1,2) by blast
  qed (use D(3) in \<open>auto simp: v\<close>)
qed

lemma just_ok_outcome:
  assumes ok: "just_ok X c st" and r: "chan_recv (result_ch (sq_proc st)) = (Item o', ch)"
    and st': "st' = (sqs_on_outcome o' (st\<lparr>sq_proc := (sq_proc st)\<lparr>result_ch := ch\<rparr>\<rparr>))
      \<lparr>q_gone := q_gone st @ deleted_by o' st, q_given_up := q_given_up st @ given_up_by o' st\<rparr>"
  shows "just_ok X c st'"
proof -
  note D = just_okD [OF ok]
  have v: "q_received st' = q_received st" "q_acted st' = q_acted st" "sq_items st' = sq_items st"
    "q_gone st' = q_gone st @ deleted_by o' st" "sq_results st = o' # sq_results st'"
    using recv_item [OF r] by (simp_all add: st' sq_items_def sq_results_def on_outcome_fields on_outcome_history)
  have "q_reason X c st' t" if t: "t \<in> set (deleted_by o' st)" for t
  proof -
    have nf: "\<not> is_fatal (o_action o')" "t = o_delivery_tag o'" using t by (auto simp: deleted_by_def split: if_splits)
    then obtain i where i: "(i, o_action o') \<in> set (q_acted st)" "delivery_tag i = t" using D(3) [of o'] v(5) by auto
    with D(2) [OF i(1)] nf show ?thesis
      unfolding q_reason_def q_loaded_def v(1,2) by (auto simp: q_came_def)
  qed
  moreover have "\<And>t. t \<in> set (q_gone st) \<Longrightarrow> q_reason X c st' t"
    using D(4) q_reason_more [of X c st _ st'] by (simp add: v)
  ultimately show ?thesis using D by (intro just_okI) (auto simp: v)
qed

lemma just_ok_finish:
  assumes ok: "just_ok X c st" and j: "j < length (q_busy st)"
    and a: "load_action X c (q_busy st ! j) (sq_proc st) = (act, s1)"
    and st': "st' = st\<lparr>sq_proc := snd (finish_load (q_busy st ! j) act n s1),
      q_busy := take j (q_busy st) @ drop (Suc j) (q_busy st), q_acted := q_acted st @ [(q_busy st ! j, act)]\<rparr>"
  shows "just_ok X c st'"
proof -
  note D = just_okD [OF ok]
  let ?i = "q_busy st ! j"
  obtain kg s2 where f: "finish_load ?i act n s1 = (kg, s2)" by fastforce
  note ja = load_action_justified [OF a]
  note f1 = only_world_fields [OF conjunct1 [OF ja]]
  note e = finish_load_sends(1,3) [OF f, unfolded f1]
  have i: "?i \<in> set (sq_items st)" using j by (simp add: sq_items_def)
  have v: "q_received st' = q_received st" "q_acted st' = q_acted st @ [(?i, act)]" "q_gone st' = q_gone st"
    "set (sq_items st') \<subseteq> set (sq_items st)"
    using set_take_subset [of j "q_busy st"] set_drop_subset [of "Suc j" "q_busy st"]
    by (auto simp: st' sq_items_def f e(1))
  have res: "set (sq_results st') \<subseteq> insert (outcome_of ?i act) (set (sq_results st))"
    using e(2) by (auto simp: st' sq_results_def f)
  show ?thesis
  proof (rule just_okI)
    show "\<And>o'. o' \<in> set (sq_results st') \<Longrightarrow> \<not> is_fatal (o_action o') \<Longrightarrow>
       \<exists>i. (i, o_action o') \<in> set (q_acted st') \<and> delivery_tag i = o_delivery_tag o'"
      using D(3) res unfolding v(2) by (fastforce simp: outcome_of_def)
    show "\<And>t. t \<in> set (q_gone st') \<Longrightarrow> q_reason X c st' t"
      using D(4) q_reason_more [of X c st _ st'] by (auto simp: v)
  qed (use D(1,2) i v(4) conjunct2 [OF ja] in \<open>auto simp: v(1,2)\<close>)
qed

lemma just_ok_step:
  assumes ok: "just_ok X c st" and s: "sq_step X c cap mm st ev = Some st'"
  shows "just_ok X c st'"
proof (cases ev)
  case EMessage
  then consider "sq_poller st = PBatch []" "st' = st\<lparr>sq_poller := PTop\<rparr>"
    | m rest where "sq_poller st = PBatch (m # rest)" "st' = take_message X m rest st"
    using s by (auto simp: sq_step_def Let_def split: poller.splits list.splits if_splits)
  then show ?thesis
  proof cases
    case 1
    then show ?thesis by (intro just_ok_same [OF ok]) (auto simp: sq_items_def sq_results_def sq_sending_def)
  next
    case (2 m rest)
    with just_ok_message [OF ok] show ?thesis by blast
  qed
next
  case EOutcome
  then show ?thesis using s just_ok_outcome [OF ok]
    by (auto simp: sq_step_def Let_def split: try_outcome.splits prod.splits if_splits)
next
  case (EFinish j n)
  obtain act s1 where a: "load_action X c (q_busy st ! j) (sq_proc st) = (act, s1)" by fastforce
  then show ?thesis using s EFinish just_ok_finish [OF ok _ a]
    by (auto simp: sq_step_def Let_def split: if_splits)
next
  case EPick
  then obtain item ch where r: "chan_recv (work_ch (sq_proc st)) = (Item item, ch)"
    "st' = st\<lparr>sq_proc := begin_load X c item ((sq_proc st)\<lparr>work_ch := ch\<rparr>), q_busy := q_busy st @ [item]\<rparr>"
    using s by (auto simp: sq_step_def Let_def split: try_outcome.splits prod.splits if_splits)
  note pf = only_world_fields [OF poll_p_only_world]
  show ?thesis
    by (rule just_ok_same [OF ok])
      (use recv_item [OF r(1)] in \<open>auto simp: r(2) sq_items_def sq_results_def begin_load_def Let_def pf\<close>)
next
  case ESend
  then obtain item rest where p: "sq_poller st = PSending item rest" "poller_sends item rest st = Some st'"
    using s by (auto simp: sq_step_def Let_def split: poller.splits)
  show ?thesis
    by (rule just_ok_same [OF ok])
      (use p in \<open>auto simp: poller_sends_def Let_def sq_items_def sq_results_def sq_sending_def poller_returns_def
         chan_drop_sender_def chan_send_def split: if_splits send_outcome.splits prod.splits\<close>)
qed (use s in \<open>auto intro!: just_ok_same [OF ok] simp: sq_step_def Let_def sq_items_def sq_results_def sq_sending_def
    poll_head_def poller_returns_def on_response_def sqs_shut_down_def drop_result_tx_def chan_drop_sender_def
    signal_fatal_buf is_fatal_def same_channels_def split: if_splits sum.splits\<close>)

lemma just_ok_init: "just_ok X c (sqs_init s threads fetcher)"
  by (simp add: just_ok_def sqs_init_def sq_items_def sq_results_def sq_sending_def chan_new_def)

section \<open>Properties\<close>

text \<open>C11: no message is deleted twice, and a message is deleted only if its body cannot be parsed,
  or a worker ran \<open>add_record\<close> on exactly that body and it was accepted or refused as bad data, never
  after a fatal error.\<close>

theorem sqs_deletes_once_for_a_reason:
  assumes "sq_run X c cap mm (sqs_init s threads fetcher) es = Some st"
  shows "\<exists>ids. distinct ids \<and> sq_deletes st = map (handle_of (q_received st)) ids \<and>
    (\<forall>t \<in> set ids. \<exists>b h. (t, b, h) \<in> set (q_received st) \<and> (malformed X b \<or> q_loaded X c (q_acted st) t b))"
proof -
  have "store_ok st"
    by (rule sq_run_inv [where I = store_ok], erule (1) store_step [rotated], rule store_ok_init(1), rule assms)
  moreover have "just_ok X c st" by (rule sq_run_inv [where I = "just_ok X c"], erule (1) just_ok_step, rule just_ok_init, rule assms)
  ultimately show ?thesis
    by (intro exI [of _ "q_gone st"]) (auto simp: store_ok_def k_ok_def sq_abs_def q_reason_def dest!: just_okD(4))
qed

text \<open>C36: the number of messages received and not settled stays below \<open>cap\<close> plus the size of one
  response. It can exceed \<open>cap\<close>, which the code calls the maximum: the test precedes a receive of up
  to ten messages.\<close>

theorem sqs_outstanding_bounded:
  assumes "sq_run X c cap mm (sqs_init s threads fetcher) es = Some st"
  shows "length (sq_in_flight st) + unhandled (sq_poller st) \<le> unat cap - 1 + mm"
proof -
  have "cap_ok cap mm st" 
    by (rule sq_run_inv [where I = "cap_ok cap mm"], erule (1) cap_ok_step, rule cap_ok_init, rule assms)
  then show ?thesis by (simp add: cap_ok_def)
qed

section \<open>A run of the concrete instance\<close>

definition demo_msg :: "string \<Rightarrow> string \<Rightarrow> sqs_message" where
  "demo_msg b h = \<lparr>m_body = Some b, m_handle = Some h\<rparr>"

lemmas demo_sqs_defs = sq_step_def sqs_init_def poll_head_def on_response_def demo_msg_def take_message_def on_message_def
  message_id_def poller_sends_def chan_send_def chan_recv_def chan_new_def chan_drop_sender_def hm_insert_def
  hm_remove_def malformed_def parse_record_def demo_ext_def demo_json_def get_field_def demo_proc_def init_globals_def

lemma demo_two_messages:
  "\<exists>st. sq_run demo_ext demo_ctx 1 10 (sqs_init demo_proc 1 False)
     [EPollHead, EResponse (Ok [demo_msg ''r1'' ''h1'', demo_msg ''junk'' ''h2'', demo_msg ''r1'' ''h3'']),
      EMessage, ESend, EMessage, EMessage] = Some st \<and>
     length (sq_in_flight st) = 2 \<and> sq_deletes st = [''h2'']"
  by (simp add: demo_sqs_defs)

theorem sqs_deletes_once_for_a_reason_witness:
  "\<exists>st ids. sq_run demo_ext demo_ctx 1 10 (sqs_init demo_proc 1 False)
     [EPollHead, EResponse (Ok [demo_msg ''r1'' ''h1'', demo_msg ''junk'' ''h2'', demo_msg ''r1'' ''h3'']),
      EMessage, ESend, EMessage, EMessage] = Some st \<and> distinct ids \<and> ids \<noteq> [] \<and>
     map (handle_of (q_received st)) ids = [''h2'']"
proof -
  obtain st where st: "sq_run demo_ext demo_ctx 1 10 (sqs_init demo_proc 1 False)
     [EPollHead, EResponse (Ok [demo_msg ''r1'' ''h1'', demo_msg ''junk'' ''h2'', demo_msg ''r1'' ''h3'']),
      EMessage, ESend, EMessage, EMessage] = Some st" "sq_deletes st = [''h2'']" using demo_two_messages by blast
  from sqs_deletes_once_for_a_reason [OF st(1)] st show ?thesis by (metis list.distinct(1) list.simps(8))
qed

text \<open>One worker, so a cap of one: two messages are outstanding.\<close>

theorem sqs_outstanding_bounded_witness:
  "\<exists>st. sq_run demo_ext demo_ctx 1 10 (sqs_init demo_proc 1 False)
     [EPollHead, EResponse (Ok [demo_msg ''r1'' ''h1'', demo_msg ''junk'' ''h2'', demo_msg ''r1'' ''h3'']),
      EMessage, ESend, EMessage, EMessage] = Some st \<and> length (sq_in_flight st) = 2 \<and>
     length (sq_in_flight st) + unhandled (sq_poller st) \<le> 10"
proof -
  obtain st where st: "sq_run demo_ext demo_ctx 1 10 (sqs_init demo_proc 1 False)
     [EPollHead, EResponse (Ok [demo_msg ''r1'' ''h1'', demo_msg ''junk'' ''h2'', demo_msg ''r1'' ''h3'']),
      EMessage, ESend, EMessage, EMessage] = Some st" "length (sq_in_flight st) = 2" using demo_two_messages by blast
  from sqs_outstanding_bounded [OF st(1)] st show ?thesis by auto
qed

section \<open>A run that never ends\<close>

text \<open>\<open>run\<close> waits for a poller that waits for room no worker will make.\<close>

definition sq_stuck :: "'w sqs_sys \<Rightarrow> bool" where
  "sq_stuck st \<longleftrightarrow> sq_main st = QAwaitPoller \<and> q_alive st = 0 \<and> \<not> q_fetcher st \<and> q_busy st = [] \<and>
     sq_sending (sq_poller st) \<noteq> [] \<and> ch_rx (work_ch (sq_proc st)) \<and>
     ch_cap (work_ch (sq_proc st)) \<le> length (ch_buf (work_ch (sq_proc st)))"

lemma sq_stuck_step: "sq_stuck st \<Longrightarrow> sq_step X c cap mm st ev = Some st' \<Longrightarrow> sq_stuck st'"
  by (cases ev; cases "sq_poller st")
    (auto simp: sq_stuck_def sq_step_def Let_def sq_sending_def idle_worker_def poller_sends_def chan_send_def
      same_channels_def split: if_splits try_outcome.splits prod.splits)

text \<open>When the last worker leaves (here: it cannot get an engine) while the poller is blocked
  on the full work channel, the results close and \<open>run\<close> leaves its loop to wait for the poller. The
  receiver of the work channel is kept alive by \<open>run\<close> itself, so the send neither fails nor finds
  room: whatever happens next, the program never gets to its bounded join, and signals are no longer
  read.\<close>

theorem sqs_run_hangs_when_workers_leave:
  "\<exists>es st. sq_run demo_ext demo_ctx 1 10 (sqs_init demo_proc 1 False) es = Some st \<and>
     sq_fatal st = Some ''no engine'' \<and> \<not> RUNNING (glob (sq_proc st)) \<and>
     \<not> (\<exists>es' st'. sq_run demo_ext demo_ctx 1 10 st es' = Some st' \<and> sq_main st' = QJoining)"
proof -
  let ?es = "[EPollHead, EResponse (Ok [demo_msg ''r1'' ''h1'', demo_msg ''r1'' ''h2'']), EMessage, ESend, EMessage,
    EWorkerFatal ''no engine'', EOutcome, EResultsClosed]"
  have "\<exists>st. sq_run demo_ext demo_ctx 1 10 (sqs_init demo_proc 1 False) ?es = Some st \<and>
     sq_fatal st = Some ''no engine'' \<and> \<not> RUNNING (glob (sq_proc st)) \<and> sq_stuck st"
    by (simp add: demo_sqs_defs idle_worker_def result_room_def signal_fatal_def send_outcome_p_def chan_blocking_send_def
        drop_result_tx_def sqs_on_outcome_def sqs_handle_outcome_def sqs_shut_down_def Let_def sq_stuck_def sq_sending_def
        deleted_by_def given_up_by_def is_fatal_def)
  then obtain st where st: "sq_run demo_ext demo_ctx 1 10 (sqs_init demo_proc 1 False) ?es = Some st"
     "sq_fatal st = Some ''no engine''" "\<not> RUNNING (glob (sq_proc st))" "sq_stuck st" by blast
  have "sq_main st' \<noteq> QJoining" if "sq_run demo_ext demo_ctx 1 10 st es' = Some st'" for es' st'
  proof -
    have "sq_stuck st'" 
      by (rule sq_run_inv [where I = sq_stuck], erule (1) sq_stuck_step, rule st(4), rule that)
    then show ?thesis by (simp add: sq_stuck_def)
  qed
  with st show ?thesis by blast
qed

end
