(* ===== verification/Sz_Rabbit_Totals.thy ===== *)
theory Sz_Rabbit_Totals
  imports Sz_Rabbit_System
begin

text \<open>
  What the number of adds in the final line of a RabbitMQ run stands for: every acknowledged delivery is
  in it, and nothing is in it that was not acknowledged or rejected.
\<close>

definition acks :: "'w rabbit \<Rightarrow> nat" where
  "acks rb = length (filter (\<lambda>call. call = BasicAck (call_tag call)) (rb_calls rb))"

text \<open>The settled deliveries no longer tracked: their outcome is in, or none will come.\<close>

definition concluded :: "'w rabbit \<Rightarrow> u64 list" where
  "concluded rb = filter (\<lambda>t. tracked rb t = None) (settled rb)"

definition total_ok :: "'w rabbit \<Rightarrow> bool" where
  "total_ok rb \<longleftrightarrow> (\<exists>p. rb_processed rb = of_nat p \<and> acks rb \<le> p \<and> p \<le> length (concluded rb))"

text \<open>Whether an outcome is counted.\<close>

definition counts :: "outcome \<Rightarrow> 'w rabbit \<Rightarrow> bool" where
  "counts o' rb =
     (case o_action o' of
        Ack _ \<Rightarrow> tracked rb (o_delivery_tag o') \<noteq> Some True
      | RejectNoRequeue \<Rightarrow> True
      | Fatal _ \<Rightarrow> False)"

lemma processed_simps [simp]:
  "rb_processed (print_rb l st) = rb_processed st" "rb_processed (call_rb c st) = rb_processed st"
  "rb_processed (count_rb f st) = rb_processed st" "rb_processed (forget_rb tag st) = rb_processed st"
  "rb_processed (begin_shutdown msg st) = rb_processed st" "rb_processed (with_result_ch ch st) = rb_processed st"
  "rb_processed (on_notified st) = rb_processed st" "rb_processed (on_signal st) = rb_processed st"
  "rb_processed (on_send_failed st) = rb_processed st" "rb_processed (enter_drain st) = rb_processed st"
  by (simp_all add: print_rb_def call_rb_def count_rb_def forget_rb_def begin_shutdown_def with_result_ch_def
      on_notified_def on_signal_def on_send_failed_def enter_drain_def Let_def)

lemma handle_outcome_processed:
  assumes "handle_outcome o' st = (msg, st')"
  shows "rb_processed st' = rb_processed st + (if counts o' st then 1 else 0)"
  using assms
  by (auto simp: handle_outcome_def counts_def tracked_def Let_def split: action.splits option.splits if_splits)

lemma outcome_processed:
  "rb_processed (on_outcome now o' st) = rb_processed st + (if counts o' st then 1 else 0)"
  "rb_processed (drain_outcome o' st) = rb_processed st + (if counts o' st then 1 else 0)"
proof -
  obtain msg st1 where h: "handle_outcome o' st = (msg, st1)" by fastforce
  note e = handle_outcome_processed [OF h]
  show "rb_processed (on_outcome now o' st) = rb_processed st + (if counts o' st then 1 else 0)"
    using e by (auto simp: on_outcome_def h Let_def split: option.splits)
  show "rb_processed (drain_outcome o' st) = rb_processed st + (if counts o' st then 1 else 0)"
    using e by (auto simp: drain_outcome_def h)
qed

lemma total_okI:
  assumes "total_ok rb" "rb_processed rb' = rb_processed rb" "acks rb' = acks rb"
    "length (concluded rb) \<le> length (concluded rb')"
  shows "total_ok rb'"
  using assms by (metis le_trans total_ok_def)

lemma total_ok_next:
  assumes "total_ok rb" "rb_processed rb' = rb_processed rb + 1" "acks rb' \<le> Suc (acks rb)"
    "length (concluded rb') = Suc (length (concluded rb))"
  shows "total_ok rb'"
proof -
  obtain p where "rb_processed rb = of_nat p" "acks rb \<le> p" "p \<le> length (concluded rb)"
    using assms(1) by (auto simp: total_ok_def)
  then have "rb_processed rb' = of_nat (Suc p) \<and> acks rb' \<le> Suc p \<and> Suc p \<le> length (concluded rb')"
    using assms(2-4) by (simp add: add.commute)
  then show ?thesis unfolding total_ok_def by blast
qed

lemma filter_one_more:
  "distinct xs \<Longrightarrow> t \<in> set xs \<Longrightarrow> \<not> P t \<Longrightarrow> length (filter (\<lambda>x. x \<noteq> t \<longrightarrow> P x) xs) = Suc (length (filter P xs))"
proof (induction xs)
  case (Cons x xs)
  show ?case
  proof (cases "x = t")
    case True
    then have "filter (\<lambda>x. x \<noteq> t \<longrightarrow> P x) xs = filter P xs" using Cons.prems(1) by (intro filter_cong) auto
    then show ?thesis using True Cons.prems(3) by simp
  qed (use Cons in auto)
qed simp

lemma filter_mono_length:
  "(\<And>x. x \<in> set xs \<Longrightarrow> P x \<Longrightarrow> Q x) \<Longrightarrow> length (filter P xs) \<le> length (filter Q xs)"
  by (induction xs) (auto simp: le_SucI)

lemma total_conclude:
  assumes l: "ledger tags left rb" and ok: "total_ok rb"
    and fl: "rb_in_flight rb' = hm_remove (o_delivery_tag o') (rb_in_flight rb)"
    and calls: "rb_calls rb' = rb_calls rb @ outcome_calls o' rb"
    and p: "rb_processed rb' = rb_processed rb + (if counts o' rb then 1 else 0)"
    and tag: "o_delivery_tag o' \<in> dom (tracked rb) \<or> (o_delivery_tag o' = 0 \<and> is_fatal (o_action o'))"
  shows "total_ok rb'"
proof -
  let ?t = "o_delivery_tag o'"
  have T: "tracked rb' = (tracked rb)(?t := None)" using tracked_remove [OF fl] .
  have S: "settled rb' = settled rb @ map call_tag (outcome_calls o' rb)" by (simp add: settled_def calls)
  show ?thesis
  proof (cases "tracked rb ?t")
    case None
    then have "is_fatal (o_action o')" using tag by auto
    then have "outcome_calls o' rb = []" "\<not> counts o' rb" "tracked rb' = tracked rb"
      using None by (auto simp: outcome_calls_def counts_def T is_fatal_def fun_upd_idem split: action.splits)
    then show ?thesis by (intro total_okI [OF ok]) (simp_all add: p acks_def calls concluded_def S)
  next
    case (Some b)
    then have b: "(?t \<in> set (settled rb)) = b" using l by (auto simp: ledger_def)
    show ?thesis
    proof (cases b)
      case True
      have "distinct (settled rb)" using l by (simp add: ledger_def)
      then have c: "length (concluded rb') = Suc (length (concluded rb))"
        using filter_one_more [of "settled rb" ?t "\<lambda>x. tracked rb x = None"] b True Some
        by (simp add: concluded_def S T outcome_calls_def)
      have a: "acks rb' = acks rb" using Some True by (simp add: acks_def calls outcome_calls_def)
      show ?thesis
      proof (cases "counts o' rb")
        case True
        then show ?thesis by (intro total_ok_next [OF ok]) (simp_all add: p a c)
      next
        case False
        then show ?thesis by (intro total_okI [OF ok]) (simp_all add: p a c)
      qed
    next
      case False
      have old: "filter (\<lambda>x. tracked rb' x = None) (settled rb) = concluded rb"
        unfolding concluded_def by (rule filter_cong) (use b False in \<open>auto simp: T\<close>)
      show ?thesis
      proof (cases "is_fatal (o_action o')")
        case True
        then have "outcome_calls o' rb = []" "\<not> counts o' rb"
          by (auto simp: outcome_calls_def counts_def is_fatal_def split: action.splits)
        then show ?thesis using old
          by (intro total_okI [OF ok]) (simp_all add: p acks_def calls concluded_def [of rb'] S)
      next
        case nf: False
        then have "map call_tag (outcome_calls o' rb) = [?t]" "counts o' rb"
          "length (outcome_calls o' rb) = 1"
          using Some False by (auto simp: outcome_calls_def counts_def is_fatal_def split: action.splits)
        then show ?thesis using old
          length_filter_le [of "\<lambda>call. call = BasicAck (call_tag call)" "outcome_calls o' rb"]
          by (intro total_ok_next [OF ok]) (simp_all add: p acks_def calls concluded_def [of rb'] S T)
      qed
    qed
  qed
qed

lemma total_reject_tracked:
  assumes l: "ledger tags left rb" and ok: "total_ok rb" and p: "rb_processed rb' = rb_processed rb"
    and calls: "rb_calls rb' = rb_calls rb @ map BasicReject ts"
    and old: "\<And>t. t \<in> set (settled rb) \<Longrightarrow> tracked rb t = None \<Longrightarrow> tracked rb' t = None"
  shows "total_ok rb'"
proof (rule total_okI [OF ok p])
  show "acks rb' = acks rb" by (simp add: acks_def calls)
  have "length (filter (\<lambda>t. tracked rb t = None) (settled rb)) \<le> length (filter (\<lambda>t. tracked rb' t = None) (settled rb))"
    using old by (rule filter_mono_length)
  then show "length (concluded rb) \<le> length (concluded rb')" by (simp add: concluded_def settled_def calls)
qed

lemma fold_reject_long_processed: "rb_processed (fold reject_long ts st) = rb_processed st"
  by (induction ts arbitrary: st) (auto simp: reject_long_def split: option.splits)

lemma monitor_processed: "rb_processed (monitor_long_records now long k st) = rb_processed st"
  by (simp add: monitor_long_records_def Let_def fold_reject_long_processed)

lemma fold_settle_processed: "rb_processed (fold (settle_one snap) m st) = rb_processed st"
  by (induction m arbitrary: st) (auto simp: settle_one_def)

lemma total_settle:
  assumes "ledger tags left rb" "total_ok rb"
  shows "total_ok (settle_remaining rb)"
proof -
  have e: "rb_calls (settle_remaining rb) = rb_calls rb @ map BasicReject
      (map fst (filter (\<lambda>(t, f). \<not> if_rejected f \<and> t \<in> started (rb_proc rb)) (rb_in_flight rb)))"
    "tracked (settle_remaining rb) = Map.empty" "rb_processed (settle_remaining rb) = rb_processed rb"
    using fold_settle_one [of "started (rb_proc rb)" "rb_in_flight rb" "rb\<lparr>rb_in_flight := []\<rparr>"]
    by (simp_all add: settle_remaining_def fold_settle_processed tracked_def fun_eq_iff)
  show ?thesis by (rule total_reject_tracked [OF assms e(3,1)]) (simp add: e(2))
qed

lemma total_step:
  assumes "rb_step X c long threads st st'" "sys_inv X c st" and ok: "total_ok (y_rb st)"
  shows "total_ok (y_rb st')"
proof -
  note l = sys_invD(1) [OF assms(2)]
  have same: "rb_in_flight (y_rb st') = rb_in_flight (y_rb st) \<Longrightarrow> rb_calls (y_rb st') = rb_calls (y_rb st) \<Longrightarrow>
    rb_processed (y_rb st') = rb_processed (y_rb st) \<Longrightarrow> ?thesis"
    by (intro total_okI [OF ok]) (simp_all add: acks_def concluded_def settled_def tracked_def)
  have outcome_tag: "o_delivery_tag o' \<in> dom (tracked (y_rb st)) \<or> (o_delivery_tag o' = 0 \<and> is_fatal (o_action o'))"
    if "y_phase st \<noteq> MClosed" "o' \<in> set (outcomes (y_rb st))" for o'
    using sys_invD(2,3) [OF assms(2)] that by (auto simp: transit_ok_def Let_def outcome_ok_def)
  have recv: "o' \<in> set (outcomes (y_rb st))" if "chan_recv (result_ch (y_proc st)) = (Item o', ch)" for o' ch
    using recv_item [OF that] by (simp add: outcomes_def)
  have wr: "counts o' (with_result_ch ch (y_rb st)) = counts o' (y_rb st)" for o' ch
    by (cases "o_action o'") (simp_all add: counts_def)
  from assms(1) show ?thesis
  proof (cases rule: rb_step.cases)
    case (deliver_bad tag now data rb)
    have "rb = call_rb (BasicReject tag) (y_rb st)" using deliver_bad(5) by (auto simp: on_delivery_def split: sum.splits)
    then show ?thesis using deliver_bad(1)
      by (intro total_reject_tracked [OF l ok, of _ "[tag]"]) (simp_all add: tracked_def)
  next
    case (deliver_good tag now data rb item)
    obtain ri where rb: "rb = (y_rb st)\<lparr>rb_in_flight := hm_insert tag \<lparr>if_info = ri, if_started = now, if_rejected = False\<rparr>
        (rb_in_flight (y_rb st))\<rparr>" using deliver_good(5) by (auto simp: on_delivery_def split: sum.splits)
    have fresh: "tag \<notin> set (settled (y_rb st))" using deliver_good(4) l by (auto simp: ledger_def)
    have "tracked rb = (tracked (y_rb st))(tag \<mapsto> False)" by (simp add: rb tracked_def hm.get_ins fun_eq_iff)
    then show ?thesis using deliver_good(1) fresh
      by (intro total_reject_tracked [OF l ok, of _ "[]"]) (auto simp: rb)
  next
    case (outcome o' ch now)
    then show ?thesis
      using total_conclude [OF l ok _ _ _ outcome_tag [OF _ recv], of "on_outcome now o' (with_result_ch ch (y_rb st))" o' ch]
        same
      by (auto simp: on_outcome_effect outcome_processed wr loop_tail_def total_ok_def acks_def concluded_def settled_def tracked_def
          enter_drain_def Let_def)
  next
    case (drain o' ch)
    then show ?thesis
      using total_conclude [OF l ok _ _ _ outcome_tag [OF _ recv], of "drain_outcome o' (with_result_ch ch (y_rb st))" o' ch]
      by (simp add: drain_outcome_effect outcome_processed wr)
  next
    case (monitor now)
    have keys: "keys_ok (y_rb st)" using l by (simp add: ledger_def)
    obtain tags where t: "rb_calls (y_rb st') = rb_calls (y_rb st) @ map BasicReject tags"
      "\<And>t. t \<in> set tags \<Longrightarrow> tracked (y_rb st) t = Some False"
      "tracked (y_rb st') = (\<lambda>t. if t \<in> set tags then Some True else tracked (y_rb st) t)"
      by (rule monitor_effect [OF keys, of now long threads]) (use that monitor(1) in simp)
    show ?thesis
      by (rule total_reject_tracked [OF l ok _ t(1)]) (use t(2,3) in \<open>auto simp: monitor(1) monitor_processed\<close>)
  next
    case (settle ch)
    have "total_ok (settle_remaining (y_rb st))" by (rule total_settle [OF l ok])
    then show ?thesis by (simp add: settle(1))
  qed (use same in \<open>auto simp: on_delivery_def loop_tail_def enter_drain_def Let_def leaving_defs\<close>)
qed

lemma total_reach:
  assumes "rb_reach X c long threads (sys_init s now k fetcher) st"
  shows "total_ok (y_rb st)"
proof -
  have "sys_inv X c st \<and> total_ok (y_rb st)" using assms
  proof (induction rule: rb_reach.induct)
    case start
    have "total_ok (y_rb (sys_init s now k fetcher))"
      by (simp add: total_ok_def sys_init_def rabbit_new_def acks_def concluded_def settled_def)
    then show ?case using sys_inv_init by blast
  next
    case (step st st')
    then show ?case using sys_inv_step total_step by blast
  qed
  then show ?thesis ..
qed

text \<open>The number of adds a RabbitMQ run counts is truthful at every moment, in any interleaving: it is at
  least the number of \<open>basic_ack\<close> calls and at most the number of deliveries settled; a delivery the engine
  refused is in it as well.\<close>

lemma total_ok_bounds:
  assumes "total_ok rb"
  shows "\<exists>p. rb_processed rb = of_nat p \<and> acks rb \<le> p \<and> p \<le> length (rb_calls rb)"
proof -
  have "length (concluded rb) \<le> length (rb_calls rb)"
    unfolding concluded_def settled_def by (metis length_filter_le length_map)
  with assms show ?thesis unfolding total_ok_def by (meson le_trans)
qed

end
