(* ===== verification/Sz_Rabbit_Run.thy ===== *)
theory Sz_Rabbit_Run
  imports Sz_Rabbit_Totals
begin

text \<open>
  A run of the async task of \<open>crates/rabbit/src/combined.rs\<close> as a function: one event for each arm of the
  \<open>select!\<close>, for a turn of the drain and for a step of another thread, applied to the task's variables
  until the loop is left. The statistics thread, the depth probe and the shutdown deadline, which the step
  relation \<open>rb_step\<close> leaves out, are here; every such run is one of \<open>rb_step\<close>.
\<close>

section \<open>State and events\<close>

text \<open>\<open>rl_requests\<close> are the unanswered requests to the statistics thread, \<open>rl_answers\<close> the channel back, of
  capacity 1 (a second entry is held by the thread, blocked in its send). \<open>rl_deadline\<close> is
  \<open>shutdown_deadline\<close>.\<close>

record 'w rabbit_loop =
  rl_sys :: "'w sys"
  rl_stats :: stats_state
  rl_requests :: nat
  rl_answers :: "stats_payload list"
  rl_deadline :: "nat option"
  rl_left :: bool

datatype 'w rabbit_event =
    RSignal | RNotified | ROutcome | RMonitorTick | RStatsAnswer | RProbe "u32 option"
  | RDelivery delivery | RSendItem | RDrain
  | RStatsThread | RPick | RFinish nat nat | RWorkerFatal string | RWorkerEnds
  | RFetcherFatal string | RFetcherEnds | RElsewhere "'w proc"

definition stats_new :: "nat \<Rightarrow> stats_state" where
  "stats_new now =
     \<lparr>ss_mq_depth = None, ss_slope = ewma_new SLOPE_EWMA_ALPHA, ss_prev_backlog = None,
      ss_floor_guard = floor_guard_default, ss_last_status_at = now, ss_prev_adds = 0, ss_prev_redos = 0\<rparr>"

text \<open>The channels and the local variables before the loop; at 0 percent redo there is no redo channel.\<close>

definition redo_side :: "config \<Rightarrow> usize \<Rightarrow> 'w proc \<Rightarrow> 'w proc" where
  "redo_side c redo_pref s =
     (if c_redo_percent c > 0
      then s\<lparr>redo_ch := chan_new (unat (redo_pref + 2)) 1, redo_in_flight_map := []\<rparr> else s)"

definition rabbit_start :: "('w, 'e) ext \<Rightarrow> config \<Rightarrow> usize \<Rightarrow> 'w proc \<Rightarrow> 'w rabbit_loop" where
  "rabbit_start X c redo_pref s =
     (let now = now_ns X (world s)
      in \<lparr>rl_sys = sys_init (redo_side c redo_pref s) now (unat (c_threads c)) (c_redo_percent c > 0),
          rl_stats = stats_new now, rl_requests = 0, rl_answers = [], rl_deadline = None, rl_left = False\<rparr>)"

section \<open>The loop\<close>

text \<open>\<open>break\<close>; the end of a turn; a turn of the drain; \<open>None\<close> is a wait that goes on.\<close>

definition leave_loop :: "'w rabbit_loop \<Rightarrow> 'w rabbit_loop" where
  "leave_loop st = st\<lparr>rl_left := True\<rparr>"

definition end_turn :: "('w, 'e) ext \<Rightarrow> 'w rabbit \<Rightarrow> 'w sys \<Rightarrow> 'w rabbit_loop \<Rightarrow> 'w rabbit_loop" where
  "end_turn X rb y st =
     st\<lparr>rl_sys := loop_tail rb y,
        rl_deadline :=
          (if rb_shutting_down rb then Some (now_ns X (world (rb_proc rb)) + SHUTDOWN_GRACE) else rl_deadline st)\<rparr>"

definition drain_turn :: "('w, 'e) ext \<Rightarrow> 'w rabbit_loop \<Rightarrow> 'w rabbit_loop option" where
  "drain_turn X st =
     (let y = rl_sys st; rb = y_rb y
      in if rb_in_flight rb = [] then Some (leave_loop st)
         else if (case rl_deadline st of Some d \<Rightarrow> d \<le> now_ns X (world (rb_proc rb)) | None \<Rightarrow> True) then
           Some (leave_loop st)
         else
           (case chan_recv (result_ch (rb_proc rb)) of
              (Item o', ch) \<Rightarrow>
                Some (st\<lparr>rl_sys := y\<lparr>y_rb := drain_outcome o' (with_result_ch ch rb),
                                     y_left := y_left y @ left_by o' rb\<rparr>\<rparr>)
            | (Closed, _) \<Rightarrow> Some (leave_loop st)
            | (Empty, _) \<Rightarrow> None))"

text \<open>The arms of the \<open>select!\<close>. Delivery tags are fresh and not 0, as the broker promises. What
  \<open>monitor_redo_in_flight\<close> does is log.\<close>

definition loop_arm ::
  "('w, 'e) ext \<Rightarrow> config \<Rightarrow> usize \<Rightarrow> 'w rabbit_loop \<Rightarrow> 'w rabbit_event \<Rightarrow> 'w rabbit_loop option" where
  "loop_arm X c redo_pref st ev =
     (let y = rl_sys st; rb = y_rb y; s = rb_proc rb; now = now_ns X (world s)
      in case ev of
           RSignal \<Rightarrow> Some (end_turn X (on_signal rb) y st)
         | RNotified \<Rightarrow> if notified s > 0 then Some (end_turn X (on_notified rb) y st) else None
         | ROutcome \<Rightarrow>
             (case chan_recv (result_ch s) of
                (Item o', ch) \<Rightarrow>
                  Some (end_turn X (on_outcome now o' (with_result_ch ch rb))
                          (y\<lparr>y_left := y_left y @ left_by o' rb\<rparr>) st)
              | (Closed, _) \<Rightarrow> Some (leave_loop st)
              | (Empty, _) \<Rightarrow> None)
         | RMonitorTick \<Rightarrow>
             Some (st\<lparr>rl_requests := rl_requests st + 1,
                      rl_sys := y\<lparr>y_rb := monitor_long_records now (secs_ns (c_long_record_secs c)) (c_threads c) rb\<rparr>\<rparr>)
         | RStatsAnswer \<Rightarrow>
             (case rl_answers st of
                [] \<Rightarrow> None
              | p # ps \<Rightarrow>
                  (case on_stats c (c_threads c - redo_pref) redo_pref now p (s, rl_stats st) of
                     (s', ss) \<Rightarrow> Some (st\<lparr>rl_answers := ps, rl_stats := ss, rl_sys := with_proc s' y\<rparr>)))
         | RProbe depth \<Rightarrow> Some (st\<lparr>rl_stats := on_mq_probe depth (rl_stats st)\<rparr>)
         | RDelivery d \<Rightarrow>
             (case d of
                Delivery tag data \<Rightarrow>
                  if tag \<noteq> 0 \<and> tag \<notin> set (map fst (y_delivered y)) then
                    (case on_delivery (json_parse X) now d rb of
                       (rb', item) \<Rightarrow>
                         Some (st\<lparr>rl_sys := y\<lparr>y_rb := rb', y_phase := (case item of Some i \<Rightarrow> MSending i | None \<Rightarrow> MLoop),
                                              y_delivered := y_delivered y @ [(tag, data)]\<rparr>\<rparr>))
                  else None
              | _ \<Rightarrow> Some (end_turn X (fst (on_delivery (json_parse X) now d rb)) y st))
         | _ \<Rightarrow> None)"

text \<open>The inner \<open>select!\<close>, in which a delivery is handed to the workers.\<close>

definition send_arm ::
  "('w, 'e) ext \<Rightarrow> load_item \<Rightarrow> 'w rabbit_loop \<Rightarrow> 'w rabbit_event \<Rightarrow> 'w rabbit_loop option" where
  "send_arm X item st ev =
     (let y = rl_sys st; rb = y_rb y; s = rb_proc rb
      in case ev of
           RNotified \<Rightarrow> if notified s > 0 then Some (end_turn X (on_notified rb) y st) else None
         | RSendItem \<Rightarrow>
             (case chan_send (work_ch s) item of
                (Sent, ch) \<Rightarrow> Some (st\<lparr>rl_sys := with_proc (s\<lparr>work_ch := ch\<rparr>) (y\<lparr>y_phase := MLoop\<rparr>)\<rparr>)
              | (Disconnected, _) \<Rightarrow> Some (end_turn X (on_send_failed rb) y st)
              | (Full, _) \<Rightarrow> None)
         | _ \<Rightarrow> None)"

text \<open>The other threads: statistics, workers, fetcher, and what leaves the channels alone.\<close>

definition other_thread ::
  "('w, 'e) ext \<Rightarrow> worker_ctx \<Rightarrow> 'w rabbit_loop \<Rightarrow> 'w rabbit_event \<Rightarrow> 'w rabbit_loop option" where
  "other_thread X w st ev =
     (let y = rl_sys st; s = y_proc y
      in case ev of
           RStatsThread \<Rightarrow>
             if rl_requests st > 0 \<and> length (rl_answers st) < 2 then
               (case stats_answer X (world s) of
                  (p, w') \<Rightarrow> Some (st\<lparr>rl_requests := rl_requests st - 1, rl_answers := rl_answers st @ [p],
                                       rl_sys := with_proc (s\<lparr>world := w'\<rparr>) y\<rparr>))
             else None
         | RPick \<Rightarrow>
             (case chan_recv (work_ch s) of
                (Item item, ch) \<Rightarrow>
                  if y_idle y then
                    Some (st\<lparr>rl_sys := with_proc (begin_load X w item (s\<lparr>work_ch := ch\<rparr>)) (y\<lparr>y_busy := y_busy y @ [item]\<rparr>)\<rparr>)
                  else None
              | _ \<Rightarrow> None)
         | RFinish j elapsed \<Rightarrow>
             if j < length (y_busy y) then
               (let item = y_busy y ! j
                in case load_action X w item s of
                     (act, s1) \<Rightarrow>
                       Some (st\<lparr>rl_sys := with_proc (snd (finish_load item act elapsed s1))
                                (y\<lparr>y_busy := take j (y_busy y) @ drop (Suc j) (y_busy y),
                                   y_accepted := y_accepted y @ (case act of Ack _ \<Rightarrow> [item] | _ \<Rightarrow> [])\<rparr>)\<rparr>))
             else None
         | RWorkerFatal msg \<Rightarrow>
             if y_idle y then Some (st\<lparr>rl_sys := drop_sender (report_fatal msg y\<lparr>y_alive := y_alive y - 1\<rparr>)\<rparr>) else None
         | RWorkerEnds \<Rightarrow>
             if y_idle y \<and> fst (chan_recv (work_ch s)) = Closed
             then Some (st\<lparr>rl_sys := drop_sender (y\<lparr>y_alive := y_alive y - 1\<rparr>)\<rparr>) else None
         | RFetcherFatal msg \<Rightarrow>
             if y_fetcher y then Some (st\<lparr>rl_sys := drop_sender (report_fatal msg y\<lparr>y_fetcher := False\<rparr>)\<rparr>) else None
         | RFetcherEnds \<Rightarrow>
             if y_fetcher y then Some (st\<lparr>rl_sys := drop_sender (y\<lparr>y_fetcher := False\<rparr>)\<rparr>) else None
         | RElsewhere t \<Rightarrow> if same_channels s t then Some (st\<lparr>rl_sys := with_proc t y\<rparr>) else None
         | _ \<Rightarrow> None)"

fun of_task :: "'w rabbit_event \<Rightarrow> bool" where
  "of_task RSignal = True" | "of_task RNotified = True" | "of_task ROutcome = True"
| "of_task RMonitorTick = True" | "of_task RStatsAnswer = True" | "of_task (RProbe _) = True"
| "of_task (RDelivery _) = True" | "of_task RSendItem = True" | "of_task RDrain = True"
| "of_task _ = False"

definition rl_step ::
  "('w, 'e) ext \<Rightarrow> worker_ctx \<Rightarrow> config \<Rightarrow> usize \<Rightarrow> 'w rabbit_loop \<Rightarrow> 'w rabbit_event \<Rightarrow> 'w rabbit_loop option" where
  "rl_step X w c redo_pref st ev =
     (if rl_left st then None
      else if \<not> of_task ev then other_thread X w st ev
      else
        (case y_phase (rl_sys st) of
           MLoop \<Rightarrow> loop_arm X c redo_pref st ev
         | MSending item \<Rightarrow> send_arm X item st ev
         | MDraining \<Rightarrow> (case ev of RDrain \<Rightarrow> drain_turn X st | _ \<Rightarrow> None)
         | MClosed \<Rightarrow> None))"

fun rl_run ::
  "('w, 'e) ext \<Rightarrow> worker_ctx \<Rightarrow> config \<Rightarrow> usize \<Rightarrow> 'w rabbit_loop \<Rightarrow> 'w rabbit_event list \<Rightarrow> 'w rabbit_loop option" where
  "rl_run X w c redo_pref st [] = Some st"
| "rl_run X w c redo_pref st (e # es) =
     (case rl_step X w c redo_pref st e of None \<Rightarrow> None | Some st' \<Rightarrow> rl_run X w c redo_pref st' es)"

text \<open>The whole loop: the schedule is one after which it has been left. A share of redo workers that
  cannot be computed is a panic.\<close>

definition rabbit_loop_run ::
  "('w, 'e) ext \<Rightarrow> worker_ctx \<Rightarrow> config \<Rightarrow> 'w rabbit_event list \<Rightarrow> 'w proc \<Rightarrow> 'w rabbit_loop option" where
  "rabbit_loop_run X w c events s =
     (case redo_pref_workers c of
        None \<Rightarrow> None
      | Some r \<Rightarrow>
          (case rl_run X w c r (rabbit_start X c r s) events of
             None \<Rightarrow> None
           | Some st \<Rightarrow> if rl_left st then Some st else None))"

section \<open>A run is a run of the step relation\<close>

abbreviation rb_of :: "('w, 'e) ext \<Rightarrow> worker_ctx \<Rightarrow> config \<Rightarrow> 'w sys \<Rightarrow> 'w sys \<Rightarrow> bool" where
  "rb_of X w c \<equiv> rb_step X w (secs_ns (c_long_record_secs c)) (c_threads c)"

lemma on_stats_channels: "on_stats c l r now p (s, ss) = (s', ss') \<Longrightarrow> same_channels s s'"
  by (auto simp: on_stats_def same_channels_def Let_def split: prod.splits)

lemma left_loop_fields [simp]:
  "rl_sys (leave_loop st) = rl_sys st" "rl_left (leave_loop st)" "rl_deadline (leave_loop st) = rl_deadline st"
  by (simp_all add: leave_loop_def)

lemma end_turn_fields [simp]:
  "rl_sys (end_turn X rb y st) = loop_tail rb y" "rl_left (end_turn X rb y st) = rl_left st"
  by (simp_all add: end_turn_def)

lemma loop_arm_steps:
  assumes "loop_arm X c r st ev = Some st'" "y_phase (rl_sys st) = MLoop"
  shows "rl_sys st' = rl_sys st \<or> rb_of X w c (rl_sys st) (rl_sys st')"
proof (cases ev)
  case ROutcome
  then show ?thesis using assms
    by (auto simp: loop_arm_def Let_def intro!: rb_step.outcome split: try_outcome.splits prod.splits)
next
  case RMonitorTick
  then show ?thesis using assms by (auto simp: loop_arm_def Let_def intro!: rb_step.monitor)
next
  case RStatsAnswer
  obtain s' where "same_channels (y_proc (rl_sys st)) s'" "rl_sys st' = with_proc s' (rl_sys st)"
    using assms(1) RStatsAnswer by (auto simp: loop_arm_def Let_def dest: on_stats_channels split: list.splits prod.splits)
  then show ?thesis using rb_step.elsewhere by metis
next
  case (RDelivery d)
  let ?now = "now_ns X (world (y_proc (rl_sys st)))"
  show ?thesis
  proof (cases d)
    case (Delivery tag data)
    obtain rb item where d: "on_delivery (json_parse X) ?now (Delivery tag data) (y_rb (rl_sys st)) = (rb, item)" by fastforce
    have e: "tag \<noteq> 0" "tag \<notin> fst ` set (y_delivered (rl_sys st))"
      "rl_sys st' = (rl_sys st)\<lparr>y_rb := rb, y_phase := (case item of Some i \<Rightarrow> MSending i | None \<Rightarrow> MLoop),
         y_delivered := y_delivered (rl_sys st) @ [(tag, data)]\<rparr>"
      using assms(1) RDelivery Delivery d by (auto simp: loop_arm_def Let_def split: if_splits)
    show ?thesis
    proof (cases item)
      case None
      have "(rl_sys st)\<lparr>y_rb := rb, y_phase := MLoop, y_delivered := y_delivered (rl_sys st) @ [(tag, data)]\<rparr> =
        (rl_sys st)\<lparr>y_rb := rb, y_delivered := y_delivered (rl_sys st) @ [(tag, data)]\<rparr>"
        using assms(2) by (cases "rl_sys st") simp
      with e(3) None d rb_step.deliver_bad [OF assms(2) e(1,2), of X ?now data rb] show ?thesis by simp
    next
      case (Some i)
      with e(3) d rb_step.deliver_good [OF assms(2) e(1,2), of X ?now data rb i] show ?thesis by simp
    qed
  next
    case (ConsumeError err)
    then show ?thesis using assms RDelivery rb_step.stream_ends [OF assms(2), of d X ?now]
      by (auto simp: loop_arm_def Let_def on_delivery_def)
  next
    case StreamEnded
    then show ?thesis using assms RDelivery rb_step.stream_ends [OF assms(2), of d X ?now]
      by (auto simp: loop_arm_def Let_def on_delivery_def)
  qed
qed (use assms in \<open>auto simp: loop_arm_def Let_def intro: rb_step.signal rb_step.notified split: if_splits\<close>)

lemma send_arm_steps:
  assumes "send_arm X item st ev = Some st'" "y_phase (rl_sys st) = MSending item"
  shows "rb_of X w c (rl_sys st) (rl_sys st')"
proof (cases ev)
  case RSendItem
  obtain out ch where s: "chan_send (work_ch (y_proc (rl_sys st))) item = (out, ch)" by fastforce
  have "out = Disconnected \<Longrightarrow> \<not> ch_rx (work_ch (y_proc (rl_sys st)))"
    using s by (auto simp: chan_send_def split: if_splits)
  then show ?thesis using assms RSendItem s
    by (cases out) (auto simp: send_arm_def Let_def intro: rb_step.send rb_step.send_fails)
qed (use assms in \<open>auto simp: send_arm_def Let_def intro: rb_step.notified split: if_splits\<close>)

lemma drain_turn_steps:
  assumes "drain_turn X st = Some st'" "y_phase (rl_sys st) = MDraining"
  shows "rl_sys st' = rl_sys st \<or> rb_of X w c (rl_sys st) (rl_sys st')"
  using assms
  by (auto simp: drain_turn_def Let_def intro!: rb_step.drain split: if_splits try_outcome.splits prod.splits)

lemma other_thread_steps:
  assumes "other_thread X w st ev = Some st'"
  shows "rb_of X w c (rl_sys st) (rl_sys st')"
proof (cases ev)
  case RStatsThread
  obtain w' where "rl_sys st' = with_proc ((y_proc (rl_sys st))\<lparr>world := w'\<rparr>) (rl_sys st)"
    using assms RStatsThread by (auto simp: other_thread_def Let_def split: if_splits prod.splits)
  then show ?thesis using rb_step.elsewhere [of "rl_sys st" "(y_proc (rl_sys st))\<lparr>world := w'\<rparr>"]
    by (simp add: same_channels_def)
next
  case RPick
  then show ?thesis using assms
    by (auto simp: other_thread_def Let_def intro!: rb_step.pick split: try_outcome.splits prod.splits if_splits)
next
  case (RFinish j elapsed)
  let ?y = "rl_sys st"
  obtain act s1 where a: "load_action X w (y_busy ?y ! j) (y_proc ?y) = (act, s1)" by fastforce
  obtain kg s2 where f: "finish_load (y_busy ?y ! j) act elapsed s1 = (kg, s2)" by fastforce
  have j: "j < length (y_busy ?y)" using assms RFinish by (simp add: other_thread_def Let_def split: if_splits)
  have "rl_sys st' = with_proc s2 (?y\<lparr>y_busy := take j (y_busy ?y) @ drop (Suc j) (y_busy ?y),
      y_accepted := y_accepted ?y @ (case act of Ack _ \<Rightarrow> [y_busy ?y ! j] | _ \<Rightarrow> [])\<rparr>)"
    using assms RFinish j by (auto simp: other_thread_def Let_def a f)
  then show ?thesis using rb_step.finish [OF id_take_nth_drop [OF j] a f] by simp
qed (use assms in \<open>auto simp: other_thread_def Let_def simp del: One_nat_def intro: rb_step.worker_fatal rb_step.worker_ends
    rb_step.fetcher_fatal rb_step.fetcher_ends rb_step.elsewhere split: if_splits\<close>)

lemma rl_step_sound:
  assumes "rl_step X w c r st ev = Some st'"
  shows "rl_sys st' = rl_sys st \<or> rb_of X w c (rl_sys st) (rl_sys st')"
proof (cases "of_task ev")
  case False
  then show ?thesis using assms other_thread_steps by (fastforce simp: rl_step_def split: if_splits)
next
  case True
  show ?thesis
  proof (cases "y_phase (rl_sys st)")
    case MLoop
    then show ?thesis using assms True loop_arm_steps by (fastforce simp: rl_step_def split: if_splits)
  next
    case (MSending item)
    then show ?thesis using assms True send_arm_steps [OF _ MSending] by (fastforce simp: rl_step_def split: if_splits)
  next
    case MDraining
    then show ?thesis using assms True drain_turn_steps [OF _ MDraining]
      by (auto simp: rl_step_def split: if_splits rabbit_event.splits)
  next
    case MClosed
    then show ?thesis using assms True by (simp add: rl_step_def split: if_splits)
  qed
qed

lemma rl_run_reach:
  assumes "rl_run X w c r st events = Some st'"
    and "rb_reach X w (secs_ns (c_long_record_secs c)) (c_threads c) st0 (rl_sys st)"
  shows "rb_reach X w (secs_ns (c_long_record_secs c)) (c_threads c) st0 (rl_sys st')"
  using assms
proof (induction events arbitrary: st)
  case (Cons e es)
  obtain st1 where st1: "rl_step X w c r st e = Some st1" "rl_run X w c r st1 es = Some st'"
    using Cons.prems(1) by (auto split: option.splits)
  from rl_step_sound [OF st1(1)] Cons.prems(2)
  have "rb_reach X w (secs_ns (c_long_record_secs c)) (c_threads c) st0 (rl_sys st1)"
    by (metis rb_reach.step)
  then show ?case by (rule Cons.IH [OF st1(2)])
qed simp

section \<open>What the loop leaves behind\<close>

text \<open>A delivery dropped unsettled is dropped for a fatal error, which the run reports.\<close>

definition drops_are_fatal :: "'w sys \<Rightarrow> bool" where
  "drops_are_fatal st \<longleftrightarrow> y_phase st = MClosed \<or> y_left st = [] \<or> rb_fatal (y_rb st) \<noteq> None"

lemma fatal_simps [simp]:
  "rb_fatal (print_rb l st) = rb_fatal st" "rb_fatal (call_rb c st) = rb_fatal st" "rb_fatal (count_rb f st) = rb_fatal st"
  "rb_fatal (forget_rb tag st) = rb_fatal st" "rb_fatal (with_result_ch ch st) = rb_fatal st"
  "rb_fatal (on_signal st) = rb_fatal st" "rb_fatal (on_notified st) \<noteq> None" "rb_fatal (on_send_failed st) \<noteq> None"
  "rb_fatal (enter_drain st) = rb_fatal st" "rb_fatal (y_rb (loop_tail rb y)) = rb_fatal rb"
  "rb_fatal (y_rb (with_proc s y)) = rb_fatal (y_rb y)"
  by (auto simp: print_rb_def call_rb_def count_rb_def forget_rb_def with_result_ch_def on_signal_def on_notified_def
      on_send_failed_def begin_shutdown_def enter_drain_def Let_def loop_tail_def with_proc_def split: option.splits)

lemma handle_outcome_fatal:
  assumes "handle_outcome o' st = (msg, st')"
  shows "rb_fatal st' = rb_fatal st" "is_fatal (o_action o') \<Longrightarrow> msg \<noteq> None"
  using assms by (auto simp: handle_outcome_def is_fatal_def Let_def split: action.splits option.splits if_splits)

lemma outcome_fatal:
  "rb_fatal st \<noteq> None \<or> is_fatal (o_action o') \<Longrightarrow> rb_fatal (on_outcome now o' st) \<noteq> None"
  "rb_fatal st \<noteq> None \<or> is_fatal (o_action o') \<Longrightarrow> rb_fatal (drain_outcome o' st) \<noteq> None"
proof -
  obtain msg st1 where h: "handle_outcome o' st = (msg, st1)" by fastforce
  note f = handle_outcome_fatal [OF h]
  show "rb_fatal st \<noteq> None \<or> is_fatal (o_action o') \<Longrightarrow> rb_fatal (on_outcome now o' st) \<noteq> None"
    using f by (auto simp: on_outcome_def h begin_shutdown_def Let_def split: option.splits)
  show "rb_fatal st \<noteq> None \<or> is_fatal (o_action o') \<Longrightarrow> rb_fatal (drain_outcome o' st) \<noteq> None"
    using f by (auto simp: drain_outcome_def h)
qed

lemma monitor_fatal:
  fixes st :: "'w rabbit"
  shows "rb_fatal (monitor_long_records now long k st) = rb_fatal st"
proof -
  have "rb_fatal (fold reject_long ts st) = rb_fatal st" for ts and st :: "'w rabbit"
    by (induction ts arbitrary: st) (auto simp: reject_long_def split: option.splits)
  then show ?thesis by (simp add: monitor_long_records_def Let_def)
qed

lemma drops_step:
  assumes "rb_step X c long threads st st'" "drops_are_fatal st"
  shows "drops_are_fatal st'"
  using assms(1)
proof (cases rule: rb_step.cases)
  case (deliver_bad tag now data rb)
  then have "rb_fatal rb = rb_fatal (y_rb st)" by (auto simp: on_delivery_def split: sum.splits)
  with deliver_bad assms(2) show ?thesis by (simp add: drops_are_fatal_def)
next
  case (deliver_good tag now data rb item)
  then have "rb_fatal rb = rb_fatal (y_rb st)" by (auto simp: on_delivery_def split: sum.splits)
  with deliver_good assms(2) show ?thesis by (simp add: drops_are_fatal_def)
next
  case (stream_ends d now rb)
  then have "rb_fatal (y_rb st) \<noteq> None \<Longrightarrow> rb_fatal rb \<noteq> None" by (auto simp: on_delivery_def begin_shutdown_def)
  with stream_ends assms(2) show ?thesis by (auto simp: drops_are_fatal_def)
next
  case (outcome o' ch now)
  then show ?thesis using assms(2) outcome_fatal(1) [of "with_result_ch ch (y_rb st)" o' now]
    by (auto simp: drops_are_fatal_def left_by_def)
next
  case (drain o' ch)
  then show ?thesis using assms(2) outcome_fatal(2) [of "with_result_ch ch (y_rb st)" o']
    by (auto simp: drops_are_fatal_def left_by_def)
next
  case (monitor now)
  then show ?thesis using assms(2) by (simp add: drops_are_fatal_def monitor_fatal)
qed (use assms(2) in \<open>auto simp: drops_are_fatal_def leaving_defs\<close>)

lemma drops_reach:
  assumes "rb_reach X c long threads (sys_init s now k fetcher) st"
  shows "drops_are_fatal st"
  using assms by induction (simp add: drops_are_fatal_def sys_init_def, blast intro: drops_step)

text \<open>The loop never makes the final settlement itself.\<close>

lemma end_turn_open: "y_phase y \<noteq> MClosed \<Longrightarrow> y_phase (rl_sys (end_turn X rb y st)) \<noteq> MClosed"
  by (simp add: loop_tail_def)

lemma rl_step_open:
  assumes "rl_step X w c r st ev = Some st'" "y_phase (rl_sys st) \<noteq> MClosed"
  shows "y_phase (rl_sys st') \<noteq> MClosed"
  using assms
  by (cases ev)
    (auto simp: rl_step_def loop_arm_def send_arm_def drain_turn_def other_thread_def Let_def loop_tail_def leaving_defs
      split: main_phase.splits if_splits try_outcome.splits send_outcome.splits prod.splits list.splits delivery.splits option.splits)

lemma rl_run_open:
  "rl_run X w c r st es = Some st' \<Longrightarrow> y_phase (rl_sys st) \<noteq> MClosed \<Longrightarrow> y_phase (rl_sys st') \<noteq> MClosed"
  by (induction es arbitrary: st) (auto split: option.splits dest: rl_step_open)

lemma rabbit_loop_reach:
  assumes "rabbit_loop_run X w c events s = Some st"
  obtains s0 where "rb_reach X w (secs_ns (c_long_record_secs c)) (c_threads c)
      (sys_init s0 (now_ns X (world s)) (unat (c_threads c)) (c_redo_percent c > 0)) (rl_sys st)"
    "y_phase (rl_sys st) \<noteq> MClosed" "rl_left st"
proof -
  obtain r where r: "rl_run X w c r (rabbit_start X c r s) events = Some st" "rl_left st"
    using assms by (auto simp: rabbit_loop_run_def split: option.splits if_splits)
  have i: "rl_sys (rabbit_start X c r s) =
      sys_init (redo_side c r s) (now_ns X (world s)) (unat (c_threads c)) (c_redo_percent c > 0)"
    by (simp add: rabbit_start_def Let_def)
  have "y_phase (rl_sys (rabbit_start X c r s)) \<noteq> MClosed" by (simp add: i sys_init_def)
  from rl_run_open [OF r(1) this] r(2) that rl_run_reach [OF r(1) rb_reach.start, unfolded i] show ?thesis by blast
qed

text \<open>The account of the deliveries when the loop has been left, other threads have acted for a while, and
  the remaining deliveries have been settled.\<close>

lemma settled_after_loop:
  fixes s' :: "'w proc"
  assumes "rabbit_loop_run X w c events s = Some st"
  defines "rb \<equiv> settle_remaining ((y_rb (rl_sys st))\<lparr>rb_proc := s'\<rparr>)"
  shows "distinct (map call_tag (rb_calls rb))"
    "set (map call_tag (rb_calls rb)) \<subseteq> fst ` set (y_delivered (rl_sys st))"
    "BasicAck t \<in> set (rb_calls rb) \<Longrightarrow>
       \<exists>data ri v v' resp. (t, data) \<in> set (y_delivered (rl_sys st)) \<and> parse_record (json_parse X) data = Ok ri \<and>
         add_record X (data_source ri) (record_id ri) data (add_flags w) v = (Ok resp, v')"
    "rb_fatal (y_rb (rl_sys st)) = None \<Longrightarrow> t \<in> fst ` set (y_delivered (rl_sys st)) \<Longrightarrow>
       t \<in> call_tag ` set (rb_calls rb) \<or> t \<notin> started s'"
    "\<exists>p. rb_processed rb = of_nat p \<and> acks rb \<le> p \<and> p \<le> length (rb_calls rb)"
proof -
  let ?y = "rl_sys st"
  let ?rb = "(y_rb ?y)\<lparr>rb_proc := s'\<rparr>"
  obtain s0 where r: "rb_reach X w (secs_ns (c_long_record_secs c)) (c_threads c)
      (sys_init s0 (now_ns X (world s)) (unat (c_threads c)) (c_redo_percent c > 0)) ?y" and open': "y_phase ?y \<noteq> MClosed"
    using rabbit_loop_reach [OF assms(1)] by blast
  note D = sys_invD [OF sys_inv_reach [OF r]]
  let ?now = "map fst (filter (\<lambda>(t, f). \<not> if_rejected f \<and> t \<notin> started s') (rb_in_flight (y_rb ?y)))"
  have l0: "ledger (map fst (y_delivered ?y)) (y_left ?y) ?rb" using D(1) ledger_cong [of ?rb "y_rb ?y"] by simp
  from ledger_settle [OF this] have l: "ledger (map fst (y_delivered ?y)) (y_left ?y @ ?now) rb"
    by (simp add: rb_def)
  then show "distinct (map call_tag (rb_calls rb))"
    "set (map call_tag (rb_calls rb)) \<subseteq> fst ` set (y_delivered ?y)"
    unfolding ledger_def settled_def by auto
  have calls: "rb_calls rb = rb_calls (y_rb ?y) @ map BasicReject
      (map fst (filter (\<lambda>(t, f). \<not> if_rejected f \<and> t \<in> started s') (rb_in_flight (y_rb ?y))))"
    using fold_settle_one [of "started s'" "rb_in_flight (y_rb ?y)" "?rb\<lparr>rb_in_flight := []\<rparr>"]
    by (simp add: rb_def settle_remaining_def)
  show "\<exists>data ri v v' resp. (t, data) \<in> set (y_delivered ?y) \<and> parse_record (json_parse X) data = Ok ri \<and>
      add_record X (data_source ri) (record_id ri) data (add_flags w) v = (Ok resp, v')"
    if "BasicAck t \<in> set (rb_calls rb)"
  proof -
    have "BasicAck t \<in> set (rb_calls (y_rb ?y))" using that by (auto simp: calls)
    from D(6) [OF this] obtain i where i: "i \<in> set (y_accepted ?y)" "t = delivery_tag i" by blast
    then show ?thesis using D(5) [OF i(1)] unfolding came_def engine_took_def by blast
  qed
  show "t \<in> call_tag ` set (rb_calls rb) \<or> t \<notin> started s'"
    if "rb_fatal (y_rb ?y) = None" "t \<in> fst ` set (y_delivered ?y)"
  proof -
    have "y_left ?y = []" using drops_reach [OF r] open' that(1) by (simp add: drops_are_fatal_def)
    moreover have "dom (tracked rb) = {}" by (simp add: rb_def tracked_def dom_def)
    ultimately have "t \<in> set (settled rb) \<or> t \<in> set ?now" using l that(2) unfolding ledger_def by auto
    then show ?thesis by (auto simp: settled_def)
  qed
  have "total_ok ?rb" using total_reach [OF r] by (simp add: total_ok_def acks_def concluded_def tracked_def settled_def)
  from total_ok_bounds [OF total_settle [OF l0 this]]
  show "\<exists>p. rb_processed rb = of_nat p \<and> acks rb \<le> p \<and> p \<le> length (rb_calls rb)" by (simp add: rb_def)
qed

end
