(* ===== verification/Sz_File_Reasons.thy ===== *)
theory Sz_File_Reasons
  imports Sz_File_Loader
begin

text \<open>
  Why a line of a file counts as done: it is blank, it is not a record, or the engine was given exactly
  that line and took it or refused it. The watermark a load prints is as good as these reasons.
\<close>

section \<open>Trimming keeps UTF-8\<close>

text \<open>A white space character is never cut out of the middle of another: it starts with a byte that does not
  continue one.\<close>

lemma utf8_split:
  "utf8_wf (xs @ b # ys) \<Longrightarrow> \<not> cont_byte b \<Longrightarrow> utf8_wf xs"
proof (induction xs rule: utf8_wf.induct)
  case (2 a bs)
  note u = utf8_wf.simps(2) [of a]
  show ?case
  proof (cases "a \<le> 127")
    case True
    with "2.prems" "2.IH"(1) show ?thesis by (simp add: u del: utf8_wf.simps(2))
  next
    case False
    consider "bs = []" | x where "bs = [x]" | x y where "bs = [x, y]" | x y z r where "bs = x # y # z # r"
      by (metis neq_Nil_conv)
    then show ?thesis
    proof cases
      case 1
      with "2.prems" False show ?thesis
        by (simp add: u cont_byte_def del: utf8_wf.simps(2) split: if_splits list.splits)
    next
      case (2 x)
      with "2.prems" False show ?thesis
        by (simp add: u [of "x # b # ys"] u [of "[x]"] cont_byte_def del: utf8_wf.simps(2) split: if_splits list.splits)
    next
      case (3 x y)
      with "2.prems" "2.IH"(2) False show ?thesis
        by (simp add: u [of "x # y # b # ys"] u [of "[x, y]"] cont_byte_def del: utf8_wf.simps(2) split: if_splits)
    next
      case (4 x y z r)
      with "2.prems" "2.IH" False show ?thesis
        by (simp add: u [of "x # y # z # r @ b # ys"] u [of "x # y # z # r"] del: utf8_wf.simps(2) split: if_splits)
    qed
  qed
qed simp

lemma ws_prefix_utf8:
  assumes "utf8_wf bs" "0 < ws_prefix bs"
  shows "utf8_wf (drop (ws_prefix bs) bs)"
proof (cases bs)
  case (Cons a r)
  note u = utf8_wf.simps(2) [of a r]
  show ?thesis
  proof (cases "(9 \<le> a \<and> a \<le> 13) \<or> a = 32")
    case True
    then have "ws_prefix bs = 1" "a \<le> 127" by (cases bs rule: ws_prefix.cases; auto simp: Cons)+
    with assms(1) u show ?thesis by (simp add: Cons del: utf8_wf.simps(2))
  next
    case False
    show ?thesis
    proof (cases "ws_prefix bs = 2")
      case True
      with False have "a = 194" by (cases bs rule: ws_prefix.cases) (auto simp: Cons split: if_splits)
      with assms(1) u True show ?thesis by (simp add: Cons del: utf8_wf.simps(2) split: list.splits)
    next
      case n2: False
      with False assms(2) have "ws_prefix bs = 3" "224 \<le> a \<and> a \<le> 239"
        by (cases bs rule: ws_prefix.cases; auto simp: Cons split: if_splits)+
      with assms(1) u show ?thesis by (simp add: Cons del: utf8_wf.simps(2) split: list.splits)
    qed
  qed
qed (use assms in simp)

lemma ws_prefix_start: "0 < ws_prefix (b # bs) \<Longrightarrow> \<not> cont_byte b"
  by (cases "b # bs" rule: ws_prefix.cases) (auto simp: cont_byte_def split: if_splits)

lemma ws_suffix_start:
  assumes "0 < ws_suffix rs"
  obtains b bs where "rev rs = rev (drop (ws_suffix rs) rs) @ b # bs" "\<not> cont_byte b"
proof -
  let ?n = "ws_suffix rs"
  have e: "rev rs = rev (drop ?n rs) @ rev (take ?n rs)" by (simp flip: rev_append)
  obtain a r where rs: "rs = a # r" using assms by (cases rs) auto
  have "\<exists>b bs. rev (take ?n rs) = b # bs \<and> \<not> cont_byte b"
  proof (cases "(9 \<le> a \<and> a \<le> 13) \<or> a = 32")
    case True
    then show ?thesis by (auto simp: rs cont_byte_def)
  next
    case False
    then have n: "0 < ws_prefix (rev (take ?n rs))" using assms by (auto simp: rs split: if_splits)
    then obtain b bs where "rev (take ?n rs) = b # bs" by (cases "rev (take ?n rs)") auto
    with n ws_prefix_start show ?thesis by metis
  qed
  with e that show ?thesis by metis
qed

lemma trim_start_utf8: "utf8_wf (map byte s) \<Longrightarrow> utf8_wf (map byte (trim_start s))"
proof (induction s rule: trim_start.induct)
  case (1 s)
  show ?case
  proof (cases "ws_prefix (map byte s) = 0 \<or> s = []")
    case True
    then show ?thesis using "1.prems" by (subst trim_start.simps) simp
  next
    case False
    then have "utf8_wf (map byte (drop (ws_prefix (map byte s)) s))"
      using ws_prefix_utf8 [OF "1.prems"] by (simp add: drop_map)
    from "1.IH" [OF False this] False show ?thesis by (subst trim_start.simps) simp
  qed
qed

lemma trim_end_utf8: "utf8_wf (map byte (rev s)) \<Longrightarrow> utf8_wf (map byte (rev (trim_end_rev s)))"
proof (induction s rule: trim_end_rev.induct)
  case (1 s)
  show ?case
  proof (cases "ws_suffix (map byte s) = 0 \<or> s = []")
    case True
    then show ?thesis using "1.prems" by (subst trim_end_rev.simps) simp
  next
    case False
    then obtain b bs where "rev (map byte s) = rev (drop (ws_suffix (map byte s)) (map byte s)) @ b # bs" "\<not> cont_byte b"
      using ws_suffix_start [of "map byte s"] by auto
    then have "utf8_wf (map byte (rev (drop (ws_suffix (map byte s)) s)))"
      using "1.prems" utf8_split by (metis drop_map rev_map)
    from "1.IH" [OF False this] False show ?thesis by (subst trim_end_rev.simps) simp
  qed
qed

lemma trim_utf8: "utf8_wf (map byte s) \<Longrightarrow> utf8_wf (map byte (trim s))"
  using trim_end_utf8 [of "rev (trim_start s)"] trim_start_utf8 [of s] by (simp add: trim_def)

section \<open>Reasons\<close>

text \<open>The text of line \<open>l\<close> of the file, if it can be read.\<close>

definition line_at :: "line_read list \<Rightarrow> u64 \<Rightarrow> string option" where
  "line_at content l =
     (case drop (unat l - 1) content of
        [] \<Rightarrow> None
      | raw # _ \<Rightarrow> (case lines_item raw of Inl _ \<Rightarrow> None | Inr line \<Rightarrow> Some (trim line)))"

definition f_came :: "('w, 'e) ext \<Rightarrow> line_read list \<Rightarrow> load_item \<Rightarrow> bool" where
  "f_came X content i \<longleftrightarrow>
     line_at content (delivery_tag i) = Some (body i) \<and> parse_record (json_parse X) (body i) = Ok (info i)"

text \<open>The engine was asked to load the line, and took it or called it bad input.\<close>

definition engine_answered :: "('w, 'e) ext \<Rightarrow> worker_ctx \<Rightarrow> string \<Rightarrow> bool" where
  "engine_answered X w text \<longleftrightarrow>
     (\<exists>ri v v' r. parse_record (json_parse X) text = Ok ri \<and>
        add_record X (data_source ri) (record_id ri) text (add_flags w) v = (r, v') \<and>
        (case r of Inr _ \<Rightarrow> True | Inl e \<Rightarrow> is_bad_input X e \<or> is_retryable X e \<or> error_code X e = Some 82))"

definition line_reason :: "('w, 'e) ext \<Rightarrow> worker_ctx \<Rightarrow> line_read list \<Rightarrow> u64 \<Rightarrow> bool" where
  "line_reason X w content l \<longleftrightarrow>
     (\<exists>text. line_at content l = Some text \<and>
        (text = [] \<or> is_err (parse_record (json_parse X) text) \<or> engine_answered X w text))"

section \<open>The invariant\<close>

definition fl_items :: "'w fl_state \<Rightarrow> load_item list" where
  "fl_items st = ch_buf (work_ch (fl_proc st)) @ fl_busy st @
     (case fl_reader st of RFeeding item _ _ \<Rightarrow> [item] | _ \<Rightarrow> [])"

definition reasons_ok :: "('w, 'e) ext \<Rightarrow> worker_ctx \<Rightarrow> line_read list \<Rightarrow> 'w fl_state \<Rightarrow> bool" where
  "reasons_ok X w content st \<longleftrightarrow>
     (\<forall>i \<in> set (fl_items st). f_came X content i) \<and>
     (\<forall>(i, a) \<in> set (fl_acted st). f_came X content i \<and> justified X w i a) \<and>
     (\<forall>o' \<in> set (ch_buf (result_ch (fl_proc st))). is_fatal (o_action o') \<or>
        (\<exists>i. (i, o_action o') \<in> set (fl_acted st) \<and> delivery_tag i = o_delivery_tag o')) \<and>
     (\<forall>l \<in> set (fl_done st). line_reason X w content l)"

lemma reasons_okI:
  assumes "\<And>i. i \<in> set (fl_items st) \<Longrightarrow> f_came X content i"
    "\<And>i a. (i, a) \<in> set (fl_acted st) \<Longrightarrow> f_came X content i \<and> justified X w i a"
    "\<And>o'. o' \<in> set (ch_buf (result_ch (fl_proc st))) \<Longrightarrow> \<not> is_fatal (o_action o') \<Longrightarrow>
       \<exists>i. (i, o_action o') \<in> set (fl_acted st) \<and> delivery_tag i = o_delivery_tag o'"
    "\<And>l. l \<in> set (fl_done st) \<Longrightarrow> line_reason X w content l"
  shows "reasons_ok X w content st"
  using assms by (auto simp: reasons_ok_def)

lemma reasons_okD:
  assumes "reasons_ok X w content st"
  shows "\<And>i. i \<in> set (fl_items st) \<Longrightarrow> f_came X content i"
    "\<And>i a. (i, a) \<in> set (fl_acted st) \<Longrightarrow> f_came X content i \<and> justified X w i a"
    "\<And>o'. o' \<in> set (ch_buf (result_ch (fl_proc st))) \<Longrightarrow> \<not> is_fatal (o_action o') \<Longrightarrow>
       \<exists>i. (i, o_action o') \<in> set (fl_acted st) \<and> delivery_tag i = o_delivery_tag o'"
    "\<And>l. l \<in> set (fl_done st) \<Longrightarrow> line_reason X w content l"
  using assms by (auto simp: reasons_ok_def)

lemma line_at_next:
  assumes "drop n content = raw # rest" "Suc n < 2 ^ 64"
  shows "line_at content (of_nat n + 1) = (case lines_item raw of Inl _ \<Rightarrow> None | Inr line \<Rightarrow> Some (trim line))"
proof -
  have "(of_nat n + 1 :: u64) = of_nat (Suc n)" by simp
  then have "unat (of_nat n + 1 :: u64) = Suc n"
    using assms(2) by (simp only: unat_of_nat) (simp add: take_bit_nat_eq_self)
  then show ?thesis by (simp add: line_at_def assms(1))
qed

text \<open>The item of a line is UTF-8, so the worker always gets to the engine with it.\<close>

lemma f_came_utf8:
  assumes "f_came X content i"
  shows "from_utf8 (body i) = Some (body i)"
proof -
  obtain raw line where l: "lines_item raw = Inr line" "body i = trim line"
    using assms by (auto simp: f_came_def line_at_def split: list.splits sum.splits)
  then have "utf8_wf (map byte line)"
    by (auto simp: lines_item_def ok_or_def split: line_read.splits option.splits)
  with l(2) show ?thesis by (simp add: trim_utf8)
qed

lemma answered_reason:
  assumes "f_came X content i" "justified X w i a" "\<not> is_fatal a"
  shows "line_reason X w content (delivery_tag i)"
proof -
  obtain v v' r where "add_record X (data_source (info i)) (record_id (info i)) (body i) (add_flags w) v = (r, v')"
    "a = (case r of Inr resp \<Rightarrow> Ack (if want_info w then Some resp else None)
       | Inl e \<Rightarrow> (if is_bad_input X e \<or> is_retryable X e \<or> error_code X e = Some 82
                   then RejectNoRequeue else Fatal (err_display X e)))"
    using assms(2) f_came_utf8 [OF assms(1)] unfolding justified_def by auto
  then have "engine_answered X w (body i)"
    using assms(1,3) unfolding engine_answered_def f_came_def
    by (intro exI [of _ "info i"] exI [of _ v] exI [of _ v'] exI [of _ r]) (auto simp: is_fatal_def split: sum.splits if_splits)
  then show ?thesis using assms(1) by (auto simp: line_reason_def f_came_def)
qed

text \<open>A pass of the reader: what it hands over is a record of the file, what it completes has a reason.\<close>

lemma reader_pass_reasons:
  assumes r: "reader_pass X skip rd s t = (rd', s', t')" and n: "reader_at content n rd" and L: "length content < 2 ^ 64 - 1"
  shows "i \<in> set (ch_buf (work_ch s') @ (case rd' of RFeeding item _ _ \<Rightarrow> [item] | _ \<Rightarrow> [])) \<Longrightarrow>
      i \<in> set (ch_buf (work_ch s) @ (case rd of RFeeding item _ _ \<Rightarrow> [item] | _ \<Rightarrow> [])) \<or> f_came X content i"
    "l \<in> set (reader_done rd rd' skip) \<Longrightarrow> line_reason X w content l" "result_ch s' = result_ch s"
proof -
  note simps = reader_pass_def reader_done_def f_came_def line_reason_def
  have "(\<forall>i \<in> set (ch_buf (work_ch s') @ (case rd' of RFeeding item _ _ \<Rightarrow> [item] | _ \<Rightarrow> [])).
      i \<in> set (ch_buf (work_ch s) @ (case rd of RFeeding item _ _ \<Rightarrow> [item] | _ \<Rightarrow> [])) \<or> f_came X content i) \<and>
    (\<forall>l \<in> set (reader_done rd rd' skip). line_reason X w content l) \<and> result_ch s' = result_ch s"
  proof (cases rd)
    case (RNext rest m)
    show ?thesis
    proof (cases rest)
      case (Cons raw rest')
      have m: "m = of_nat n" and dr: "drop n content = raw # rest'" using n by (simp_all add: reader_at_def RNext Cons)
      have "n < length content" using dr by (metis drop_eq_Nil2 linorder_not_less list.distinct(1))
      then have "Suc n < 2 ^ 64" using L by simp
      note at = line_at_next [OF dr this]
      show ?thesis using r
        by (cases "lines_item raw")
          (auto simp: simps RNext Cons Let_def m at is_err_def split: if_splits sum.splits)
    qed (use r in \<open>auto simp: simps RNext\<close>)
  qed (use r in \<open>auto simp: simps chan_send_def split: if_splits\<close>)
  then show "i \<in> set (ch_buf (work_ch s') @ (case rd' of RFeeding item _ _ \<Rightarrow> [item] | _ \<Rightarrow> [])) \<Longrightarrow>
      i \<in> set (ch_buf (work_ch s) @ (case rd of RFeeding item _ _ \<Rightarrow> [item] | _ \<Rightarrow> [])) \<or> f_came X content i"
    "l \<in> set (reader_done rd rd' skip) \<Longrightarrow> line_reason X w content l" "result_ch s' = result_ch s" by blast+
qed

text \<open>Steps that complete nothing and decide nothing.\<close>

lemma reasons_same:
  assumes "reasons_ok X w content st" "set (fl_items st') \<subseteq> set (fl_items st)"
    "\<And>o'. o' \<in> set (ch_buf (result_ch (fl_proc st'))) \<Longrightarrow> is_fatal (o_action o') \<or> o' \<in> set (ch_buf (result_ch (fl_proc st)))"
    "fl_acted st' = fl_acted st" "fl_done st' = fl_done st"
  shows "reasons_ok X w content st'"
proof (rule reasons_okI)
  show "\<exists>i. (i, o_action o') \<in> set (fl_acted st') \<and> delivery_tag i = o_delivery_tag o'"
    if "o' \<in> set (ch_buf (result_ch (fl_proc st')))" "\<not> is_fatal (o_action o')" for o'
    using that reasons_okD(3) [OF assms(1)] assms(3,4) by metis
qed (use reasons_okD(1,2,4) [OF assms(1)] assms(2,4,5) in auto)

lemma reasons_step:
  assumes step: "fl_step X w skip st e = Some st'" and inv: "fl_inv skip content n st"
    and L: "length content < 2 ^ 64 - 1" and ok: "reasons_ok X w content st"
  shows "reasons_ok X w content st'"
proof -
  let ?s = "fl_proc st"
  have rd: "reader_at content n (fl_reader st)" and rx: "ch_rx (result_ch ?s)"
    using inv by (simp_all add: fl_inv_def sentinels_ok_def)
  note D = reasons_okD [OF ok]
  show ?thesis
  proof (cases e)
    case FReader
    obtain rd' s' t' where r: "reader_pass X skip (fl_reader st) ?s (fl_tracker st) = (rd', s', t')"
      by (metis prod_cases3)
    then have st': "st' = st\<lparr>fl_proc := s', fl_tracker := t', fl_reader := rd',
        fl_done := fl_done st @ reader_done (fl_reader st) rd' skip,
        fl_dropped := fl_dropped st @ reader_dropped (fl_reader st) rd'\<rparr>"
      using step by (simp add: fl_step_def FReader Let_def)
    note k = reader_pass_reasons [OF r rd L]
    show ?thesis
    proof (rule reasons_okI)
      show "\<And>i. i \<in> set (fl_items st') \<Longrightarrow> f_came X content i" using k(1) D(1) by (auto simp: fl_items_def st')
      show "\<And>l. l \<in> set (fl_done st') \<Longrightarrow> line_reason X w content l" using k(2) D(4) by (auto simp: st')
    qed (use D(2,3) k(3) in \<open>auto simp: st'\<close>)
  next
    case (FNoEngine msg)
    then have "st' = st\<lparr>fl_proc := signal_fatal msg (?s\<lparr>glob := mark_fatal (glob ?s)\<rparr>), fl_alive := fl_alive st - 1\<rparr>"
      using step by (auto simp: fl_step_def Let_def split: if_splits)
    then show ?thesis by (intro reasons_same [OF ok]) (auto simp: fl_items_def signal_fatal_buf is_fatal_def)
  next
    case FPick
    then obtain item rest where "ch_buf (work_ch ?s) = item # rest"
      "st' = st\<lparr>fl_proc := begin_load X w item (?s\<lparr>work_ch := (work_ch ?s)\<lparr>ch_buf := rest\<rparr>\<rparr>), fl_busy := fl_busy st @ [item]\<rparr>"
      using step by (auto elim: fl_pickE)
    then show ?thesis by (intro reasons_same [OF ok]) (auto simp: fl_items_def begin_load_fields)
  next
    case (FFinish j el)
    then obtain act s1 where j: "j < length (fl_busy st)" and a: "load_action X w (fl_busy st ! j) ?s = (act, s1)"
      and st': "st' = st\<lparr>fl_proc := snd (finish_load (fl_busy st ! j) act el s1),
          fl_alive := (if fst (finish_load (fl_busy st ! j) act el s1) then fl_alive st else fl_alive st - 1),
          fl_busy := take j (fl_busy st) @ drop (Suc j) (fl_busy st), fl_acted := fl_acted st @ [(fl_busy st ! j, act)]\<rparr>"
      using step by (auto elim: fl_finishE)
    note f = load_action_fields [OF a]
    let ?i = "fl_busy st ! j"
    have i: "?i \<in> set (fl_items st)" using j by (simp add: fl_items_def)
    have res: "ch_buf (result_ch (fl_proc st')) = ch_buf (result_ch ?s) @ [outcome_of ?i act]"
      using rx by (simp add: st' finish_load_effect f)
    show ?thesis
    proof (rule reasons_okI)
      show "\<And>i. i \<in> set (fl_items st') \<Longrightarrow> f_came X content i"
        using D(1) rx by (auto simp: st' fl_items_def finish_load_effect f dest: in_set_takeD in_set_dropD)
      show "\<exists>i. (i, o_action o') \<in> set (fl_acted st') \<and> delivery_tag i = o_delivery_tag o'"
        if "o' \<in> set (ch_buf (result_ch (fl_proc st')))" "\<not> is_fatal (o_action o')" for o'
        using that D(3) [of o'] unfolding res by (auto simp: st' outcome_of_def)
    qed (use D(1,2,4) i conjunct2 [OF load_action_justified [OF a]] in \<open>auto simp: st'\<close>)
  next
    case FConsume
    then obtain o' rest where b: "ch_buf (result_ch ?s) = o' # rest"
      using step by (auto simp: fl_step_def Let_def chan_recv_def split: list.splits if_splits)
    obtain s' t' where k: "consume_outcome (want_info w) o' (?s\<lparr>result_ch := (result_ch ?s)\<lparr>ch_buf := rest\<rparr>\<rparr>) (fl_tracker st) = (s', t')"
      by fastforce
    have st': "st' = st\<lparr>fl_proc := s', fl_tracker := t',
        fl_done := fl_done st @ (if is_fatal (o_action o') then [] else [o_delivery_tag o']),
        fl_fatal := fl_fatal st @ (if is_fatal (o_action o') \<and> o_delivery_tag o' \<noteq> 0 then [o_delivery_tag o'] else [])\<rparr>"
      using step FConsume by (simp add: fl_step_def Let_def chan_recv_def b k)
    have f: "work_ch s' = work_ch ?s" "ch_buf (result_ch s') = rest"
      using k by (auto simp: consume_outcome_def Let_def split: action.splits)
    have "line_reason X w content (o_delivery_tag o')" if "\<not> is_fatal (o_action o')"
    proof -
      have "o' \<in> set (ch_buf (result_ch ?s))" by (simp add: b)
      from D(3) [OF this that] obtain i where "(i, o_action o') \<in> set (fl_acted st)" "delivery_tag i = o_delivery_tag o'"
        by blast
      with D(2) that answered_reason show ?thesis by metis
    qed
    then show ?thesis using D f b by (intro reasons_okI) (auto simp: st' fl_items_def split: if_splits)
  next
    case FSignal
    then have "st' = st\<lparr>fl_proc := ?s\<lparr>glob := request_shutdown (glob ?s)\<rparr>\<rparr>" using step by (simp add: fl_step_def Let_def)
    then show ?thesis by (intro reasons_same [OF ok]) (simp_all add: fl_items_def)
  next
    case (FWorld v)
    then have "st' = st\<lparr>fl_proc := ?s\<lparr>world := v\<rparr>\<rparr>" using step by (simp add: fl_step_def Let_def)
    then show ?thesis by (intro reasons_same [OF ok]) (simp_all add: fl_items_def)
  qed
qed

lemma reasons_init: "reasons_ok X w content (fl_init s content skip k)"
  by (simp add: reasons_ok_def fl_init_def fl_items_def chan_new_def)

text \<open>The watermark is safe in every state the invariants hold in.\<close>

lemma watermark_reasons:
  assumes inv: "fl_inv skip content n st" and L: "length content < 2 ^ 64 - 1" and skip: "skip \<noteq> - 1"
    and ok: "reasons_ok X w content st" and l: "skip < l" "l \<le> watermark (fl_tracker st)"
  shows "line_reason X w content l"
proof -
  have m: "mset (fl_done st @ pending st) = mset (lines_from skip n)"
    and t: "fl_tracker st = fold complete_line (fl_done st) (tracker_new (skip + 1))" using inv by (simp_all add: fl_inv_def)
  have "n \<le> length content" using inv readable_le [of content] by (simp add: fl_inv_def reader_at_def)
  moreover have "set (fl_done st) \<subseteq> set (lines_from skip n)" using m by (metis le_supE set_append set_mset_mset subset_refl)
  ultimately have m1: "- 1 \<notin> set (fl_done st)" using lines_from_range(2) [of n] L by fastforce
  have "skip + 1 \<noteq> 0" using skip by (metis eq_neg_iff_add_eq_0)
  from watermark_aux(3) [OF this m1, of l] l less_succ [OF skip] have "l \<in> set (fl_done st)"
    unfolding t by (auto simp: not_le [symmetric])
  then show ?thesis by (rule reasons_okD(4) [OF ok])
qed

section \<open>A load without a fatal error\<close>

text \<open>The consumer of the outcomes ends when every worker has left and nothing is left to read; a worker
  leaves without an engine, or when the reader has returned and nothing is queued.\<close>

definition consumer_ended :: "'w fl_state \<Rightarrow> bool" where
  "consumer_ended st \<longleftrightarrow> ch_buf (result_ch (fl_proc st)) = [] \<and> fl_busy st = [] \<and>
     (ch_buf (work_ch (fl_proc st)) = [] \<or> fl_alive st = 0)"

text \<open>Every failure is marked in \<open>WORKER_FATAL\<close>; the reader gives up only when it is told to stop.\<close>

definition failures_marked :: "nat \<Rightarrow> nat \<Rightarrow> 'w fl_state \<Rightarrow> bool" where
  "failures_marked k lines st \<longleftrightarrow>
     ch_rx (work_ch (fl_proc st)) \<and> fl_dropped st = [] \<and>
     (fl_fatal st \<noteq> [] \<or> (\<exists>o' \<in> set (ch_buf (result_ch (fl_proc st))). is_fatal (o_action o')) \<or> fl_alive st < k
        \<longrightarrow> WORKER_FATAL (glob (fl_proc st))) \<and>
     (\<forall>m. fl_reader st = RReturned (Ok m) \<and> RUNNING (glob (fl_proc st)) \<longrightarrow> m = of_nat lines)"

lemma failures_marked_step:
  assumes step: "fl_step X w skip st e = Some st'" and inv: "fl_inv skip content n st"
    and ok: "failures_marked k (length content) st"
  shows "failures_marked k (length content) st'"
proof -
  let ?s = "fl_proc st"
  have rd: "reader_at content n (fl_reader st)" and rx: "ch_rx (result_ch ?s)"
    using inv by (simp_all add: fl_inv_def sentinels_ok_def)
  note defs = failures_marked_def fl_step_def Let_def
  show ?thesis
  proof (cases e)
    case FReader
    show ?thesis
    proof (cases "fl_reader st")
      case (RNext rest m)
      have "rest = [] \<Longrightarrow> n = length content"
        using rd readable_le [of content] by (auto simp: reader_at_def RNext)
      then have "rest = [] \<Longrightarrow> m = of_nat (length content)" using rd by (simp add: reader_at_def RNext)
      then show ?thesis using step ok FReader RNext
        by (cases rest) (auto simp: defs reader_pass_def reader_dropped_def split: if_splits sum.splits)
    qed (use step ok FReader in \<open>auto simp: defs reader_pass_def reader_dropped_def chan_send_def split: if_splits\<close>)
  next
    case (FNoEngine msg)
    then have "st' = st\<lparr>fl_proc := signal_fatal msg (?s\<lparr>glob := mark_fatal (glob ?s)\<rparr>), fl_alive := fl_alive st - 1\<rparr>"
      using step by (auto simp: fl_step_def Let_def split: if_splits)
    then show ?thesis using ok
      by (auto simp: failures_marked_def signal_fatal_def send_outcome_p_def chan_blocking_send_def mark_fatal_def Let_def)
  next
    case FPick
    then obtain item rest where "ch_buf (work_ch ?s) = item # rest"
      "st' = st\<lparr>fl_proc := begin_load X w item (?s\<lparr>work_ch := (work_ch ?s)\<lparr>ch_buf := rest\<rparr>\<rparr>), fl_busy := fl_busy st @ [item]\<rparr>"
      using step by (auto elim: fl_pickE)
    then show ?thesis using ok by (auto simp: failures_marked_def begin_load_fields)
  next
    case (FFinish j el)
    then obtain act s1 where a: "load_action X w (fl_busy st ! j) ?s = (act, s1)"
      and st': "st' = st\<lparr>fl_proc := snd (finish_load (fl_busy st ! j) act el s1),
          fl_alive := (if fst (finish_load (fl_busy st ! j) act el s1) then fl_alive st else fl_alive st - 1),
          fl_busy := take j (fl_busy st) @ drop (Suc j) (fl_busy st), fl_acted := fl_acted st @ [(fl_busy st ! j, act)]\<rparr>"
      using step by (auto elim: fl_finishE)
    note f = load_action_fields [OF a]
    have rx1: "ch_rx (result_ch s1)" using rx f by simp
    have g: "WORKER_FATAL (glob (snd (finish_load (fl_busy st ! j) act el s1))) = (is_fatal act \<or> WORKER_FATAL (glob ?s))"
      "RUNNING (glob (snd (finish_load (fl_busy st ! j) act el s1))) \<Longrightarrow> RUNNING (glob ?s)"
      using rx1 by (auto simp: finish_load_def send_outcome_p_def Let_def mark_fatal_def f(3) split: prod.splits if_splits)
    show ?thesis using ok g finish_load_stays [OF rx1]
      by (auto simp: failures_marked_def st' finish_load_effect [OF rx1] f outcome_of_def)
  next
    case FConsume
    then show ?thesis using step ok
      by (auto simp: defs chan_recv_def consume_outcome_def is_fatal_def
          split: list.splits if_splits action.splits prod.splits)
  next
    case FSignal
    then show ?thesis using step ok by (auto simp: defs request_shutdown_def)
  next
    case (FWorld v)
    then show ?thesis using step ok by (auto simp: defs)
  qed
qed

text \<open>The three invariants of a load, for every run from its start.\<close>

lemma fl_run_invs:
  assumes "fl_run X w skip st es = Some st'" "fl_inv skip content n st" "length content < 2 ^ 64 - 1"
    "reasons_ok X w content st" "failures_marked k (length content) st"
  shows "\<exists>n'. fl_inv skip content n' st' \<and> reasons_ok X w content st' \<and> failures_marked k (length content) st'"
  using assms
proof (induction es arbitrary: st n)
  case (Cons e es)
  then obtain st1 where st1: "fl_step X w skip st e = Some st1" "fl_run X w skip st1 es = Some st'"
    by (auto split: option.splits)
  obtain n1 where "fl_inv skip content n1 st1" using fl_inv_step [OF st1(1) Cons.prems(2,3)] by blast
  then show ?case
    using Cons.IH [OF st1(2)] reasons_step [OF st1(1) Cons.prems(2-4)]
      failures_marked_step [OF st1(1) Cons.prems(2,5)] Cons.prems(3) by blast
qed auto

text \<open>What is left pending when the consumer has ended and no failure was marked: nothing.\<close>

lemma quiet_end_nothing_pending:
  assumes "failures_marked k lines st" "consumer_ended st" "\<not> WORKER_FATAL (glob (fl_proc st))" "0 < k"
    "fl_reader st = RReturned r"
  shows "pending st = []"
  using assms
  by (auto simp: failures_marked_def consumer_ended_def pending_def work_tags_def real_tags_def feeding_def)

end
