(* ===== verification/Sz_Runs.thy ===== *)
theory Sz_Runs
  imports Sz_Pure_Redoer Sz_Sqs_System Sz_Pool Sz_Rabbit_Run Sz_File_Reasons
begin

text \<open>
  The other runs as a whole: set-up, loop, closing of the channels, bounded wait for the engine threads,
  final settlement and summary, and what each reports to \<open>main\<close>. The loops are \<open>fl_run\<close>
  (\<open>Sz_File_Loader\<close>), \<open>rl_run\<close> (\<open>Sz_Rabbit_Run\<close>) and \<open>sq_run\<close> (\<open>Sz_Sqs_System\<close>).
\<close>

section \<open>What the operating system decides\<close>

text \<open>
  The threads and when they are finished, the answers to thread creation (as in \<open>run_redoer\<close>: the workers
  first, then one more), what the other threads do before each pass of a wait and during the bounded join,
  and the number of passes given to the loops.
\<close>

record 'w os =
  os_threads :: "'w threads"
  os_spawn :: "nat \<Rightarrow> string option"
  os_others :: "nat \<Rightarrow> 'w proc \<Rightarrow> 'w proc"
  os_late :: "'w proc \<Rightarrow> 'w proc"
  os_passes :: nat
  os_fuel :: nat

definition thread_finished :: "'w os \<Rightarrow> 'w proc \<Rightarrow> nat \<Rightarrow> bool" where
  "thread_finished os s h \<longleftrightarrow> is_finished (os_threads os) h (world s)"

text \<open>Time does not run backwards, a finished thread stays finished, a stopped process stays stopped.\<close>

definition os_ok :: "('w, 'e) ext \<Rightarrow> 'w os \<Rightarrow> bool" where
  "os_ok X os \<longleftrightarrow> clock_ok X \<and> finish_ok X (os_threads os) \<and> 200 < os_fuel os \<and>
     (\<forall>h w. is_finished (os_threads os) h w \<longrightarrow> is_finished (os_threads os) h (snd (get_stats X w))) \<and>
     (\<forall>h k s. thread_finished os s h \<longrightarrow> thread_finished os (os_others os k s) h) \<and>
     (\<forall>h s. thread_finished os s h \<longrightarrow> thread_finished os (os_late os s) h) \<and>
     (\<forall>s. \<not> RUNNING (glob s) \<longrightarrow> \<not> RUNNING (glob (os_late os s)))"

definition run_pure_redoer_os ::
  "('w, 'e) ext \<Rightarrow> 'w os \<Rightarrow> config \<Rightarrow> 'w proc \<Rightarrow> ((bool \<times> (redoer_error + unit)) \<times> 'w proc) option" where
  "run_pure_redoer_os X os c s =
     run_redoer X (os_threads os) (os_spawn os) (os_fuel os) (os_passes os) (os_others os) (os_late os) c s"

definition wait_for ::
  "('w, 'e) ext \<Rightarrow> 'w os \<Rightarrow> nat \<Rightarrow> nat list \<Rightarrow> 'w proc \<Rightarrow> (bool \<times> 'w proc) option" where
  "wait_for X os deadline handles s =
     await_workers X (os_threads os) (os_passes os) (os_others os) deadline handles s"

section \<open>What happens in a run\<close>

text \<open>The file (\<open>None\<close> when it cannot be opened), the events of a file load up to the return of its reader and
  those after it, whether the tokio runtime can be built, the answers to the set-up calls, and the events of
  the two queue loops.\<close>

record 'w course =
  co_file :: "line_read list option"
  co_load :: "'w fl_event list"
  co_rest :: "'w fl_event list"
  co_tokio :: bool
  co_answers :: "string option list"
  co_rabbit :: "'w rabbit_event list"
  co_sqs :: "'w sqs_event list"

text \<open>How an item is loaded depends on what all contexts of a pool share.\<close>

definition pool_ctx :: "('w, 'e) ext \<Rightarrow> u64 option \<Rightarrow> config \<Rightarrow> worker_ctx option" where
  "pool_ctx X iv c = map_option (\<lambda>r. combined_ctx X iv c r 0) (redo_pref_workers c)"

lemma any_worker_loads_alike:
  assumes "add_flags a = add_flags b" "want_info a = want_info b" "poll_iv a = poll_iv b"
  shows "load_action X a item s = load_action X b item s" "begin_load X a item s = begin_load X b item s"
  unfolding load_action_def begin_load_def poll_p_def assms by (rule refl)+

lemma pool_loads_alike:
  "load_action X (combined_ctx X iv c r i) = load_action X (combined_ctx X iv c r j)"
  "begin_load X (combined_ctx X iv c r i) = begin_load X (combined_ctx X iv c r j)"
  "load_action X (file_ctx X iv c i) = load_action X (file_ctx X iv c j)"
  "begin_load X (file_ctx X iv c i) = begin_load X (file_ctx X iv c j)"
  by (intro ext any_worker_loads_alike; simp add: combined_ctx_def file_ctx_def)+

section \<open>The file run\<close>

text \<open>A join without a bound: the pass is repeated until the thread is finished.\<close>

definition join_pass :: "'w os \<Rightarrow> nat \<Rightarrow> unit \<Rightarrow> 'w proc \<Rightarrow> unit option \<times> 'w proc" where
  "join_pass os h l s = (if thread_finished os s h then None else Some (), s)"

definition join_thread :: "'w os \<Rightarrow> nat \<Rightarrow> 'w proc \<Rightarrow> 'w proc option" where
  "join_thread os h s = drive (os_passes os) (os_others os) (join_pass os h) () s"

definition drop_work_tx :: "'w proc \<Rightarrow> 'w proc" where
  "drop_work_tx s = s\<lparr>work_ch := chan_drop_sender (work_ch s)\<rparr>"

text \<open>The start of the threads: without a consumer (thread \<open>k\<close>) the channel of outcomes has no receiver.\<close>

definition fl_open :: "'w proc \<Rightarrow> line_read list option \<Rightarrow> u64 \<Rightarrow> nat \<Rightarrow> bool \<Rightarrow> 'w fl_state" where
  "fl_open s content skip k has_consumer =
     (let st = (case content of
                  Some lines \<Rightarrow> fl_init s lines skip k
                | None \<Rightarrow> (fl_init s [] skip k)\<lparr>fl_reader := RReturned (Err ())\<rparr>);
          p = fl_proc st
      in if has_consumer then st else st\<lparr>fl_proc := p\<lparr>result_ch := (result_ch p)\<lparr>ch_rx := False\<rparr>\<rparr>\<rparr>)"

text \<open>The bounded wait for the workers, then the join of the consumer, when there is one.\<close>

definition file_wait :: "('w, 'e) ext \<Rightarrow> 'w os \<Rightarrow> nat \<Rightarrow> 'w proc \<Rightarrow> (bool \<times> 'w proc) option" where
  "file_wait X os k s =
     (case wait_for X os (now_ns X (world s) + SHUTDOWN_GRACE) [0..<k] (drop_work_tx s) of
        None \<Rightarrow> None
      | Some (clean, s1) \<Rightarrow>
          map_option (Pair clean) (if os_spawn os k = None then join_thread os k s1 else Some s1))"

text \<open>From the return of the reader on: \<open>rest\<close> is what the threads do during the two waits, so the shared
  state they lead to is that of the waits; a consumer that was joined has ended.\<close>

definition file_finish ::
  "('w, 'e) ext \<Rightarrow> 'w os \<Rightarrow> worker_ctx \<Rightarrow> nat \<Rightarrow> u64 \<Rightarrow> 'w fl_event list \<Rightarrow> 'w fl_state \<Rightarrow>
     ((bool \<times> (run_error + unit)) \<times> 'w proc) option" where
  "file_finish X os w k skip rest st =
     (case fl_reader st of
        RReturned read_result \<Rightarrow>
          (case file_wait X os k (fl_proc st) of
             None \<Rightarrow> None
           | Some (clean, s) \<Rightarrow>
               (case fl_run X w skip (st\<lparr>fl_proc := drop_work_tx (fl_proc st)\<rparr>) rest of
                  None \<Rightarrow> None
                | Some st' \<Rightarrow>
                    if fl_proc st' = s \<and> (os_spawn os k = None \<longrightarrow> consumer_ended st') then
                      Some ((clean, file_result read_result (glob s)), file_summary s (fl_tracker st'))
                    else None))
      | _ \<Rightarrow> None)"

definition seed_config :: "('w, 'e) ext \<Rightarrow> 'w proc \<Rightarrow> 'w proc" where
  "seed_config X s = (case log_startup_config X (rload s) (world s) of (r, w) \<Rightarrow> s\<lparr>rload := r, world := w\<rparr>)"

text \<open>The whole run; when a worker cannot be created it returns at once, and says the workers are clean.\<close>

definition run_file_os ::
  "('w, 'e) ext \<Rightarrow> 'w os \<Rightarrow> u64 option \<Rightarrow> 'w course \<Rightarrow> config \<Rightarrow> 'w proc \<Rightarrow>
     ((bool \<times> (run_error + unit)) \<times> 'w proc) option" where
  "run_file_os X os iv co c s =
     (let k = unat (c_threads c); skip = c_skip_lines c; w = file_ctx X iv c 0; s0 = seed_config X s
      in if list_ex (\<lambda>i. os_spawn os i \<noteq> None) [0..<k] then
           Some ((True, Err WorkerSpawnFailed), s0\<lparr>glob := (glob s0)\<lparr>RUNNING := False\<rparr>\<rparr>)
         else
           (case fl_run X w skip (fl_open s0 (co_file co) skip k (os_spawn os k = None)) (co_load co) of
              None \<Rightarrow> None
            | Some st \<Rightarrow> file_finish X os w k skip (co_rest co) st))"

section \<open>The queue runs\<close>

text \<open>The threads whose handles a queue run keeps and waits for at its end: the workers, and the redo fetcher
  when redo is on. The statistics thread of a RabbitMQ run (\<open>combined.rs\<close>), which has an engine handle too,
  is not one of them: its handle is dropped.\<close>

definition awaited_threads :: "config \<Rightarrow> nat list" where
  "awaited_threads c =
     [0..<unat (c_threads c)] @ (if c_redo_percent c > 0 then [unat (c_threads c)] else [])"

definition stats_thread :: "config \<Rightarrow> nat" where
  "stats_thread c = unat (c_threads c) + 1"

text \<open>The fallible steps before the loop, each left with \<open>?\<close>: the run fails with the first error. The redo
  fetcher (thread \<open>k\<close>) is created before the workers; \<open>answers\<close> are those of \<open>lapin\<close> and of the signal
  handlers, in order, and the statistics thread of the RabbitMQ run is created last.\<close>

datatype setup_error = UrlMissing | QueueMissing | ThreadFailed string | SetupFailed string

fun first_error :: "'x option list \<Rightarrow> 'x option" where
  "first_error [] = None"
| "first_error (Some e # rest) = Some e"
| "first_error (None # rest) = first_error rest"

definition spawn_errors :: "'w os \<Rightarrow> config \<Rightarrow> setup_error option list" where
  "spawn_errors os c =
     (let k = unat (c_threads c)
      in (if c_redo_percent c > 0 then [map_option ThreadFailed (os_spawn os k)] else []) @
         map (\<lambda>i. map_option ThreadFailed (os_spawn os i)) [0..<k])"

definition rabbit_setup :: "'w os \<Rightarrow> config \<Rightarrow> string option list \<Rightarrow> setup_error option" where
  "rabbit_setup os c answers =
     first_error
       ([if c_url c = None then Some UrlMissing else None, if c_queue c = None then Some QueueMissing else None] @
        spawn_errors os c @ map (map_option SetupFailed) answers @
        [map_option ThreadFailed (os_spawn os (stats_thread c))])"

definition sqs_setup :: "'w os \<Rightarrow> config \<Rightarrow> string option list \<Rightarrow> setup_error option" where
  "sqs_setup os c answers = first_error (spawn_errors os c @ map (map_option SetupFailed) answers)"

text \<open>\<open>run\<close> of \<open>combined.rs\<close> stops the threads already started when the set-up fails.\<close>

definition setup_failed :: "'w proc \<Rightarrow> 'w proc" where
  "setup_failed s = s\<lparr>glob := (glob s)\<lparr>RUNNING := False\<rparr>\<rparr>"

text \<open>RabbitMQ: the end of the run, from the loop on, and the run from the loop to its end.\<close>

definition rabbit_finish ::
  "('w, 'e) ext \<Rightarrow> 'w os \<Rightarrow> config \<Rightarrow> 'w rabbit_loop \<Rightarrow> (run_outcome \<times> 'w rabbit) option" where
  "rabbit_finish X os c st =
     (let rb = y_rb (rl_sys st); s = rb_proc rb;
          until = (case rl_deadline st of Some d \<Rightarrow> d | None \<Rightarrow> now_ns X (world s) + SHUTDOWN_GRACE)
      in case wait_for X os until (awaited_threads c) s of
           None \<Rightarrow> None
         | Some (joined, s1) \<Rightarrow>
             Some (\<lparr>all_workers_joined = joined, fatal = rb_fatal rb\<rparr>,
                   final_summary (settle_remaining (rb\<lparr>rb_proc := s1\<rparr>))))"

definition run_rabbit_os ::
  "('w, 'e) ext \<Rightarrow> 'w os \<Rightarrow> u64 option \<Rightarrow> 'w rabbit_event list \<Rightarrow> config \<Rightarrow> 'w proc \<Rightarrow>
     (run_outcome \<times> 'w rabbit) option" where
  "run_rabbit_os X os iv events c s =
     (case pool_ctx X iv c of
        None \<Rightarrow> None
      | Some w \<Rightarrow>
          (case rabbit_loop_run X w c events s of
             None \<Rightarrow> None
           | Some st \<Rightarrow> rabbit_finish X os c st))"

text \<open>SQS: the same.\<close>

definition sqs_finish :: "('w, 'e) ext \<Rightarrow> 'w os \<Rightarrow> config \<Rightarrow> 'w sqs_sys \<Rightarrow> (run_outcome \<times> 'w sqs_sys) option" where
  "sqs_finish X os c st =
     (let s = sq_proc st
      in case wait_for X os (now_ns X (world s) + SHUTDOWN_GRACE) (awaited_threads c) s of
           None \<Rightarrow> None
         | Some (joined, s1) \<Rightarrow>
             Some (\<lparr>all_workers_joined = joined, fatal = sq_fatal st\<rparr>, sqs_summary (st\<lparr>sq_proc := s1\<rparr>)))"

definition run_sqs_os ::
  "('w, 'e) ext \<Rightarrow> 'w os \<Rightarrow> u64 option \<Rightarrow> 'w sqs_event list \<Rightarrow> config \<Rightarrow> sqs_params \<Rightarrow> 'w proc \<Rightarrow>
     (run_outcome \<times> 'w sqs_sys) option" where
  "run_sqs_os X os iv events c p s =
     (case pool_ctx X iv c of
        None \<Rightarrow> None
      | Some w \<Rightarrow>
          (case sq_run X w (c_threads c) (unat (p_max_messages p))
                  (sqs_init s (unat (c_threads c)) (c_redo_percent c > 0)) events of
             None \<Rightarrow> None
           | Some st \<Rightarrow> if sq_main st = QJoining then sqs_finish X os c st else None))"

section \<open>A wait that reports a clean end found every thread finished\<close>

lemma wait_for_clean:
  assumes "wait_for X os deadline handles s = Some (True, t)" "h \<in> set handles"
  shows "thread_finished os t h"
  using assms by (auto simp: wait_for_def await_workers_def all_finished_def thread_finished_def list_all_iff
      split: option.splits)

lemma file_summary_world [simp]: "world (file_summary s t) = world s"
  by (simp add: file_summary_def)

lemma join_thread_keeps:
  assumes ok: "os_ok X os" and j: "join_thread os c s = Some t" and h: "thread_finished os s h"
  shows "thread_finished os t h"
proof -
  have "\<exists>l' s'. thread_finished os s' h \<and> join_pass os c l' s' = (None, t)"
    by (rule drive_exit [OF j [unfolded join_thread_def], where I = "\<lambda>_ s. thread_finished os s h"])
      (use ok h in \<open>auto simp: os_ok_def join_pass_def split: if_splits\<close>)
  then show ?thesis by (auto simp: join_pass_def split: if_splits)
qed

lemma thread_finished_world: "world s = world t \<Longrightarrow> thread_finished os s h = thread_finished os t h"
  by (simp add: thread_finished_def)

lemma file_wait_clean:
  assumes ok: "os_ok X os" and wt: "file_wait X os k s = Some (True, t)" and h: "h < k"
  shows "thread_finished os t h"
proof -
  obtain s1 where s1: "wait_for X os (now_ns X (world s) + SHUTDOWN_GRACE) [0..<k] (drop_work_tx s) = Some (True, s1)"
    and t: "(if os_spawn os k = None then join_thread os k s1 else Some s1) = Some t"
    using wt by (auto simp: file_wait_def split: option.splits)
  have "thread_finished os s1 h" using wait_for_clean [OF s1] h by simp
  then show ?thesis using t join_thread_keeps [OF ok] by (auto split: if_splits)
qed

lemma file_finishE:
  assumes "file_finish X os w k skip rest st = Some ((clean, result), t)"
  obtains r s st' where "fl_reader st = RReturned r" "file_wait X os k (fl_proc st) = Some (clean, s)"
    "fl_run X w skip (st\<lparr>fl_proc := drop_work_tx (fl_proc st)\<rparr>) rest = Some st'" "fl_proc st' = s"
    "os_spawn os k = None \<Longrightarrow> consumer_ended st'" "result = file_result r (glob s)" "t = file_summary s (fl_tracker st')"
  using assms by (auto simp: file_finish_def split: reader.splits option.splits if_splits)

lemma run_file_clean:
  assumes ok: "os_ok X os" and run: "run_file_os X os iv co c s = Some ((True, result), t)"
    and spawned: "\<forall>i < unat (c_threads c). os_spawn os i = None" and h: "h < unat (c_threads c)"
  shows "thread_finished os t h"
proof -
  obtain w rest st where f: "file_finish X os w (unat (c_threads c)) (c_skip_lines c) rest st = Some ((True, result), t)"
    using run spawned by (auto simp: run_file_os_def Let_def list_ex_iff split: option.splits if_splits)
  from f show ?thesis
  proof (rule file_finishE)
    fix r s' st'
    assume "file_wait X os (unat (c_threads c)) (fl_proc st) = Some (True, s')" "t = file_summary s' (fl_tracker st')"
    with file_wait_clean [OF ok _ h] show ?thesis by (simp add: thread_finished_def)
  qed
qed

lemma final_summary_world: "world (rb_proc (final_summary (settle_remaining rb))) = world (rb_proc rb)"
  using fold_settle_one [of "started (rb_proc rb)" "rb_in_flight rb" "rb\<lparr>rb_in_flight := []\<rparr>"]
  by (simp add: final_summary_def print_rb_def settle_remaining_def Let_def)

lemma rabbit_finish_joined:
  assumes "rabbit_finish X os c st = Some (r, rb)" "all_workers_joined r" "h \<in> set (awaited_threads c)"
  shows "thread_finished os (rb_proc rb) h"
proof -
  obtain until s1 where s1: "wait_for X os until (awaited_threads c) (y_proc (rl_sys st)) = Some (True, s1)"
    "rb = final_summary (settle_remaining ((y_rb (rl_sys st))\<lparr>rb_proc := s1\<rparr>))"
    using assms(1,2) by (auto simp: rabbit_finish_def Let_def split: option.splits)
  have "world (rb_proc rb) = world s1" unfolding s1(2) final_summary_world by simp
  with wait_for_clean [OF s1(1) assms(3)] show ?thesis by (simp add: thread_finished_def)
qed

lemma sqs_finish_joined:
  assumes "sqs_finish X os c st = Some (r, st')" "all_workers_joined r" "h \<in> set (awaited_threads c)"
  shows "thread_finished os (sq_proc st') h"
  using assms
  by (auto simp: sqs_finish_def sqs_summary_def Let_def thread_finished_def split: option.splits
      dest: wait_for_clean [unfolded thread_finished_def])

lemma first_error_mem: "first_error xs = Some e \<Longrightarrow> Some e \<in> set xs"
  by (induction xs rule: first_error.induct) auto

lemma thread_error_kinds [simp]:
  "Some UrlMissing \<noteq> map_option ThreadFailed e" "Some UrlMissing \<noteq> map_option SetupFailed e"
  "Some QueueMissing \<noteq> map_option ThreadFailed e" "Some QueueMissing \<noteq> map_option SetupFailed e"
  by (cases e; simp)+

text \<open>A configuration that was accepted has what a queue run of RabbitMQ asks it for.\<close>

lemma resolved_queue_run_has_queue:
  assumes "resolve f h a = Ok c" "c_input_file c = None" "c_redo_percent c \<noteq> 100"
  shows "rabbit_setup os c answers \<notin> {Some UrlMissing, Some QueueMissing}"
proof -
  have "c_redo_percent c < 100" using resolve_Ok_cases(1) [OF assms(1)] assms(3) by (simp add: order_less_le)
  then have "c_url c \<noteq> None" "c_queue c \<noteq> None"
    using resolve_Ok_cases(5) [OF assms(1,2)] by (auto simp: validate_topology_def split: if_splits)
  then have "rabbit_setup os c answers = first_error (spawn_errors os c @ map (map_option SetupFailed) answers @
      [map_option ThreadFailed (os_spawn os (stats_thread c))])" by (auto simp: rabbit_setup_def)
  then show ?thesis
    by (auto simp: spawn_errors_def Let_def dest!: first_error_mem split: if_splits)
qed

section \<open>Properties\<close>

text \<open>A worker of a file run stuck in an engine call keeps the run from returning. The wait for
  the workers is bounded, but then the run joins the consumer of the outcomes without a bound, and the
  consumer ends only when every worker has dropped its sender: the exit that leaves a stuck worker behind
  is never reached.\<close>

theorem file_run_waits_for_stuck_worker:
  assumes "\<And>s. \<not> thread_finished os s wedged" "wedged < k" "os_spawn os k = None"
    and consumer: "\<And>s. thread_finished os s k \<Longrightarrow> \<forall>h < k. thread_finished os s h"
  shows "file_finish X os w k skip rest st = None"
proof -
  have never: "\<not> thread_finished os s k" for s using assms(1,2) consumer by blast
  have "drive n (os_others os) (join_pass os k) () s = None" for n s
    by (induction n arbitrary: s) (simp_all add: join_pass_def never)
  then show ?thesis by (simp add: file_finish_def file_wait_def join_thread_def assms(3) split: option.split reader.split)
qed

text \<open>Worker 1 of the instance is stuck, and with it the consumer, thread 2.\<close>

definition stuck_os :: "demo_world os" where
  "stuck_os = \<lparr>os_threads = \<lparr>is_finished = (\<lambda>h w. h = 0), panicked = (\<lambda>h. False)\<rparr>, os_spawn = (\<lambda>_. None),
     os_others = (\<lambda>_ s. s), os_late = (\<lambda>s. s), os_passes = 1000, os_fuel = 201\<rparr>"

theorem file_run_waits_for_stuck_worker_witness:
  "file_finish demo_ext stuck_os demo_ctx 2 0 [] ((fl_init demo_proc [] 0 2)\<lparr>fl_reader := RReturned (Ok 0)\<rparr>) = None"
  by (rule file_run_waits_for_stuck_worker [where wedged = 1]) (auto simp: stuck_os_def thread_finished_def)

end
