(* ===== verification/Sz_Runtime.thy ===== *)
theory Sz_Runtime
  imports Sz_Runs
begin

text \<open>
  \<open>crates/core/src/runtime.rs\<close> and the two \<open>main\<close> functions (\<open>crates/rabbit/src/main.rs\<close>,
  \<open>crates/sqs/src/main.rs\<close>): the log level, the choice of the run, and how the process ends: with which
  exit code, and whether the Senzing environment is destroyed before. The environment should be destroyed
  only when no engine thread is running any more; what the programs ensure of that is in the properties at
  the end.
\<close>

section \<open>\<open>runtime.rs\<close>\<close>

text \<open>All names compared with are ASCII and hold no letter another character is lowered to, so lowering
  the ASCII letters is enough.\<close>

definition map_log_level :: "string \<Rightarrow> string" where
  "map_log_level level =
     (let l = to_lowercase level
      in if l = ''notset'' \<or> l = ''debug'' then ''debug''
         else if l = ''warning'' \<or> l = ''warn'' then ''warn''
         else if l = ''error'' then ''error''
         else if l = ''fatal'' \<or> l = ''critical'' then ''error''
         else ''info'')"

definition log_level :: "host \<Rightarrow> string" where
  "log_level h = map_log_level (case env_var h ''SENZING_LOG_LEVEL'' of Some v \<Rightarrow> v | None \<Rightarrow> ''info'')"

text \<open>
  \<open>init_logging\<close>: \<open>RUST_LOG\<close> decides when it holds valid directives (\<open>default_env\<close>, the answer of
  \<open>EnvFilter::try_from_default_env\<close>), else the mapped level; then the start time is anchored.
\<close>

definition init_logging :: "'f option \<Rightarrow> (string \<Rightarrow> 'f) \<Rightarrow> host \<Rightarrow> nat \<Rightarrow> nat option \<Rightarrow> 'f \<times> nat option" where
  "init_logging default_env new_filter h now cell =
     (case default_env of Some f \<Rightarrow> f | None \<Rightarrow> new_filter (log_level h), snd (start_time now cell))"

text \<open>\<open>init_environment\<close>; \<open>get_instance\<close> is the engine's initialisation on instance name, engine configuration
  and debug flag, with the error it answers.\<close>

type_synonym get_instance = "string \<Rightarrow> string \<Rightarrow> bool \<Rightarrow> string option"

definition init_environment :: "get_instance \<Rightarrow> string \<Rightarrow> config \<Rightarrow> u8 + unit" where
  "init_environment get_instance instance_name c =
     (case get_instance instance_name (c_engine_config c) (c_debug_trace c) of
        None \<Rightarrow> Ok () | Some _ \<Rightarrow> Err 255)"

definition INSTANCE_NAME :: string where "INSTANCE_NAME = ''sz_rabbit_combined_consumer''"
definition SQS_INSTANCE_NAME :: string where "SQS_INSTANCE_NAME = ''sz_sqs_combined_consumer''"

text \<open>How a process ends: by returning from \<open>main\<close>, or by \<open>process::exit\<close> with or without running the native
  teardown before it. (The SDK's \<open>destroy\<close> refuses when references to the environment are left; here an end counts
  as \<open>TornDown\<close> when the program asks for it.)\<close>

datatype process_end = Returned u8 | TornDown u8 | Leaked u8

fun exit_code :: "process_end \<Rightarrow> u8" where
  "exit_code (Returned code) = code"
| "exit_code (TornDown code) = code"
| "exit_code (Leaked code) = code"

text \<open>\<open>teardown_and_exit\<close>: the destruction runs on a thread of its own and is waited for up to the grace.
  Its thread sends when it is done, dies before, or never gets that far; times in nanoseconds. The result
  is the time waited and whether the destruction is known to be complete.\<close>

datatype teardown_answer = DestroyDone nat | DestroyDied nat | DestroyHangs

definition TEARDOWN_GRACE :: nat where "TEARDOWN_GRACE = 5000000000"

definition teardown_wait :: "bool \<Rightarrow> teardown_answer \<Rightarrow> nat \<times> bool" where
  "teardown_wait spawned a =
     (if \<not> spawned then (0, False)
      else case a of
             DestroyDone d \<Rightarrow> if d < TEARDOWN_GRACE then (d, True) else (TEARDOWN_GRACE, False)
           | DestroyDied d \<Rightarrow> (min d TEARDOWN_GRACE, False)
           | DestroyHangs \<Rightarrow> (TEARDOWN_GRACE, False))"

text \<open>\<open>finish\<close>, on the result of a run without a queue.\<close>

definition finish_run :: "bool \<Rightarrow> 'x + unit \<Rightarrow> process_end" where
  "finish_run workers_clean result =
     (let code = (case result of Inr _ \<Rightarrow> 0 | Inl _ \<Rightarrow> 255)
      in if workers_clean then TornDown code else Leaked code)"

text \<open>The last part of \<open>run_combined\<close> and of \<open>run_sqs\<close>.\<close>

definition finish_ingest :: "'x + run_outcome \<Rightarrow> process_end" where
  "finish_ingest result =
     (case result of
        Inr oc \<Rightarrow>
          (let code = (case fatal oc of None \<Rightarrow> 0 | Some _ \<Rightarrow> 255)
           in if all_workers_joined oc then TornDown code else Leaked code)
      | Inl _ \<Rightarrow> Leaked 255)"

section \<open>The two programs\<close>

datatype run_mode = FileMode | RedoMode | QueueMode

definition run_mode_of :: "config \<Rightarrow> run_mode" where
  "run_mode_of c =
     (if c_input_file c \<noteq> None then FileMode else if c_redo_percent c = 100 then RedoMode else QueueMode)"

text \<open>What the two programs share: the run without a queue, and its end.\<close>

definition run_shared ::
  "('w, 'e) ext \<Rightarrow> 'w os \<Rightarrow> u64 option \<Rightarrow> 'w course \<Rightarrow> config \<Rightarrow> 'w proc \<Rightarrow> (process_end \<times> 'w proc) option" where
  "run_shared X os iv co c s =
     (case run_mode_of c of
        FileMode \<Rightarrow>
          map_option (\<lambda>((clean, result), t). (finish_run clean result, t)) (run_file_os X os iv co c s)
      | _ \<Rightarrow>
          map_option (\<lambda>((clean, result), t). (finish_run clean result, t)) (run_pure_redoer_os X os c s))"

definition run_combined ::
  "('w, 'e) ext \<Rightarrow> 'w os \<Rightarrow> u64 option \<Rightarrow> 'w course \<Rightarrow> config \<Rightarrow> 'w proc \<Rightarrow> (process_end \<times> 'w proc) option" where
  "run_combined X os iv co c s =
     (if \<not> co_tokio co then Some (Leaked 255, s)
      else
        (let s1 = seed_config X s
         in case rabbit_setup os c (co_answers co) of
              Some e \<Rightarrow> Some (finish_ingest (Inl e), setup_failed s1)
            | None \<Rightarrow>
                map_option (\<lambda>(oc, rb). (finish_ingest (Inr oc :: setup_error + run_outcome), rb_proc rb))
                  (run_rabbit_os X os iv (co_rabbit co) c s1)))"

definition run_sqs ::
  "('w, 'e) ext \<Rightarrow> 'w os \<Rightarrow> u64 option \<Rightarrow> 'w course \<Rightarrow> config \<Rightarrow> sqs_params \<Rightarrow> 'w proc \<Rightarrow>
     (process_end \<times> 'w proc) option" where
  "run_sqs X os iv co c p s =
     (if \<not> co_tokio co then Some (Leaked 255, s)
      else
        (case sqs_setup os c (co_answers co) of
           Some e \<Rightarrow> Some (finish_ingest (Inl e), s)
         | None \<Rightarrow>
             map_option (\<lambda>(oc, st). (finish_ingest (Inr oc :: setup_error + run_outcome), sq_proc st))
               (run_sqs_os X os iv (co_sqs co) c p s)))"

text \<open>The interval of the configuration check comes from the environment of the process.\<close>

definition rabbit_main ::
  "('w, 'e) ext \<Rightarrow> 'w os \<Rightarrow> host \<Rightarrow> args \<Rightarrow> get_instance \<Rightarrow> 'w course \<Rightarrow> 'w proc \<Rightarrow>
     (process_end \<times> 'w proc) option" where
  "rabbit_main X os h a gi co s =
     (case resolve (json_parse X) h a of
        Inl _ \<Rightarrow> Some (Returned 1, s)
      | Inr c \<Rightarrow>
          (case init_environment gi INSTANCE_NAME c of
             Inl code \<Rightarrow> Some (Returned code, s)
           | Inr _ \<Rightarrow>
               if run_mode_of c \<noteq> QueueMode then run_shared X os (poll_interval h) co c s
               else run_combined X os (poll_interval h) co c s))"

text \<open>The parameters of the SQS queue are checked when the engine is already initialised.\<close>

definition sqs_main_exit ::
  "('w, 'e) ext \<Rightarrow> 'w os \<Rightarrow> host \<Rightarrow> sqs_args \<Rightarrow> get_instance \<Rightarrow> 'w course \<Rightarrow> 'w proc \<Rightarrow>
     (process_end \<times> 'w proc) option" where
  "sqs_main_exit X os h a gi co s =
     (case build_config (json_parse X) h a of
        Inl _ \<Rightarrow> Some (Returned 1, s)
      | Inr c \<Rightarrow>
          (case init_environment gi SQS_INSTANCE_NAME c of
             Inl code \<Rightarrow> Some (Returned code, s)
           | Inr _ \<Rightarrow>
               if run_mode_of c \<noteq> QueueMode then run_shared X os (poll_interval h) co c s
               else
                 (case sqs_params_of a of
                    Inl _ \<Rightarrow> Some (Returned 1, s)
                  | Inr (p, _) \<Rightarrow> run_sqs X os (poll_interval h) co c p s)))"

section \<open>Lemmas\<close>

lemma finish_run_ends:
  "finish_run clean result = TornDown code \<Longrightarrow> clean"
  "exit_code (finish_run clean result) = (if is_err result then 255 else 0)"
  by (auto simp: finish_run_def Let_def split: if_splits sum.splits)

lemma finish_ingest_ends:
  "finish_ingest result = TornDown code \<Longrightarrow> \<exists>oc. result = Ok oc \<and> all_workers_joined oc"
  "exit_code (finish_ingest result) =
     (case result of Inr oc \<Rightarrow> if fatal oc = None then 0 else 255 | Inl _ \<Rightarrow> 255)"
  by (auto simp: finish_ingest_def Let_def split: if_splits sum.splits option.splits prod.splits)

text \<open>The engine threads a run of the SQS program has started, by then; in a queue run, those it waits for. In a
  queue run of the RabbitMQ program the statistics thread, which works with an engine handle of its own, comes
  on top.\<close>

definition engine_threads_of :: "'w os \<Rightarrow> config \<Rightarrow> nat list" where
  "engine_threads_of os c =
     (case run_mode_of c of
        FileMode \<Rightarrow> [0..<unat (c_threads c)]
      | RedoMode \<Rightarrow> started_threads (os_spawn os) (unat (c_threads c))
      | QueueMode \<Rightarrow> awaited_threads c)"

definition rabbit_engine_threads_of :: "'w os \<Rightarrow> config \<Rightarrow> nat list" where
  "rabbit_engine_threads_of os c =
     engine_threads_of os c @ (if run_mode_of c = QueueMode then [stats_thread c] else [])"

definition file_workers_started :: "'w os \<Rightarrow> config \<Rightarrow> bool" where
  "file_workers_started os c \<longleftrightarrow> (run_mode_of c = FileMode \<longrightarrow> (\<forall>i < unat (c_threads c). os_spawn os i = None))"

lemma run_shared_quiet:
  assumes ok: "os_ok X os" and mode: "run_mode_of c \<noteq> QueueMode"
    and run: "run_shared X os iv co c s = Some (TornDown code, t)"
    and workers: "file_workers_started os c"
    and h: "h \<in> set (engine_threads_of os c)"
  shows "thread_finished os t h"
proof (cases "run_mode_of c")
  case FileMode
  then obtain result where "run_file_os X os iv co c s = Some ((True, result), t)"
    using run by (auto simp: run_shared_def dest: finish_run_ends(1))
  from run_file_clean [OF ok this] workers h FileMode show ?thesis
    by (simp add: engine_threads_of_def file_workers_started_def)
next
  case RedoMode
  then obtain result where r: "run_pure_redoer_os X os c s = Some ((True, result), t)"
    using run by (auto simp: run_shared_def dest: finish_run_ends(1))
  have "thread_finished os t h" if "h \<in> set (started_threads (os_spawn os) (unat (c_threads c)))"
    using run_redoer_truthful [OF _ _ _ _ _ _ r [unfolded run_pure_redoer_os_def]] ok that
    by (auto simp: os_ok_def thread_finished_def)
  with h RedoMode show ?thesis by (simp add: engine_threads_of_def)
next
  case QueueMode
  with mode show ?thesis by simp
qed

text \<open>A file run that cannot create all its workers ends at once, with the failure code.\<close>

lemma run_shared_without_workers:
  assumes "run_shared X os iv co c s = Some (TornDown code, t)" "\<not> file_workers_started os c"
  shows "run_mode_of c = FileMode \<and> (\<exists>i < unat (c_threads c). os_spawn os i \<noteq> None) \<and> code = 255"
  using assms
  by (auto simp: file_workers_started_def run_shared_def run_file_os_def Let_def list_ex_iff finish_run_def split: if_splits)

lemma run_shared_code:
  assumes ok: "os_ok X os" and run: "run_shared X os iv co c s = Some (e, t)" "run_mode_of c \<noteq> QueueMode"
  shows "exit_code e = 255 \<or> (exit_code e = 0 \<and> \<not> WORKER_FATAL (glob t))"
proof (cases "run_mode_of c")
  case FileMode
  then obtain clean result where r: "run_file_os X os iv co c s = Some ((clean, result), t)"
    "e = finish_run clean result" using run by (auto simp: run_shared_def)
  have "\<not> WORKER_FATAL (glob t)" if "result = Ok ()"
    using r(1) that by (auto simp: run_file_os_def file_result_def file_summary_def Let_def elim!: file_finishE
        split: if_splits option.splits sum.splits)
  then show ?thesis using r(2) by (cases result) (auto simp: finish_run_ends(2))
next
  case RedoMode
  then obtain clean result where r: "run_pure_redoer_os X os c s = Some ((clean, result), t)"
    "e = finish_run clean result" using run by (auto simp: run_shared_def)
  have "\<not> WORKER_FATAL (glob t)" if "result = Ok ()"
    using run_redoer_truthful [OF _ _ _ _ _ _ r(1) [unfolded run_pure_redoer_os_def]] ok that
    by (auto simp: os_ok_def thread_finished_def)
  then show ?thesis using r(2) by (cases result) (auto simp: finish_run_ends(2))
qed (use run(2) in simp)

lemma init_environment_fails: "init_environment gi name c = Err code \<longleftrightarrow> code = 255 \<and> init_environment gi name c \<noteq> Ok ()"
  by (auto simp: init_environment_def split: option.splits)

lemma init_environment_accepts [simp]: "init_environment (\<lambda>_ _ _. None) name c = Ok ()"
  by (simp add: init_environment_def)

lemma init_logging_override:
  "fst (init_logging (Some f) new_filter h now cell) = f"
  "fst (init_logging None new_filter h now cell) = new_filter (log_level h)"
  "log_level h \<in> {''debug'', ''info'', ''warn'', ''error''}"
  by (simp_all add: init_logging_def log_level_def map_log_level_def Let_def)

text \<open>No wait is longer than the grace, and a destruction is reported only when it completed.\<close>

lemma teardown_wait_bounded:
  "fst (teardown_wait spawned a) \<le> TEARDOWN_GRACE"
  "snd (teardown_wait spawned a) \<Longrightarrow> spawned \<and> (\<exists>d. a = DestroyDone d)"
  by (auto simp: teardown_wait_def split: teardown_answer.splits if_splits)

section \<open>Properties\<close>


text \<open>The SQS program has no statistics thread.\<close>

theorem sqs_environment_destroyed_only_when_quiet:
  assumes "os_ok X os"
    and "sqs_main_exit X os h a gi co s = Some (TornDown code, t)"
  shows "\<exists>c. build_config (json_parse X) h a = Ok c \<and>
    (list_all (thread_finished os t) (engine_threads_of os c) \<or>
     (run_mode_of c = FileMode \<and> (\<exists>i < unat (c_threads c). os_spawn os i \<noteq> None) \<and> code = 255))"
proof -
  obtain c where c: "build_config (json_parse X) h a = Ok c"
    using assms(2) by (cases "build_config (json_parse X) h a") (auto simp: sqs_main_exit_def)
  show ?thesis
  proof (cases "run_mode_of c = QueueMode")
    case False
    then have r: "run_shared X os (poll_interval h) co c s = Some (TornDown code, t)"
      using assms(2) by (auto simp: sqs_main_exit_def c split: if_splits sum.splits)
    show ?thesis
      using run_shared_quiet [OF assms(1) False r] run_shared_without_workers [OF r] c
      by (cases "file_workers_started os c") (auto simp: list_all_iff)
  next
    case True
    then obtain p oc st where r: "run_sqs_os X os (poll_interval h) (co_sqs co) c p s = Some (oc, st)"
      "all_workers_joined oc" "t = sq_proc st"
      using assms(2) by (auto simp: sqs_main_exit_def run_sqs_def c finish_ingest_def Let_def
          split: if_splits sum.splits option.splits prod.splits)
    from r(1) obtain st0 where "sqs_finish X os c st0 = Some (oc, st)"
      by (auto simp: run_sqs_os_def split: option.splits if_splits)
    from sqs_finish_joined [OF this r(2)] r(3) True have "list_all (thread_finished os t) (engine_threads_of os c)"
      by (simp add: list_all_iff engine_threads_of_def)
    with c show ?thesis by blast
  qed
qed

text \<open>C35: the exit codes of the RabbitMQ program: 1 exactly when the configuration is rejected, 0 only
  for a run that ended well (no fatal engine error in a run without a queue, none and no failed start in
  a queue run), 255 otherwise.\<close>

theorem rabbit_exit_code:
  assumes "os_ok X os"
    and "rabbit_main X os h a gi co s = Some (e, t)"
  shows "(exit_code e = 1 \<longleftrightarrow> is_err (resolve (json_parse X) h a)) \<and> exit_code e \<in> {0, 1, 255} \<and>
    (exit_code e = 0 \<longrightarrow> (\<exists>c. resolve (json_parse X) h a = Ok c \<and> init_environment gi INSTANCE_NAME c = Ok () \<and>
       (if run_mode_of c = QueueMode
        then co_tokio co \<and> rabbit_setup os c (co_answers co) = None \<and>
          (\<exists>oc rb. run_rabbit_os X os (poll_interval h) (co_rabbit co) c (seed_config X s) = Some (oc, rb) \<and> fatal oc = None)
        else \<not> WORKER_FATAL (glob t))))"
proof (cases "resolve (json_parse X) h a")
  case (Inl err)
  then show ?thesis using assms(2) by (auto simp: rabbit_main_def)
next
  case (Inr c)
  show ?thesis
  proof (cases "init_environment gi INSTANCE_NAME c = Ok () \<and> run_mode_of c \<noteq> QueueMode")
    case True
    then have "run_shared X os (poll_interval h) co c s = Some (e, t)" using assms(2) Inr by (simp add: rabbit_main_def)
    from run_shared_code [OF assms(1) this conjunct2 [OF True]] True Inr show ?thesis by auto
  next
    case False
    then show ?thesis using assms(2) Inr
      by (auto simp: rabbit_main_def init_environment_fails run_combined_def finish_ingest_ends(2) Let_def
          split: if_splits sum.splits option.splits prod.splits)
  qed
qed

text \<open>When a worker of a file run cannot be created, the program destroys the environment
  although the workers created before it have not been waited for, and whatever they are doing.\<close>

theorem file_spawn_failure_destroys_under_workers:
  assumes "resolve (json_parse X) h a = Ok c" "c_input_file c \<noteq> None"
    and "i < unat (c_threads c)" "os_spawn os i = Some msg"
  shows "\<exists>t. rabbit_main X os h a (\<lambda>_ _ _. None) co s = Some (TornDown 255, t) \<and>
    (\<forall>h. thread_finished os t h = thread_finished os (seed_config X s) h)"
proof -
  let ?t = "(seed_config X s)\<lparr>glob := (glob (seed_config X s))\<lparr>RUNNING := False\<rparr>\<rparr>"
  have mode: "run_mode_of c = FileMode" using assms(2) by (simp add: run_mode_of_def)
  have "list_ex (\<lambda>i. os_spawn os i \<noteq> None) [0..<unat (c_threads c)]"
    using assms(3,4) by (auto simp: list_ex_iff)
  then have "run_file_os X os (poll_interval h) co c s = Some ((True, Err WorkerSpawnFailed), ?t)"
    by (simp add: run_file_os_def Let_def)
  then have "rabbit_main X os h a (\<lambda>_ _ _. None) co s = Some (TornDown 255, ?t)"
    by (simp add: rabbit_main_def assms(1) mode run_shared_def finish_run_def)
  then show ?thesis by (simp add: thread_finished_def)
qed

section \<open>The concrete instance\<close>

text \<open>One worker and the fetcher, which end after 70 ms; somebody stops the process.\<close>

definition demo_os :: "demo_world os" where
  "demo_os = \<lparr>os_threads = demo_pair, os_spawn = (\<lambda>_. None), os_others = demo_stopper, os_late = (\<lambda>s. s),
     os_passes = 9, os_fuel = 201\<rparr>"

definition no_course :: "demo_world course" where
  "no_course = \<lparr>co_file = None, co_load = [], co_rest = [], co_tokio = True, co_answers = [], co_rabbit = [], co_sqs = []\<rparr>"

lemma demo_get_stats: "snd (get_stats demo_ext w) = w"
  by (simp add: demo_ext_def)

lemma demo_os_ok: "os_ok demo_ext demo_os"
proof -
  have "world (demo_stopper k s) = world s" for k and s :: "demo_world proc" by (simp add: demo_stopper_def)
  then show ?thesis using demo_run_hyps by (simp add: os_ok_def demo_os_def thread_finished_def demo_get_stats)
qed

lemma demo_stops_clean:
  assumes "stop_and_join demo_ext demo_pair 201 handles s = Some (clean, t)"
  shows clean
proof -
  have "now_ns demo_ext w = dw_time w" for w by (simp add: demo_ext_def)
  then show ?thesis
    using join_workers_bounded_aux [OF demo_run_hyps(1,2), of 201 handles "s\<lparr>glob := (glob s)\<lparr>RUNNING := False\<rparr>\<rparr>"] assms
    by (auto simp: stop_and_join_def demo_pair_def SHUTDOWN_GRACE_def split: if_splits)
qed

lemma demo_redoer_clean:
  "\<exists>result t. run_pure_redoer_os demo_ext demo_os c s = Some ((True, result), t)"
proof -
  obtain clean result t where r: "run_redoer demo_ext demo_pair (\<lambda>_. None) 201 9 demo_stopper (\<lambda>s. s) c s = Some ((clean, result), t)"
    using run_redoer_returns_aux [OF demo_run_hyps(1,2) _ demo_run_hyps(3), of 201 9] by fastforce
  then have clean
    by (cases rule: run_redoer_cases)
      (auto simp: abort_with_def teardown_redoer_def Let_def dest: demo_stops_clean)
  with r show ?thesis by (simp add: run_pure_redoer_os_def demo_os_def)
qed

abbreviation redo_args :: args where
  "redo_args \<equiv> sample_args\<lparr>a_redo_percent := 100, a_threads_per_process := 1\<rparr>"

abbreviation redo_sqs_args :: sqs_args where
  "redo_sqs_args \<equiv> sample_sqs_args\<lparr>q_redo_percent := 100, q_threads_per_process := 1, q_input_file := None\<rparr>"

lemmas demo_resolve_simps = sample_config_simps sample_sqs_args_def demo_ext_def demo_json_def run_mode_of_def

lemma demo_redo_config:
  "\<exists>c. resolve (json_parse demo_ext) sample_host redo_args = Ok c \<and> run_mode_of c = RedoMode \<and> c_threads c = 1"
  "\<exists>c. build_config (json_parse demo_ext) sample_host redo_sqs_args = Ok c \<and> run_mode_of c = RedoMode \<and> c_threads c = 1"
  by (simp_all add: resolve_def build_config_def validate_topology_def demo_resolve_simps)

lemma demo_redo_threads:
  "run_mode_of c = RedoMode \<Longrightarrow> c_threads c = 1 \<Longrightarrow> engine_threads_of demo_os c = [0, 1]"
  by (simp add: engine_threads_of_def demo_os_def started_threads_def workers_and_fetcher_def)


theorem sqs_environment_destroyed_only_when_quiet_witness:
  "\<exists>code t. sqs_main_exit demo_ext demo_os sample_host redo_sqs_args (\<lambda>_ _ _. None) no_course demo_proc =
     Some (TornDown code, t) \<and> list_all (thread_finished demo_os t) [0, 1]"
proof -
  obtain c where c: "build_config (json_parse demo_ext) sample_host redo_sqs_args = Ok c" "run_mode_of c = RedoMode" "c_threads c = 1"
    using demo_redo_config(2) by blast
  obtain result t where "run_pure_redoer_os demo_ext demo_os c demo_proc = Some ((True, result), t)"
    using demo_redoer_clean by blast
  then obtain code where "sqs_main_exit demo_ext demo_os sample_host redo_sqs_args (\<lambda>_ _ _. None) no_course demo_proc =
     Some (TornDown code, t)" using c(1,2) by (simp add: sqs_main_exit_def run_shared_def finish_run_def Let_def)
  with sqs_environment_destroyed_only_when_quiet [OF demo_os_ok this] demo_redo_threads [OF c(2,3)] c
  show ?thesis by auto
qed

theorem rabbit_exit_code_witness:
  "\<exists>e t. rabbit_main demo_ext demo_os sample_host redo_args (\<lambda>_ _ _. None) no_course demo_proc = Some (e, t) \<and>
     exit_code e \<in> {0, 255} \<and> (exit_code e = 0 \<longrightarrow> \<not> WORKER_FATAL (glob t))"
proof -
  obtain c where c: "resolve (json_parse demo_ext) sample_host redo_args = Ok c" "run_mode_of c = RedoMode" "c_threads c = 1"
    using demo_redo_config(1) by blast
  obtain result t where "run_pure_redoer_os demo_ext demo_os c demo_proc = Some ((True, result), t)"
    using demo_redoer_clean by blast
  then obtain e where "rabbit_main demo_ext demo_os sample_host redo_args (\<lambda>_ _ _. None) no_course demo_proc =
     Some (e, t)" using c(1,2) by (simp add: rabbit_main_def run_shared_def)
  with rabbit_exit_code [OF demo_os_ok this] c(1,2) show ?thesis by auto
qed

theorem file_spawn_failure_destroys_under_workers_witness:
  "\<exists>t. rabbit_main demo_ext (demo_os\<lparr>os_spawn := \<lambda>i. if i = 1 then Some ''limit'' else None\<rparr>) sample_host
     (sample_args\<lparr>a_input_file := Some ''records.jsonl'', a_threads_per_process := 2\<rparr>) (\<lambda>_ _ _. None) no_course demo_proc = Some (TornDown 255, t) \<and> \<not> thread_finished demo_os t 0"
proof -
  obtain c where "resolve (json_parse demo_ext) sample_host
     (sample_args\<lparr>a_input_file := Some ''records.jsonl'', a_threads_per_process := 2\<rparr>) = Ok c" "c_input_file c \<noteq> None"
     "1 < unat (c_threads c)"
    by (simp add: resolve_def demo_resolve_simps)
  from file_spawn_failure_destroys_under_workers [OF this,
      of "demo_os\<lparr>os_spawn := \<lambda>i. if i = 1 then Some ''limit'' else None\<rparr>" "''limit''" no_course demo_proc]
  show ?thesis by (simp add: thread_finished_def demo_os_def demo_pair_def seed_config_def demo_proc_def demo_world0_def
      demo_ext_def log_startup_config_def fetch_default_def)
qed

end
