(* ===== verification/Sz_Sqs_Totals.thy ===== *)
theory Sz_Sqs_Totals
  imports Sz_Sqs_System
begin

text \<open>
  What an SQS run accounts for. Every message received is deleted, given up on a fatal outcome, or in
  exactly one place on its way through the pool; and the two counters the run prints are the numbers of
  messages deleted because they were loaded, and because they were refused.
\<close>

section \<open>Every message is in one place\<close>

text \<open>The ids on their way: being sent, queued, in a worker, or in an outcome not yet read (0 is the
  sentinel of a thread without a message).\<close>

definition result_tags :: "outcome list \<Rightarrow> u64 list" where
  "result_tags os = filter (\<lambda>t. t \<noteq> 0) (map o_delivery_tag os)"

definition transit :: "'w sqs_sys \<Rightarrow> u64 list" where
  "transit st = map delivery_tag (sq_items st) @ result_tags (sq_results st)"

definition received_ids :: "'w sqs_sys \<Rightarrow> u64 list" where
  "received_ids st = map fst (q_received st)"

definition receivers_kept :: "'w sqs_sys \<Rightarrow> bool" where
  "receivers_kept st \<longleftrightarrow> ch_rx (work_ch (sq_proc st)) \<and> ch_rx (result_ch (sq_proc st)) \<and>
     (\<forall>o' \<in> set (sq_results st). o_delivery_tag o' = 0 \<longrightarrow> is_fatal (o_action o'))"

definition in_one_place :: "'w sqs_sys \<Rightarrow> bool" where
  "in_one_place st \<longleftrightarrow> receivers_kept st \<and>
     mset (map fst (sq_in_flight st)) = mset (transit st) \<and>
     mset (received_ids st) = mset (q_gone st) + mset (q_given_up st) + mset (transit st)"

lemma result_tags_simps [simp]:
  "result_tags [] = []" "result_tags (os @ os') = result_tags os @ result_tags os'"
  "result_tags (o' # os) = (if o_delivery_tag o' = 0 then [] else [o_delivery_tag o']) @ result_tags os"
  by (simp_all add: result_tags_def)

text \<open>Ids are distinct and none is 0.\<close>

lemma received_distinct:
  assumes "store_ok st"
  shows "distinct (received_ids st)" "0 \<notin> set (received_ids st)"
  using assms by (auto simp: store_ok_def ids_ok_def received_ids_def dest!: bspec)

lemma in_one_place_distinct:
  assumes "store_ok st" "in_one_place st"
  shows "distinct (q_gone st @ q_given_up st @ transit st)" "0 \<notin> set (transit st)"
    "distinct (map fst (sq_in_flight st))" "fst ` set (sq_in_flight st) = set (transit st)"
    "set (received_ids st) = set (q_gone st) \<union> set (q_given_up st) \<union> set (transit st)"
proof -
  have m: "mset (received_ids st) = mset (q_gone st @ q_given_up st @ transit st)"
    and fl: "mset (map fst (sq_in_flight st)) = mset (transit st)" using assms(2) by (simp_all add: in_one_place_def)
  show d: "distinct (q_gone st @ q_given_up st @ transit st)"
    using mset_eq_imp_distinct_iff [OF m] received_distinct(1) [OF assms(1)] by blast
  show s: "set (received_ids st) = set (q_gone st) \<union> set (q_given_up st) \<union> set (transit st)"
    using mset_eq_setD [OF m] by auto
  then show "0 \<notin> set (transit st)" using received_distinct(2) [OF assms(1)] by blast
  show "distinct (map fst (sq_in_flight st))" using mset_eq_imp_distinct_iff [OF fl] d by simp
  show "fst ` set (sq_in_flight st) = set (transit st)" using mset_eq_setD [OF fl] by simp
qed

lemma in_one_place_same:
  assumes "in_one_place st" "same_store st st'" "receivers_kept st'" "mset (transit st') = mset (transit st)"
  shows "in_one_place st'"
  using assms by (simp add: in_one_place_def same_store_def received_ids_def)

lemma mset_hm_remove:
  "distinct (map fst m) \<Longrightarrow> k \<in> fst ` set m \<Longrightarrow> mset (map fst (hm_remove k m)) + {#k#} = mset (map fst m)"
proof (induction m)
  case (Cons x m)
  show ?case
  proof (cases "fst x = k")
    case True
    with Cons.prems(1) have "k \<notin> fst ` set m" by auto
    moreover have "hm_remove k (x # m) = hm_remove k m" using True by (simp add: hm_remove_def case_prod_beta)
    ultimately show ?thesis using True by (simp add: hm_remove_fresh)
  next
    case False
    have "hm_remove k (x # m) = x # hm_remove k m" using False by (simp add: hm_remove_def case_prod_beta)
    with Cons False show ?thesis by auto
  qed
qed simp

lemma in_one_place_message:
  assumes ok: "store_ok st" "in_one_place st" and p: "sq_poller st = PBatch (m # rest)"
    and bound: "unat (sq_next_id st) < 2 ^ 64 - 1" and st': "st' = take_message X m rest st"
  shows "in_one_place st'"
proof -
  have v: "sq_results st' = sq_results st" "work_ch (sq_proc st') = work_ch (sq_proc st)" "q_busy st' = q_busy st"
    "received_ids st' = received_ids st @ map fst (message_id m st)" "q_given_up st' = q_given_up st"
    "result_ch (sq_proc st') = result_ch (sq_proc st)"
    "q_gone st' = q_gone st @ map fst (filter (malformed X \<circ> fst \<circ> snd) (message_id m st))"
    by (simp_all add: st' take_message_def sq_results_def on_message_fields received_ids_def)
  have fresh: "sq_next_id st \<notin> fst ` set (sq_in_flight st)"
    using ids_ok_new(2) [of "q_received st" "sq_next_id st"] ok(1) bound by (auto simp: store_ok_def k_known_def sq_abs_def)
  have sending: "map delivery_tag (sq_sending (sq_poller st')) = map fst (filter (Not \<circ> malformed X \<circ> fst \<circ> snd) (message_id m st))"
    "map fst (sq_in_flight st') = map fst (filter (Not \<circ> malformed X \<circ> fst \<circ> snd) (message_id m st)) @ map fst (sq_in_flight st)"
    using fresh by (auto simp: st' take_message_def on_message_def message_id_def sq_sending_def malformed_def is_err_def Let_def
        hm_insert_def hm_remove_fresh split: option.splits sum.splits)
  have parts: "mset (map fst (message_id m st)) = mset (map fst (filter (malformed X \<circ> fst \<circ> snd) (message_id m st))) +
     mset (map fst (filter (Not \<circ> malformed X \<circ> fst \<circ> snd) (message_id m st)))"
    by (auto simp: message_id_def split: option.split)
  have old: "sq_sending (sq_poller st) = []" by (simp add: p sq_sending_def)
  show ?thesis using ok(2) parts
    by (simp add: in_one_place_def receivers_kept_def transit_def sq_items_def v sending old) 
qed

lemma in_one_place_outcome:
  assumes ok: "store_ok st" "in_one_place st" and r: "chan_recv (result_ch (sq_proc st)) = (Item o', ch)"
    and st': "st' = (sqs_on_outcome o' (st\<lparr>sq_proc := (sq_proc st)\<lparr>result_ch := ch\<rparr>\<rparr>))
      \<lparr>q_gone := q_gone st @ deleted_by o' st, q_given_up := q_given_up st @ given_up_by o' st\<rparr>"
  shows "in_one_place st'"
proof -
  let ?t = "o_delivery_tag o'"
  note d = in_one_place_distinct [OF ok]
  have rx: "ch_rx ch = ch_rx (result_ch (sq_proc st))"
    using r by (auto simp: chan_recv_def split: list.splits if_splits)
  have v: "received_ids st' = received_ids st" "sq_items st' = sq_items st" "sq_results st = o' # sq_results st'"
    "sq_in_flight st' = hm_remove ?t (sq_in_flight st)" "work_ch (sq_proc st') = work_ch (sq_proc st)"
    "result_ch (sq_proc st') = ch" "q_gone st' = q_gone st @ deleted_by o' st" "q_given_up st' = q_given_up st @ given_up_by o' st"
    using recv_item [OF r] by (simp_all add: st' sq_items_def sq_results_def on_outcome_fields on_outcome_history received_ids_def)
  have kept: "receivers_kept st'" using ok(2) rx by (auto simp: in_one_place_def receivers_kept_def v)
  show ?thesis
  proof (cases "?t = 0")
    case True
    then have "?t \<notin> fst ` set (sq_in_flight st)" using d(2,4) by simp
    then show ?thesis using ok(2) kept True
      by (simp add: in_one_place_def v transit_def hm_remove_fresh deleted_by_def given_up_by_def)
  next
    case False
    then have t: "?t \<in> fst ` set (sq_in_flight st)" unfolding d(4) by (simp add: transit_def v(3))
    have tr: "mset (transit st) = mset (transit st') + {#?t#}" using False by (simp add: transit_def v)
    have "mset (map fst (sq_in_flight st')) + {#?t#} = mset (transit st') + {#?t#}"
      using mset_hm_remove [OF d(3) t] ok(2) tr by (simp add: in_one_place_def v(4))
    moreover have "mset (deleted_by o' st) + mset (given_up_by o' st) = {#?t#}"
      using t by (simp add: deleted_by_def given_up_by_def)
    ultimately show ?thesis using ok(2) kept tr by (simp add: in_one_place_def v(1,7,8))
  qed
qed

lemma in_one_place_finish:
  assumes ok: "store_ok st" "in_one_place st" and j: "j < length (q_busy st)"
    and a: "load_action X c (q_busy st ! j) (sq_proc st) = (act, s1)"
    and st': "st' = st\<lparr>sq_proc := snd (finish_load (q_busy st ! j) act n s1),
      q_busy := take j (q_busy st) @ drop (Suc j) (q_busy st), q_acted := q_acted st @ [(q_busy st ! j, act)]\<rparr>"
  shows "in_one_place st'"
proof -
  let ?i = "q_busy st ! j"
  note f1 = only_world_fields [OF conjunct1 [OF load_action_justified [OF a]]]
  have kept: "receivers_kept st" using ok(2) by (simp add: in_one_place_def)
  then have rx: "ch_rx (result_ch s1)" by (simp add: receivers_kept_def f1)
  note e = finish_load_effect [OF rx, of ?i act n]
  have "delivery_tag ?i \<in> set (transit st)" using j by (simp add: transit_def sq_items_def)
  then have nz: "delivery_tag ?i \<noteq> 0" using in_one_place_distinct(2) [OF ok] by metis
  have "mset (map delivery_tag (take j (q_busy st) @ drop (Suc j) (q_busy st))) + {#delivery_tag ?i#} = mset (map delivery_tag (q_busy st))"
    using mset_take_nth_drop [OF j] by (metis image_mset_union image_mset_single mset_map)
  then have m: "mset (transit st') = mset (transit st)"
    using nz by (simp add: transit_def sq_items_def sq_results_def st' e f1 outcome_of_def)
  have kept': "receivers_kept st'" using kept nz by (auto simp: receivers_kept_def st' e f1 sq_results_def outcome_of_def)
  show ?thesis by (rule in_one_place_same [OF ok(2) _ kept' m]) (simp add: same_store_def st')
qed

lemma in_one_place_step:
  assumes ok: "store_ok st" "in_one_place st" and s: "sq_step X c cap mm st ev = Some st'"
  shows "in_one_place st'"
proof -
  have kept: "receivers_kept st" using ok(2) by (simp add: in_one_place_def)
  show ?thesis
  proof (cases ev)
    case EMessage
    then consider "sq_poller st = PBatch []" "st' = st\<lparr>sq_poller := PTop\<rparr>"
      | m rest where "sq_poller st = PBatch (m # rest)" "unat (sq_next_id st) < 2 ^ 64 - 1" "st' = take_message X m rest st"
      using s by (auto simp: sq_step_def Let_def split: poller.splits list.splits if_splits)
    then show ?thesis
    proof cases
      case 1
      then show ?thesis using kept
        by (intro in_one_place_same [OF ok(2)])
          (auto simp: same_store_def receivers_kept_def transit_def sq_items_def sq_results_def sq_sending_def)
    next
      case (2 m rest)
      with in_one_place_message [OF ok] show ?thesis by blast
    qed
  next
    case EOutcome
    then show ?thesis using s in_one_place_outcome [OF ok]
      by (auto simp: sq_step_def Let_def split: try_outcome.splits prod.splits if_splits)
  next
    case (EFinish j n)
    obtain act s1 where a: "load_action X c (q_busy st ! j) (sq_proc st) = (act, s1)" by fastforce
    then show ?thesis using s EFinish in_one_place_finish [OF ok _ a]
      by (auto simp: sq_step_def Let_def split: if_splits)
  next
    case EPick
    then obtain item ch where r: "chan_recv (work_ch (sq_proc st)) = (Item item, ch)"
      "st' = st\<lparr>sq_proc := begin_load X c item ((sq_proc st)\<lparr>work_ch := ch\<rparr>), q_busy := q_busy st @ [item]\<rparr>"
      using s by (auto simp: sq_step_def Let_def split: try_outcome.splits prod.splits if_splits)
    have rx: "ch_rx ch = ch_rx (work_ch (sq_proc st))" using r(1) by (auto simp: chan_recv_def split: list.splits if_splits)
    note pf = only_world_fields [OF poll_p_only_world]
    show ?thesis
      by (rule in_one_place_same [OF ok(2)])
        (use kept recv_item [OF r(1)] rx in
          \<open>auto simp: r(2) same_store_def receivers_kept_def transit_def sq_items_def sq_results_def begin_load_def Let_def pf\<close>)
  next
    case ESend
    then obtain item rest where p: "sq_poller st = PSending item rest" "poller_sends item rest st = Some st'"
      using s by (auto simp: sq_step_def Let_def split: poller.splits)
    show ?thesis
      by (rule in_one_place_same [OF ok(2)])
        (use p kept in \<open>auto simp: poller_sends_def Let_def same_store_def receivers_kept_def transit_def sq_items_def
           sq_results_def sq_sending_def chan_send_def split: if_splits send_outcome.splits prod.splits\<close>)
  qed (use s kept in \<open>auto intro!: in_one_place_same [OF ok(2)] simp: sq_step_def Let_def same_store_def receivers_kept_def
      transit_def sq_items_def sq_results_def sq_sending_def poll_head_def poller_returns_def on_response_def sqs_shut_down_def
      drop_result_tx_def chan_drop_sender_def signal_fatal_buf is_fatal_def same_channels_def
      split: if_splits sum.splits\<close>)
qed

lemma in_one_place_init: "in_one_place (sqs_init s threads fetcher)"
  by (simp add: in_one_place_def receivers_kept_def sqs_init_def transit_def sq_items_def sq_results_def sq_sending_def
      received_ids_def chan_new_def)

section \<open>The totals\<close>

text \<open>A message the engine took: some worker ended it with \<open>Ack\<close>.\<close>

definition acked :: "(load_item \<times> action) list \<Rightarrow> u64 \<Rightarrow> bool" where
  "acked acted t \<longleftrightarrow> list_ex (\<lambda>(i, a). delivery_tag i = t \<and> is_ack a) acted"

definition loaded_ids :: "'w sqs_sys \<Rightarrow> u64 list" where
  "loaded_ids st = filter (acked (q_acted st)) (q_gone st)"

definition refused_ids :: "'w sqs_sys \<Rightarrow> u64 list" where
  "refused_ids st = filter (Not \<circ> acked (q_acted st)) (q_gone st)"

definition acted_tags :: "'w sqs_sys \<Rightarrow> u64 list" where
  "acted_tags st = map (delivery_tag \<circ> fst) (q_acted st)"

text \<open>\<open>g0\<close> are the statics at the start. No message is acted on twice.\<close>

definition totals_ok :: "globals \<Rightarrow> 'w sqs_sys \<Rightarrow> bool" where
  "totals_ok g0 st \<longleftrightarrow>
     distinct (acted_tags st @ map delivery_tag (sq_items st)) \<and>
     ADDS_PROCESSED (glob (sq_proc st)) = ADDS_PROCESSED g0 + of_nat (length (loaded_ids st)) \<and>
     ADDS_REJECTED (glob (sq_proc st)) = ADDS_REJECTED g0 + of_nat (length (refused_ids st))"

definition sq_good :: "('w, 'e) ext \<Rightarrow> worker_ctx \<Rightarrow> globals \<Rightarrow> 'w sqs_sys \<Rightarrow> bool" where
  "sq_good X c g0 st \<longleftrightarrow> store_ok st \<and> just_ok X c st \<and> in_one_place st \<and> totals_ok g0 st"

lemma acked_tags: "acked acted t \<Longrightarrow> t \<in> (delivery_tag \<circ> fst) ` set acted"
  unfolding acked_def list_ex_iff by force

lemma acked_only:
  assumes "distinct (map (delivery_tag \<circ> fst) acted)" "(i, a) \<in> set acted" "delivery_tag i = t"
  shows "acked acted t = is_ack a"
proof -
  have inj: "inj_on (delivery_tag \<circ> fst) (set acted)" using assms(1) by (simp add: distinct_map)
  have only: "a' = a" if "(i', a') \<in> set acted" "delivery_tag i' = t" for i' a'
    using inj_onD [OF inj, of "(i', a')" "(i, a)"] assms(2,3) that by simp
  show ?thesis
  proof
    assume "acked acted t"
    then obtain i' a' where "(i', a') \<in> set acted" "delivery_tag i' = t" "is_ack a'"
      by (auto simp: acked_def list_ex_iff)
    with only show "is_ack a" by blast
  next
    assume "is_ack a"
    then show "acked acted t" unfolding acked_def list_ex_iff by (intro bexI [OF _ assms(2)]) (simp add: assms(3))
  qed
qed

lemma totals_same:
  assumes "totals_ok g0 st" "same_store st st'" "q_acted st' = q_acted st"
    "mset (map delivery_tag (sq_items st')) = mset (map delivery_tag (sq_items st))"
    "same_adds (sq_proc st) (sq_proc st')"
  shows "totals_ok g0 st'"
proof -
  have "mset (acted_tags st' @ map delivery_tag (sq_items st')) = mset (acted_tags st @ map delivery_tag (sq_items st))"
    using assms(3,4) by (simp add: acted_tags_def)
  then have "distinct (acted_tags st' @ map delivery_tag (sq_items st'))"
    using assms(1) mset_eq_imp_distinct_iff unfolding totals_ok_def by blast
  then show ?thesis using assms
    by (simp add: totals_ok_def loaded_ids_def refused_ids_def same_store_def same_adds_def)
qed

lemma acted_received:
  assumes "just_ok X c st"
  shows "set (acted_tags st) \<subseteq> set (received_ids st)"
  using just_okD(2) [OF assms] by (force simp: acted_tags_def received_ids_def q_came_def)

lemma totals_message:
  assumes good: "sq_good X c g0 st" and p: "sq_poller st = PBatch (m # rest)"
    and bound: "unat (sq_next_id st) < 2 ^ 64 - 1" and st': "st' = take_message X m rest st"
  shows "totals_ok g0 st'"
proof -
  have ok: "store_ok st" "in_one_place st" "just_ok X c st" "totals_ok g0 st" using good by (simp_all add: sq_good_def)
  let ?n = "sq_next_id st"
  have fresh: "?n \<notin> set (received_ids st)"
    using ids_ok_new(2) [of "q_received st" ?n] ok(1) bound by (auto simp: store_ok_def received_ids_def)
  then have na: "?n \<notin> set (acted_tags st)" "\<not> acked (q_acted st) ?n"
    using acted_received [OF ok(3)] acked_tags [of "q_acted st" ?n] by (auto simp: acted_tags_def)
  have ni: "?n \<notin> delivery_tag ` set (sq_items st)"
    using fresh in_one_place_distinct(5) [OF ok(1,2)] by (auto simp: transit_def)
  have v: "q_acted st' = q_acted st" "work_ch (sq_proc st') = work_ch (sq_proc st)" "q_busy st' = q_busy st"
    by (simp_all add: st' take_message_def on_message_fields)
  have old: "sq_sending (sq_poller st) = []" by (simp add: p sq_sending_def)
  show ?thesis
  proof (cases "message_id m st")
    case Nil
    then have "sq_sending (sq_poller st') = []" "q_gone st' = q_gone st" "glob (sq_proc st') = glob (sq_proc st)"
      by (auto simp: st' take_message_def on_message_def message_id_def sq_sending_def Let_def split: option.splits)
    then show ?thesis using ok(4)
      by (simp add: totals_ok_def acted_tags_def sq_items_def v old loaded_ids_def refused_ids_def)
  next
    case (Cons x xs)
    then obtain b h where m: "m_body m = Some b" "m_handle m = Some h" "message_id m st = [(?n, b, h)]"
      by (auto simp: message_id_def split: option.splits)
    show ?thesis
    proof (cases "malformed X b")
      case True
      then have "sq_sending (sq_poller st') = []" "q_gone st' = q_gone st @ [?n]"
        "ADDS_PROCESSED (glob (sq_proc st')) = ADDS_PROCESSED (glob (sq_proc st))"
        "ADDS_REJECTED (glob (sq_proc st')) = ADDS_REJECTED (glob (sq_proc st)) + 1"
        by (auto simp: st' take_message_def m malformed_def on_message_def is_err_def sq_sending_def Let_def split: sum.splits)
      then show ?thesis using ok(4) na(2)
        by (simp add: totals_ok_def acted_tags_def sq_items_def v old loaded_ids_def refused_ids_def)
    next
      case False
      then have "map delivery_tag (sq_sending (sq_poller st')) = [?n]" "q_gone st' = q_gone st"
        "glob (sq_proc st') = glob (sq_proc st)"
        by (auto simp: st' take_message_def m malformed_def on_message_def is_err_def sq_sending_def Let_def
            on_message_fields split: sum.splits)
      then show ?thesis using ok(4) na(1) ni
        by (auto simp: totals_ok_def acted_tags_def sq_items_def v old loaded_ids_def refused_ids_def)
    qed
  qed
qed

lemma on_outcome_counts:
  "ADDS_PROCESSED (glob (sq_proc (sqs_on_outcome o' st))) = ADDS_PROCESSED (glob (sq_proc st)) + (if is_ack (o_action o') then 1 else 0)"
  "ADDS_REJECTED (glob (sq_proc (sqs_on_outcome o' st))) =
     ADDS_REJECTED (glob (sq_proc st)) + (if is_ack (o_action o') \<or> is_fatal (o_action o') then 0 else 1)"
  by (cases "o_action o'"; simp add: outcome_defs delete_message_fields is_fatal_def is_ack_def)+

lemma totals_outcome:
  assumes good: "sq_good X c g0 st" and r: "chan_recv (result_ch (sq_proc st)) = (Item o', ch)"
    and st': "st' = (sqs_on_outcome o' (st\<lparr>sq_proc := (sq_proc st)\<lparr>result_ch := ch\<rparr>\<rparr>))
      \<lparr>q_gone := q_gone st @ deleted_by o' st, q_given_up := q_given_up st @ given_up_by o' st\<rparr>"
  shows "totals_ok g0 st'"
proof -
  have ok: "store_ok st" "in_one_place st" "just_ok X c st" "totals_ok g0 st" using good by (simp_all add: sq_good_def)
  let ?t = "o_delivery_tag o'"
  have res: "sq_results st = o' # ch_buf ch" using recv_item [OF r] by (simp add: sq_results_def)
  have v: "sq_items st' = sq_items st" "q_acted st' = q_acted st" "q_gone st' = q_gone st @ deleted_by o' st"
    by (simp_all add: st' sq_items_def on_outcome_fields on_outcome_history)
  have counts: "ADDS_PROCESSED (glob (sq_proc st')) = ADDS_PROCESSED (glob (sq_proc st)) + (if is_ack (o_action o') then 1 else 0)"
    "ADDS_REJECTED (glob (sq_proc st')) =
       ADDS_REJECTED (glob (sq_proc st)) + (if is_ack (o_action o') \<or> is_fatal (o_action o') then 0 else 1)"
    by (simp_all add: st' on_outcome_counts)
  show ?thesis
  proof (cases "is_fatal (o_action o')")
    case True
    then have "\<not> is_ack (o_action o')" by (auto simp: is_fatal_def is_ack_def split: action.splits)
    with True show ?thesis using ok(4) counts
      by (simp add: totals_ok_def acted_tags_def v loaded_ids_def refused_ids_def deleted_by_def)
  next
    case False
    then have nz: "?t \<noteq> 0" using ok(2) res by (auto simp: in_one_place_def receivers_kept_def)
    then have "?t \<in> fst ` set (sq_in_flight st)"
      unfolding in_one_place_distinct(4) [OF ok(1,2)] by (simp add: transit_def res)
    with False have gone: "q_gone st' = q_gone st @ [?t]" by (simp add: v deleted_by_def)
    obtain i where i: "(i, o_action o') \<in> set (q_acted st)" "delivery_tag i = ?t"
      using just_okD(3) [OF ok(3), of o'] False res by auto
    have "acked (q_acted st) ?t = is_ack (o_action o')"
      using acked_only [OF _ i] ok(4) by (simp add: totals_ok_def acted_tags_def)
    with False gone show ?thesis using ok(4) counts
      by (simp add: totals_ok_def acted_tags_def v(1,2) loaded_ids_def refused_ids_def)
  qed
qed

lemma totals_finish:
  assumes good: "sq_good X c g0 st" and j: "j < length (q_busy st)"
    and a: "load_action X c (q_busy st ! j) (sq_proc st) = (act, s1)"
    and st': "st' = st\<lparr>sq_proc := snd (finish_load (q_busy st ! j) act n s1),
      q_busy := take j (q_busy st) @ drop (Suc j) (q_busy st), q_acted := q_acted st @ [(q_busy st ! j, act)]\<rparr>"
  shows "totals_ok g0 st'"
proof -
  have ok: "store_ok st" "in_one_place st" "just_ok X c st" "totals_ok g0 st" using good by (simp_all add: sq_good_def)
  let ?i = "q_busy st ! j"
  note f1 = only_world_fields [OF conjunct1 [OF load_action_justified [OF a]]]
  have rx: "ch_rx (result_ch s1)" using ok(2) by (simp add: in_one_place_def receivers_kept_def f1)
  note e = finish_load_effect [OF rx, of ?i act n]
  have adds: "same_adds (sq_proc st) (sq_proc st')"
    using finish_load_adds [of s1 ?i act n] by (simp add: st' same_adds_def f1)
  have "mset (map delivery_tag (take j (q_busy st) @ drop (Suc j) (q_busy st))) + {#delivery_tag ?i#} = mset (map delivery_tag (q_busy st))"
    using mset_take_nth_drop [OF j] by (metis image_mset_union image_mset_single mset_map)
  then have "mset (acted_tags st' @ map delivery_tag (sq_items st')) = mset (acted_tags st @ map delivery_tag (sq_items st))"
    by (simp add: acted_tags_def sq_items_def st' e f1)
  then have d: "distinct (acted_tags st' @ map delivery_tag (sq_items st'))"
    using ok(4) mset_eq_imp_distinct_iff unfolding totals_ok_def by blast
  have "delivery_tag ?i \<in> set (transit st)" using j by (simp add: transit_def sq_items_def)
  then have "delivery_tag ?i \<notin> set (q_gone st)" using in_one_place_distinct(1) [OF ok(1,2)] by auto
  then have "\<forall>t \<in> set (q_gone st). acked (q_acted st') t = acked (q_acted st) t"
    by (auto simp: st' acked_def)
  then have "loaded_ids st' = loaded_ids st" "refused_ids st' = refused_ids st"
    by (simp_all add: loaded_ids_def refused_ids_def st' cong: filter_cong)
  then show ?thesis using d adds ok(4) by (simp add: totals_ok_def same_adds_def)
qed

lemma totals_step:
  assumes good: "sq_good X c g0 st" and s: "sq_step X c cap mm st ev = Some st'"
  shows "totals_ok g0 st'"
proof -
  have t: "totals_ok g0 st" using good by (simp add: sq_good_def)
  show ?thesis
  proof (cases ev)
    case EMessage
    then consider "sq_poller st = PBatch []" "st' = st\<lparr>sq_poller := PTop\<rparr>"
      | m rest where "sq_poller st = PBatch (m # rest)" "unat (sq_next_id st) < 2 ^ 64 - 1" "st' = take_message X m rest st"
      using s by (auto simp: sq_step_def Let_def split: poller.splits list.splits if_splits)
    then show ?thesis
    proof cases
      case 1
      then show ?thesis
        by (intro totals_same [OF t]) (auto simp: same_store_def same_adds_def sq_items_def sq_sending_def)
    next
      case (2 m rest)
      with totals_message [OF good] show ?thesis by blast
    qed
  next
    case EOutcome
    then show ?thesis using s totals_outcome [OF good]
      by (auto simp: sq_step_def Let_def split: try_outcome.splits prod.splits if_splits)
  next
    case (EFinish j n)
    obtain act s1 where a: "load_action X c (q_busy st ! j) (sq_proc st) = (act, s1)" by fastforce
    then show ?thesis using s EFinish totals_finish [OF good _ a]
      by (auto simp: sq_step_def Let_def split: if_splits)
  next
    case EPick
    then obtain item ch where r: "chan_recv (work_ch (sq_proc st)) = (Item item, ch)"
      "st' = st\<lparr>sq_proc := begin_load X c item ((sq_proc st)\<lparr>work_ch := ch\<rparr>), q_busy := q_busy st @ [item]\<rparr>"
      using s by (auto simp: sq_step_def Let_def split: try_outcome.splits prod.splits if_splits)
    note pf = only_world_fields [OF poll_p_only_world]
    show ?thesis
      by (rule totals_same [OF t])
        (use recv_item [OF r(1)] in
          \<open>auto simp: r(2) same_store_def same_adds_def sq_items_def begin_load_def Let_def pf\<close>)
  next
    case ESend
    then obtain item rest where p: "sq_poller st = PSending item rest" "poller_sends item rest st = Some st'"
      using s by (auto simp: sq_step_def Let_def split: poller.splits)
    have "ch_rx (work_ch (sq_proc st))" using good by (simp add: sq_good_def in_one_place_def receivers_kept_def)
    then show ?thesis using p
      by (intro totals_same [OF t])
        (auto simp: poller_sends_def Let_def same_store_def same_adds_def sq_items_def
           sq_sending_def chan_send_def split: if_splits send_outcome.splits prod.splits)
  next
    case (EWorkerFatal msg)
    then show ?thesis using s signal_fatal_adds [of "sq_proc st" msg]
      by (intro totals_same [OF t]) (auto simp: sq_step_def Let_def same_store_def same_adds_def sq_items_def
          drop_result_tx_def split: if_splits)
  next
    case (EFetcherFatal msg)
    then show ?thesis using s signal_fatal_adds [of "sq_proc st" msg]
      by (intro totals_same [OF t]) (auto simp: sq_step_def Let_def same_store_def same_adds_def sq_items_def
          drop_result_tx_def split: if_splits)
  qed (use s in \<open>auto intro!: totals_same [OF t] simp: sq_step_def Let_def same_store_def same_adds_def
      sq_items_def sq_sending_def poll_head_def poller_returns_def on_response_def sqs_shut_down_def
      drop_result_tx_def chan_drop_sender_def same_channels_def split: if_splits sum.splits\<close>)
qed

lemma sq_good_step:
  assumes "sq_good X c g0 st" "sq_step X c cap mm st ev = Some st'"
  shows "sq_good X c g0 st'"
proof -
  have ok: "store_ok st" "just_ok X c st" "in_one_place st" using assms(1) by (simp_all add: sq_good_def)
  show ?thesis
    unfolding sq_good_def
    using store_step [OF assms(2) ok(1)] just_ok_step [OF ok(2) assms(2)] in_one_place_step [OF ok(1,3) assms(2)]
      totals_step [OF assms] by blast
qed

lemma sq_good_init: "sq_good X c (glob s) (sqs_init s threads fetcher)"
proof -
  have "totals_ok (glob s) (sqs_init s threads fetcher)"
    by (simp add: totals_ok_def sqs_init_def acted_tags_def sq_items_def sq_sending_def chan_new_def loaded_ids_def
        refused_ids_def)
  then show ?thesis by (simp add: sq_good_def in_one_place_init just_ok_init)
qed

lemma sq_good_run:
  assumes "sq_run X c cap mm (sqs_init s threads fetcher) es = Some st"
  shows "sq_good X c (glob s) st"
  by (rule sq_run_inv [where I = "sq_good X c (glob s)"], erule (1) sq_good_step, rule sq_good_init, rule assms)

section \<open>Properties\<close>

text \<open>C12: at every moment of an SQS run, in any interleaving, each message received is in exactly
  one place, once: deleted, given up on a fatal outcome, or on its way (being handed over, queued, in a
  worker, in an outcome not yet read); and the map of receipt handles holds exactly those on their way,
  so none is forgotten and none stays behind when the last outcome has been read.\<close>

theorem sqs_messages_are_conserved:
  assumes "sq_run X c cap mm (sqs_init s threads fetcher) es = Some st"
  shows "mset (map fst (q_received st)) =
      mset (q_gone st @ q_given_up st @ map delivery_tag (sq_items st) @ result_tags (sq_results st)) \<and>
    distinct (map fst (q_received st)) \<and>
    mset (map fst (sq_in_flight st)) = mset (map delivery_tag (sq_items st) @ result_tags (sq_results st))"
proof -
  have "in_one_place st" "store_ok st" using sq_good_run [OF assms] by (simp_all add: sq_good_def)
  then show ?thesis using received_distinct(1) by (simp add: in_one_place_def received_ids_def transit_def)
qed

text \<open>C30: the totals an SQS run reports are exact at every moment: from its start,
  \<open>ADDS_PROCESSED\<close> has grown by the number of messages deleted after a worker loaded them, and
  \<open>ADDS_REJECTED\<close> by the number of messages deleted otherwise (refused by the engine, or malformed).\<close>

theorem sqs_totals_are_exact:
  assumes "sq_run X c cap mm (sqs_init s threads fetcher) es = Some st"
  shows "ADDS_PROCESSED (glob (sq_proc st)) =
      ADDS_PROCESSED (glob s) + of_nat (length (filter (acked (q_acted st)) (q_gone st))) \<and>
    ADDS_REJECTED (glob (sq_proc st)) =
      ADDS_REJECTED (glob s) + of_nat (length (filter (Not \<circ> acked (q_acted st)) (q_gone st))) \<and>
    sq_deletes st = map (handle_of (q_received st)) (q_gone st)"
  using sq_good_run [OF assms] by (simp add: sq_good_def totals_ok_def store_ok_def loaded_ids_def refused_ids_def)

theorem sqs_messages_are_conserved_witness:
  "\<exists>st. sq_run demo_ext demo_ctx 1 10 (sqs_init demo_proc 1 False)
     [EPollHead, EResponse (Ok [demo_msg ''r1'' ''h1'', demo_msg ''junk'' ''h2'', demo_msg ''r1'' ''h3'']),
      EMessage, ESend, EMessage, EMessage] = Some st \<and> length (sq_in_flight st) = 2 \<and>
     mset (map fst (sq_in_flight st)) = mset (map delivery_tag (sq_items st) @ result_tags (sq_results st))"
proof -
  obtain st where st: "sq_run demo_ext demo_ctx 1 10 (sqs_init demo_proc 1 False)
     [EPollHead, EResponse (Ok [demo_msg ''r1'' ''h1'', demo_msg ''junk'' ''h2'', demo_msg ''r1'' ''h3'']),
      EMessage, ESend, EMessage, EMessage] = Some st" "length (sq_in_flight st) = 2" using demo_two_messages by blast
  from sqs_messages_are_conserved [OF st(1)] st show ?thesis by auto
qed

definition demo_loaded_events :: "demo_world sqs_event list" where
  "demo_loaded_events =
     [EPollHead, EResponse (Ok [demo_msg ''r1'' ''h1'', demo_msg ''junk'' ''h2'']),
      EMessage, ESend, EMessage, EPick, EFinish 0 5, EOutcome]"

lemma demo_loaded_message:
  "map_option (\<lambda>st. (ADDS_PROCESSED (glob (sq_proc st)), ADDS_REJECTED (glob (sq_proc st))))
     (sq_run demo_ext demo_ctx 1 10 (sqs_init demo_proc 1 False) demo_loaded_events) = Some (1, 1)"
  by (simp add: demo_sqs_defs demo_loaded_events_def demo_ctx_def begin_load_def poll_p_def poll_def idle_worker_def
      load_action_def from_utf8_def retry_once_def call_def is_err_def result_room_def finish_load_def send_outcome_p_def
      chan_blocking_send_def is_fatal_def outcome_defs delete_message_def deleted_by_def given_up_by_def ok_or_def)

theorem sqs_totals_are_exact_witness:
  "\<exists>st. sq_run demo_ext demo_ctx 1 10 (sqs_init demo_proc 1 False) demo_loaded_events = Some st \<and>
     ADDS_PROCESSED (glob (sq_proc st)) = 1 \<and>
     (of_nat (length (filter (acked (q_acted st)) (q_gone st))) :: u64) = 1"
proof -
  obtain st where st: "sq_run demo_ext demo_ctx 1 10 (sqs_init demo_proc 1 False) demo_loaded_events = Some st"
    "ADDS_PROCESSED (glob (sq_proc st)) = 1" using demo_loaded_message by (auto simp: map_option_eq_Some)
  from sqs_totals_are_exact [OF st(1)] st show ?thesis by (auto simp: demo_proc_def init_globals_def)
qed

end
