(* ===== verification/Sz_Sqs_Progress.thy ===== *)
theory Sz_Sqs_Progress
  imports Sz_Sqs_System Sz_Progress
begin

text \<open>
  The shutdown of an SQS run makes progress under every schedule: once \<open>RUNNING\<close> is cleared the work left
  only decreases, and the threads can get on until \<open>run\<close> is in its bounded join, unless the last worker has
  left while the poller still has something to hand over.
\<close>

section \<open>The work left\<close>

definition poller_left :: "nat \<Rightarrow> poller \<Rightarrow> nat" where
  "poller_left mm p =
     (case p of
        PReturned \<Rightarrow> 0
      | PTop \<Rightarrow> 1
      | PWaiting \<Rightarrow> 2
      | PBatch ms \<Rightarrow> 5 * length ms + 2
      | PSending _ ms \<Rightarrow> 5 * length ms + 6
      | PReceiving \<Rightarrow> 5 * mm + 3)"

definition main_left :: "sqs_main \<Rightarrow> nat" where
  "main_left m = (case m of QLoop \<Rightarrow> 2 | QAwaitPoller \<Rightarrow> 1 | QJoining \<Rightarrow> 0)"

definition sqs_left :: "nat \<Rightarrow> 'w sqs_sys \<Rightarrow> nat" where
  "sqs_left mm st =
     poller_left mm (sq_poller st) + 3 * length (ch_buf (work_ch (sq_proc st))) + 2 * length (q_busy st) +
     length (ch_buf (result_ch (sq_proc st))) + 2 * q_alive st + (if q_fetcher st then 2 else 0) + main_left (sq_main st)"

section \<open>The shape of a run\<close>

text \<open>Who holds which end of the channels, in every reachable state.\<close>

definition sq_shape :: "'w sqs_sys \<Rightarrow> bool" where
  "sq_shape st \<longleftrightarrow>
     0 < ch_cap (work_ch (sq_proc st)) \<and> 0 < ch_cap (result_ch (sq_proc st)) \<and> ch_rx (result_ch (sq_proc st)) \<and>
     length (q_busy st) \<le> q_alive st \<and>
     ch_senders (work_ch (sq_proc st)) = (if sq_poller st = PReturned then 0 else 1) \<and>
     ch_senders (result_ch (sq_proc st)) = q_alive st + (if q_fetcher st then 1 else 0) \<and>
     (sq_main st \<noteq> QLoop \<longrightarrow> q_alive st = 0 \<and> \<not> q_fetcher st \<and> ch_buf (result_ch (sq_proc st)) = [])"

lemma on_message_poller:
  "sq_poller (on_message fs m rest st) = PBatch rest \<or> (\<exists>i. sq_poller (on_message fs m rest st) = PSending i rest)"
  by (auto simp: on_message_def Let_def split: option.split sum.split)

lemma on_message_not_returned: "sq_poller (on_message fs m rest st) \<noteq> PReturned"
  using on_message_poller [of fs m rest st] by auto

lemma take_message_fields:
  "work_ch (sq_proc (take_message X m rest st)) = work_ch (sq_proc st)"
  "result_ch (sq_proc (take_message X m rest st)) = result_ch (sq_proc st)"
  "q_busy (take_message X m rest st) = q_busy st" "q_alive (take_message X m rest st) = q_alive st"
  "q_fetcher (take_message X m rest st) = q_fetcher st" "sq_main (take_message X m rest st) = sq_main st"
  "sq_poller (take_message X m rest st) = sq_poller (on_message (json_parse X) m rest st)"
  "RUNNING (glob (sq_proc (take_message X m rest st))) = RUNNING (glob (sq_proc st))"
  by (simp_all add: take_message_def on_message_fields)
    (simp_all add: on_message_def Let_def split: option.split sum.split)

lemma sq_shape_finish:
  assumes "sq_step X c cap mm st (EFinish j n) = Some st'" "sq_shape st"
  shows "sq_shape st' \<and> sqs_left mm st' < sqs_left mm st \<and> (RUNNING (glob (sq_proc st')) \<longrightarrow> RUNNING (glob (sq_proc st)))"
proof -
  obtain act s1 where a: "load_action X c (q_busy st ! j) (sq_proc st) = (act, s1)" by fastforce
  note f1 = only_world_fields [OF conjunct1 [OF load_action_justified [OF a]]]
  have j: "j < length (q_busy st)"
    and st': "st' = st\<lparr>sq_proc := snd (finish_load (q_busy st ! j) act n s1),
      q_busy := take j (q_busy st) @ drop (Suc j) (q_busy st), q_acted := q_acted st @ [(q_busy st ! j, act)]\<rparr>"
    using assms(1) a by (auto simp: sq_step_def Let_def split: if_splits)
  have rx: "ch_rx (result_ch s1)" using assms(2) by (simp add: sq_shape_def f1)
  have "RUNNING (glob (snd (finish_load (q_busy st ! j) act n s1))) \<longrightarrow> RUNNING (glob s1)"
    by (simp add: finish_load_def send_outcome_p_def Let_def mark_fatal_def split: prod.split)
  then show ?thesis using assms(2) j
    by (auto simp: sq_shape_def sqs_left_def st' finish_load_effect [OF rx] f1)
qed

lemma sq_shape_fatal:
  "work_ch (signal_fatal m s) = work_ch s" "ch_senders (result_ch (signal_fatal m s)) = ch_senders (result_ch s)"
  "ch_cap (result_ch (signal_fatal m s)) = ch_cap (result_ch s)" "ch_rx (result_ch (signal_fatal m s)) = ch_rx (result_ch s)"
  "glob (signal_fatal m s) = glob s"
  by (simp_all add: signal_fatal_def send_outcome_p_def chan_blocking_send_def Let_def)

lemma recv_keeps:
  "chan_recv ch = (x, ch') \<Longrightarrow> ch_cap ch' = ch_cap ch \<and> ch_senders ch' = ch_senders ch \<and> ch_rx ch' = ch_rx ch"
  by (auto simp: chan_recv_def split: list.splits if_splits)

lemma sq_shape_same:
  assumes "sq_shape st" "work_ch (sq_proc st') = work_ch (sq_proc st)" "result_ch (sq_proc st') = result_ch (sq_proc st)"
    "q_busy st' = q_busy st" "q_alive st' = q_alive st" "q_fetcher st' = q_fetcher st"
    "sq_main st' = sq_main st" "sq_poller st' = PReturned \<longleftrightarrow> sq_poller st = PReturned"
  shows "sq_shape st'"
  using assms by (simp add: sq_shape_def)

lemma sq_shape_returns: "sq_shape st \<Longrightarrow> sq_poller st \<noteq> PReturned \<Longrightarrow> sq_shape (poller_returns st)"
  by (simp add: sq_shape_def poller_returns_def chan_drop_sender_def Let_def)

lemma sq_shape_worker_leaves:
  assumes "sq_shape st" "idle_worker st" "work_ch s = work_ch (sq_proc st)" "ch_senders (result_ch s) = ch_senders (result_ch (sq_proc st))"
    "ch_cap (result_ch s) = ch_cap (result_ch (sq_proc st))" "ch_rx (result_ch s) = ch_rx (result_ch (sq_proc st))"
  shows "sq_shape (drop_result_tx (st\<lparr>sq_proc := s, q_alive := q_alive st - 1\<rparr>))"
proof -
  have "length (q_busy st) \<le> q_alive st - 1" "q_alive st \<noteq> 0" using assms(2) by (auto simp: idle_worker_def)
  then show ?thesis using assms
    by (auto simp: sq_shape_def drop_result_tx_def chan_drop_sender_def Let_def)
qed

lemma sq_shape_fetcher_leaves:
  assumes "sq_shape st" "q_fetcher st" "work_ch s = work_ch (sq_proc st)" "ch_senders (result_ch s) = ch_senders (result_ch (sq_proc st))"
    "ch_cap (result_ch s) = ch_cap (result_ch (sq_proc st))" "ch_rx (result_ch s) = ch_rx (result_ch (sq_proc st))"
  shows "sq_shape (drop_result_tx (st\<lparr>sq_proc := s, q_fetcher := False\<rparr>))"
  using assms by (auto simp: sq_shape_def drop_result_tx_def chan_drop_sender_def Let_def)

lemma sq_shape_step:
  assumes s: "sq_step X c cap mm st ev = Some st'" and shape: "sq_shape st"
  shows "sq_shape st'"
proof (cases ev)
  case EPollHead
  then show ?thesis using s sq_shape_returns [OF shape]
    by (auto simp: sq_step_def Let_def poll_head_def intro: sq_shape_same [OF shape] split: if_splits)
next
  case EPollNotified
  then show ?thesis using s sq_shape_returns [OF shape] by (auto simp: sq_step_def Let_def split: if_splits)
next
  case (EResponse r)
  then show ?thesis using s
    by (auto simp: sq_step_def Let_def on_response_def intro: sq_shape_same [OF shape] split: if_splits sum.splits)
next
  case (EFinish j n)
  then show ?thesis using s shape sq_shape_finish by blast
next
  case EMessage
  then show ?thesis using s
    by (auto simp: sq_step_def Let_def take_message_fields on_message_not_returned intro!: sq_shape_same [OF shape]
        split: poller.splits list.splits if_splits)
next
  case ESend
  then obtain item rest where p: "sq_poller st = PSending item rest" "poller_sends item rest st = Some st'"
    using s by (auto simp: sq_step_def Let_def split: poller.splits)
  show ?thesis
  proof (cases "ch_rx (work_ch (sq_proc st))")
    case True
    then have "st' = st\<lparr>sq_poller := PBatch rest, sq_proc := (sq_proc st)\<lparr>work_ch :=
        (work_ch (sq_proc st))\<lparr>ch_buf := ch_buf (work_ch (sq_proc st)) @ [item]\<rparr>\<rparr>\<rparr>"
      using p(2) by (auto simp: poller_sends_def Let_def chan_send_def split: if_splits)
    then show ?thesis using shape p(1) by (simp add: sq_shape_def)
  next
    case False
    then have "st' = poller_returns st" using p(2) by (simp add: poller_sends_def Let_def)
    then show ?thesis using sq_shape_returns [OF shape] p(1) by simp
  qed
next
  case EPick
  note pf = only_world_fields [OF poll_p_only_world]
  obtain item ch where r: "chan_recv (work_ch (sq_proc st)) = (Item item, ch)" "idle_worker st"
    "st' = st\<lparr>sq_proc := begin_load X c item ((sq_proc st)\<lparr>work_ch := ch\<rparr>), q_busy := q_busy st @ [item]\<rparr>"
    using s EPick by (auto simp: sq_step_def Let_def split: try_outcome.splits prod.splits if_splits)
  have "length (q_busy st) < q_alive st" using r(2) by (simp add: idle_worker_def)
  then show ?thesis using shape recv_keeps [OF r(1)]
    by (auto simp: r(3) sq_shape_def begin_load_def Let_def pf)
next
  case EOutcome
  then obtain o' ch where r: "chan_recv (result_ch (sq_proc st)) = (Item o', ch)" "sq_main st = QLoop"
    and st': "st' = (sqs_on_outcome o' (st\<lparr>sq_proc := (sq_proc st)\<lparr>result_ch := ch\<rparr>\<rparr>))
      \<lparr>q_gone := q_gone st @ deleted_by o' st, q_given_up := q_given_up st @ given_up_by o' st\<rparr>"
    using s by (auto simp: sq_step_def Let_def split: try_outcome.splits prod.splits if_splits)
  show ?thesis using shape recv_keeps [OF r(1)] r(2)
    by (simp add: sq_shape_def st' on_outcome_fields on_outcome_history)
next
  case (EWorkerFatal msg)
  then have "idle_worker st" "st' = drop_result_tx (st\<lparr>sq_proc := signal_fatal msg ((sq_proc st)\<lparr>glob := mark_fatal (glob (sq_proc st))\<rparr>),
      q_alive := q_alive st - 1\<rparr>)" using s by (auto simp: sq_step_def Let_def split: if_splits)
  then show ?thesis using sq_shape_worker_leaves [OF shape] by (simp add: sq_shape_fatal)
next
  case (EFetcherFatal msg)
  then have "q_fetcher st" "st' = drop_result_tx (st\<lparr>sq_proc := signal_fatal msg ((sq_proc st)\<lparr>glob := mark_fatal (glob (sq_proc st))\<rparr>),
      q_fetcher := False\<rparr>)" using s by (auto simp: sq_step_def Let_def split: if_splits)
  then show ?thesis using sq_shape_fetcher_leaves [OF shape] by (simp add: sq_shape_fatal)
next
  case EWorkerEnds
  then have "idle_worker st" "st' = drop_result_tx (st\<lparr>sq_proc := sq_proc st, q_alive := q_alive st - 1\<rparr>)"
    using s by (auto simp: sq_step_def Let_def split: if_splits)
  then show ?thesis using sq_shape_worker_leaves [OF shape, of "sq_proc st"] by simp
next
  case EFetcherEnds
  then have "q_fetcher st" "st' = drop_result_tx (st\<lparr>sq_proc := sq_proc st, q_fetcher := False\<rparr>)"
    using s by (auto simp: sq_step_def Let_def split: if_splits)
  then show ?thesis using sq_shape_fetcher_leaves [OF shape, of "sq_proc st"] by simp
next
  case (EElsewhere t)
  then show ?thesis using s
    by (auto simp: sq_step_def Let_def same_channels_def intro: sq_shape_same [OF shape] split: if_splits)
next
  case EResultsClosed
  then show ?thesis using s shape by (auto simp: sq_step_def Let_def sq_shape_def split: if_splits)
next
  case EPollerJoined
  then show ?thesis using s shape by (auto simp: sq_step_def Let_def sq_shape_def split: if_splits)
qed (use s in \<open>auto simp: sq_step_def Let_def sqs_shut_down_def intro: sq_shape_same [OF shape] split: if_splits\<close>)

lemma sq_shape_init: "0 < threads \<Longrightarrow> sq_shape (sqs_init s threads fetcher)"
  by (simp add: sq_shape_def sqs_init_def chan_new_def)

section \<open>After \<open>RUNNING\<close> was cleared\<close>

text \<open>Messages that can still be numbered: those of a batch, and of the receive under way.\<close>

definition to_number :: "nat \<Rightarrow> poller \<Rightarrow> nat" where
  "to_number mm p =
     (case p of PBatch ms \<Rightarrow> length ms | PSending _ ms \<Rightarrow> length ms | PReceiving \<Rightarrow> mm | _ \<Rightarrow> 0)"

definition sq_stopped :: "nat \<Rightarrow> 'w sqs_sys \<Rightarrow> bool" where
  "sq_stopped mm st \<longleftrightarrow>
     sq_shape st \<and> \<not> RUNNING (glob (sq_proc st)) \<and> unat (sq_next_id st) + to_number mm (sq_poller st) < 2 ^ 64"

lemma take_message_number:
  "unat (sq_next_id st) < 2 ^ 64 - 1 \<Longrightarrow> unat (sq_next_id (take_message X m rest st)) \<le> Suc (unat (sq_next_id st))"
  "to_number mm (sq_poller (take_message X m rest st)) = length rest"
  "poller_left mm (sq_poller (take_message X m rest st)) \<le> 5 * length rest + 6"
proof -
  assume "unat (sq_next_id st) < 2 ^ 64 - 1"
  then have "sq_next_id st \<noteq> - 1" by (auto simp: unat_max_word)
  then have "unat (sq_next_id st + 1) = Suc (unat (sq_next_id st))" by (rule unat_succ)
  then show "unat (sq_next_id (take_message X m rest st)) \<le> Suc (unat (sq_next_id st))"
    by (auto simp: take_message_def on_message_def Let_def split: option.split sum.split)
next
  show "to_number mm (sq_poller (take_message X m rest st)) = length rest"
    "poller_left mm (sq_poller (take_message X m rest st)) \<le> 5 * length rest + 6"
    using on_message_poller [of "json_parse X" m rest st]
    by (auto simp: take_message_fields to_number_def poller_left_def)
qed

lemma stopped_outcome:
  "RUNNING (glob (sq_proc (sqs_on_outcome o' st))) \<longrightarrow> RUNNING (glob (sq_proc st))"
  by (cases "o_action o'") (simp_all add: outcome_defs delete_message_fields)

lemma sq_stopped_same:
  assumes "sq_stopped mm st" "sq_shape st'" "RUNNING (glob (sq_proc st')) \<longrightarrow> RUNNING (glob (sq_proc st))"
    "sq_next_id st' = sq_next_id st" "to_number mm (sq_poller st') \<le> to_number mm (sq_poller st)"
  shows "sq_stopped mm st'"
  using assms by (simp add: sq_stopped_def)

lemma sq_stopped_step:
  assumes s: "sq_step X c cap mm st ev = Some st'" and stop: "sq_stopped mm st"
  shows "sq_stopped mm st' \<and> sqs_left mm st' \<le> sqs_left mm st"
proof -
  have shape: "sq_shape st'" "sq_shape st" "\<not> RUNNING (glob (sq_proc st))"
    using sq_shape_step [OF s] stop by (simp_all add: sq_stopped_def)
  note same = sq_stopped_same [OF stop shape(1)]
  show ?thesis
  proof (cases ev)
    case EPollHead
    then have "sq_poller st = PTop" "st' = poller_returns st"
      using s shape(3) by (auto simp: sq_step_def Let_def poll_head_def split: if_splits)
    then show ?thesis using same
      by (simp add: poller_returns_def chan_drop_sender_def Let_def sqs_left_def poller_left_def to_number_def)
  next
    case EPollWake
    then have "sq_poller st = PWaiting" "st' = st\<lparr>sq_poller := PTop\<rparr>"
      using s by (auto simp: sq_step_def Let_def split: if_splits)
    then show ?thesis using same by (simp add: sqs_left_def poller_left_def to_number_def)
  next
    case EPollNotified
    then have "st' = poller_returns st" using s by (auto simp: sq_step_def Let_def split: if_splits)
    then show ?thesis using same
      by (simp add: poller_returns_def chan_drop_sender_def Let_def sqs_left_def poller_left_def to_number_def)
  next
    case (EResponse r)
    then have p: "sq_poller st = PReceiving" "case r of Inr msgs \<Rightarrow> length msgs \<le> mm | Inl _ \<Rightarrow> True" "st' = on_response r st"
      using s by (auto simp: sq_step_def Let_def split: if_splits)
    then show ?thesis using same
      by (cases r) (simp_all add: on_response_def sqs_left_def poller_left_def to_number_def)
  next
    case EMessage
    then consider "sq_poller st = PBatch []" "st' = st\<lparr>sq_poller := PTop\<rparr>"
      | m rest where "sq_poller st = PBatch (m # rest)" "unat (sq_next_id st) < 2 ^ 64 - 1" "st' = take_message X m rest st"
      using s by (auto simp: sq_step_def Let_def split: poller.splits list.splits if_splits)
    then show ?thesis
    proof cases
      case 1
      then show ?thesis using same by (simp add: sqs_left_def to_number_def poller_left_def)
    next
      case (2 m rest)
      note n = take_message_number(1) [OF 2(2), of X m rest] take_message_number(2,3) [of mm X m rest st]
      have "unat (sq_next_id st) + length (m # rest) < 2 ^ 64" using stop 2(1) by (simp add: sq_stopped_def to_number_def)
      moreover have "poller_left mm (sq_poller st) = 5 * length rest + 7" by (simp add: 2(1) poller_left_def)
      ultimately show ?thesis using n shape 2(3)
        by (simp add: sq_stopped_def sqs_left_def take_message_fields(1-6,8))
    qed
  next
    case ESend
    then obtain item rest where p: "sq_poller st = PSending item rest" "poller_sends item rest st = Some st'"
      using s by (auto simp: sq_step_def Let_def split: poller.splits)
    then show ?thesis using same
      by (cases "ch_rx (work_ch (sq_proc st))")
        (auto simp: poller_sends_def Let_def chan_send_def poller_returns_def chan_drop_sender_def sqs_left_def to_number_def
          poller_left_def split: if_splits)
  next
    case (EFinish j n)
    have "sq_poller st' = sq_poller st" using poller_of_steps [OF s] EFinish by simp
    moreover have "sq_next_id st' = sq_next_id st" using sq_step_store [OF s] EFinish by (simp add: same_store_def)
    ultimately show ?thesis using same sq_shape_finish [OF s [unfolded EFinish] shape(2)] by (simp add: less_imp_le)
  next
    case EPick
    note pf = only_world_fields [OF poll_p_only_world]
    obtain item ch where r: "chan_recv (work_ch (sq_proc st)) = (Item item, ch)"
      "st' = st\<lparr>sq_proc := begin_load X c item ((sq_proc st)\<lparr>work_ch := ch\<rparr>), q_busy := q_busy st @ [item]\<rparr>"
      using s EPick by (auto simp: sq_step_def Let_def split: try_outcome.splits prod.splits if_splits)
    show ?thesis using same recv_item [OF r(1)]
      by (simp add: r(2) sqs_left_def begin_load_def Let_def pf)
  next
    case EOutcome
    then obtain o' ch where r: "chan_recv (result_ch (sq_proc st)) = (Item o', ch)"
      and st': "st' = (sqs_on_outcome o' (st\<lparr>sq_proc := (sq_proc st)\<lparr>result_ch := ch\<rparr>\<rparr>))
        \<lparr>q_gone := q_gone st @ deleted_by o' st, q_given_up := q_given_up st @ given_up_by o' st\<rparr>"
      using s by (auto simp: sq_step_def Let_def split: try_outcome.splits prod.splits if_splits)
    show ?thesis using same recv_item [OF r] stopped_outcome [of o' "st\<lparr>sq_proc := (sq_proc st)\<lparr>result_ch := ch\<rparr>\<rparr>"]
      by (simp add: st' sqs_left_def on_outcome_fields on_outcome_history)
  next
    case (EWorkerFatal msg)
    then have alive: "0 < q_alive st" and "st' = drop_result_tx (st\<lparr>sq_proc := signal_fatal msg ((sq_proc st)\<lparr>glob := mark_fatal (glob (sq_proc st))\<rparr>),
        q_alive := q_alive st - 1\<rparr>)" using s by (auto simp: sq_step_def Let_def idle_worker_def split: if_splits)
    then show ?thesis using same Suc_pred [OF alive, symmetric]
      by (simp add: drop_result_tx_def chan_drop_sender_def Let_def sqs_left_def sq_shape_fatal signal_fatal_buf mark_fatal_def)
  next
    case (EFetcherFatal msg)
    then have "q_fetcher st" "st' = drop_result_tx (st\<lparr>sq_proc := signal_fatal msg ((sq_proc st)\<lparr>glob := mark_fatal (glob (sq_proc st))\<rparr>),
        q_fetcher := False\<rparr>)" using s by (auto simp: sq_step_def Let_def split: if_splits)
    then show ?thesis using same
      by (simp add: drop_result_tx_def chan_drop_sender_def Let_def sqs_left_def sq_shape_fatal signal_fatal_buf mark_fatal_def)
  next
    case EWorkerEnds
    then have "st' = drop_result_tx (st\<lparr>q_alive := q_alive st - 1\<rparr>)" using s by (auto simp: sq_step_def Let_def split: if_splits)
    then show ?thesis using same by (simp add: drop_result_tx_def chan_drop_sender_def Let_def sqs_left_def)
  next
    case EFetcherEnds
    then have "st' = drop_result_tx (st\<lparr>q_fetcher := False\<rparr>)" using s by (auto simp: sq_step_def Let_def split: if_splits)
    then show ?thesis using same by (simp add: drop_result_tx_def chan_drop_sender_def Let_def sqs_left_def)
  next
    case (EElsewhere t)
    then show ?thesis using s same
      by (auto simp: sq_step_def Let_def sqs_left_def same_channels_def split: if_splits)
  next
    case ESignal
    then have "st' = sqs_shut_down st" using s by (auto simp: sq_step_def Let_def split: if_splits)
    then show ?thesis using same by (simp add: sqs_shut_down_def Let_def sqs_left_def)
  next
    case EResultsClosed
    then show ?thesis using s same by (auto simp: sq_step_def Let_def sqs_left_def main_left_def split: if_splits)
  next
    case EPollerJoined
    then show ?thesis using s same by (auto simp: sq_step_def Let_def sqs_left_def main_left_def split: if_splits)
  qed
qed

section \<open>The threads can always get on\<close>

text \<open>At the bounded join, or without workers while the poller has not returned.\<close>

definition sqs_over :: "'w sqs_sys \<Rightarrow> bool" where
  "sqs_over st \<longleftrightarrow> sq_main st = QJoining \<or> (q_alive st = 0 \<and> sq_poller st \<noteq> PReturned)"

lemma poller_advance:
  assumes stop: "sq_stopped mm st" and p: "sq_poller st \<noteq> PReturned" and q: "ch_buf (work_ch (sq_proc st)) = []"
  shows "can_advance (sq_step X c cap mm) (sqs_left mm) st"
proof -
  have shape: "sq_shape st" "\<not> RUNNING (glob (sq_proc st))" using stop by (simp_all add: sq_stopped_def)
  have "\<exists>ev st'. sq_step X c cap mm st ev = Some st' \<and> sqs_left mm st' < sqs_left mm st"
  proof (cases "sq_poller st")
    case PTop
    then show ?thesis using shape(2)
      by (intro exI [of _ EPollHead])
        (simp add: sq_step_def Let_def poll_head_def poller_returns_def chan_drop_sender_def sqs_left_def poller_left_def)
  next
    case PWaiting
    then show ?thesis by (intro exI [of _ EPollWake]) (simp add: sq_step_def Let_def sqs_left_def poller_left_def)
  next
    case PReceiving
    then show ?thesis
      by (intro exI [of _ "EResponse (Inl ())"]) (simp add: sq_step_def Let_def on_response_def sqs_left_def poller_left_def)
  next
    case (PBatch ms)
    show ?thesis
    proof (cases ms)
      case Nil
      then show ?thesis using PBatch
        by (intro exI [of _ EMessage]) (simp add: sq_step_def Let_def sqs_left_def poller_left_def)
    next
      case (Cons m rest)
      have "unat (sq_next_id st) < 2 ^ 64 - 1" using stop by (simp add: sq_stopped_def to_number_def PBatch Cons)
      moreover have "poller_left mm (sq_poller (take_message X m rest st)) < poller_left mm (sq_poller st)"
        using take_message_number(3) [of mm X m rest st] by (simp add: PBatch Cons poller_left_def [of _ "PBatch _"])
      ultimately show ?thesis using PBatch Cons
        by (intro exI [of _ EMessage] exI [of _ "take_message X m rest st"])
          (simp add: sq_step_def Let_def sqs_left_def take_message_fields(1-6))
    qed
  next
    case (PSending item rest)
    have "length (ch_buf (work_ch (sq_proc st))) < ch_cap (work_ch (sq_proc st))" using shape(1) q by (simp add: sq_shape_def)
    then show ?thesis using PSending q
      by (intro exI [of _ ESend])
        (auto simp: sq_step_def Let_def poller_sends_def chan_send_def poller_returns_def chan_drop_sender_def sqs_left_def
          poller_left_def)
  qed (use p in simp)
  then show ?thesis by (simp add: can_advance_def)
qed

lemma sqs_advance:
  assumes stop: "sq_stopped mm st" and "\<not> sqs_over st"
  shows "can_advance (sq_step X c cap mm) (sqs_left mm) st"
proof -
  let ?s = "sq_proc st"
  have shape: "sq_shape st" using stop by (simp add: sq_stopped_def)
  consider (outcome) "ch_buf (result_ch ?s) \<noteq> []"
    | (finish) "ch_buf (result_ch ?s) = []" "q_busy st \<noteq> []"
    | (pick) "q_busy st = []" "q_alive st \<noteq> 0" "ch_buf (work_ch ?s) \<noteq> []"
    | (poll) "ch_buf (work_ch ?s) = []" "sq_poller st \<noteq> PReturned"
    | (ends) "q_busy st = []" "q_alive st \<noteq> 0" "ch_buf (work_ch ?s) = []" "sq_poller st = PReturned"
    | (close) "ch_buf (result_ch ?s) = []" "q_alive st = 0" "sq_poller st = PReturned"
    using assms(2) by (auto simp: sqs_over_def)
  then show ?thesis
  proof cases
    case outcome
    then obtain o' os where o': "ch_buf (result_ch ?s) = o' # os" by (cases "ch_buf (result_ch ?s)") auto
    then have "sq_main st = QLoop" using shape by (auto simp: sq_shape_def)
    then have "\<exists>st'. sq_step X c cap mm st EOutcome = Some st' \<and> sqs_left mm st' < sqs_left mm st"
      by (simp add: sq_step_def Let_def chan_recv_def o' sqs_left_def on_outcome_fields on_outcome_history)
    then show ?thesis unfolding can_advance_def by blast
  next
    case finish
    then have "result_room ?s" "0 < length (q_busy st)" using shape by (simp_all add: result_room_def sq_shape_def)
    then have "\<exists>st'. sq_step X c cap mm st (EFinish 0 0) = Some st'" by (simp add: sq_step_def Let_def split: prod.split)
    then show ?thesis using sq_shape_finish [OF _ shape] unfolding can_advance_def by blast
  next
    case pick
    then obtain i rest where i: "ch_buf (work_ch ?s) = i # rest" by (cases "ch_buf (work_ch ?s)") auto
    note pf = only_world_fields [OF poll_p_only_world]
    have "\<exists>st'. sq_step X c cap mm st EPick = Some st' \<and> sqs_left mm st' < sqs_left mm st"
      using pick by (simp add: sq_step_def Let_def chan_recv_def i idle_worker_def sqs_left_def begin_load_def pf)
    then show ?thesis unfolding can_advance_def by blast
  next
    case poll
    then show ?thesis using poller_advance [OF stop] by blast
  next
    case ends
    then have "fst (chan_recv (work_ch ?s)) = Closed" using shape by (simp add: chan_recv_def sq_shape_def)
    then have "\<exists>st'. sq_step X c cap mm st EWorkerEnds = Some st' \<and> sqs_left mm st' < sqs_left mm st"
      using ends by (simp add: sq_step_def Let_def idle_worker_def drop_result_tx_def chan_drop_sender_def sqs_left_def)
    then show ?thesis unfolding can_advance_def by blast
  next
    case close
    consider "q_fetcher st" | "\<not> q_fetcher st" "sq_main st = QLoop" | "\<not> q_fetcher st" "sq_main st = QAwaitPoller"
      using assms(2) by (cases "sq_main st") (auto simp: sqs_over_def)
    then have "\<exists>ev st'. sq_step X c cap mm st ev = Some st' \<and> sqs_left mm st' < sqs_left mm st"
    proof cases
      case 1
      then show ?thesis
        by (intro exI [of _ EFetcherEnds]) (simp add: sq_step_def Let_def drop_result_tx_def chan_drop_sender_def sqs_left_def)
    next
      case 2
      then show ?thesis using close shape
        by (intro exI [of _ EResultsClosed]) (simp add: sq_step_def Let_def sq_shape_def sqs_left_def main_left_def)
    next
      case 3
      then show ?thesis using close
        by (intro exI [of _ EPollerJoined]) (simp add: sq_step_def Let_def sqs_left_def main_left_def)
    qed
    then show ?thesis by (simp add: can_advance_def)
  qed
qed

interpretation sqs_stop: progress "sq_step X c cap mm" "sq_stopped mm" sqs_over "sqs_left mm"
  for X :: "('w, 'e) ext" and c :: worker_ctx and cap :: usize and mm :: nat
  by unfold_locales (use sq_stopped_step sqs_advance in blast)+

lemma sq_run_run_of: "sq_run X c cap mm st es = run_of (sq_step X c cap mm) st es"
  by (induction es arbitrary: st) (auto split: option.split)

section \<open>Property\<close>

text \<open>C33: once \<open>RUNNING\<close> is cleared, an SQS run comes to its bounded join under every schedule of
  its threads: the work left bounds the productive steps, no step undoes one, and as long as \<open>run\<close> has not
  reached its join some thread can take a productive step. The one exception is the state in which the last
  worker has left and the poller has not returned. (Fewer than \<open>2 ^ 64\<close> messages are numbered.)\<close>

theorem sqs_shutdown_comes_to_its_join:
  assumes "sq_run X c cap mm (sqs_init s threads fetcher) es = Some st" "0 < threads"
    and stop: "\<not> RUNNING (glob (sq_proc st))" "unat (sq_next_id st) + to_number mm (sq_poller st) < 2 ^ 64"
    and "sq_run X c cap mm st es' = Some st'"
  shows "strides (sq_step X c cap mm) (sqs_left mm) st es' + sqs_left mm st' \<le> sqs_left mm st \<and>
    (sq_main st' = QJoining \<or> q_alive st' = 0 \<and> sq_poller st' \<noteq> PReturned \<or>
     can_advance (sq_step X c cap mm) (sqs_left mm) st')"
proof -
  have "sq_shape st"
    by (rule sq_run_inv [where I = sq_shape], erule (1) sq_shape_step [rotated], rule sq_shape_init, rule assms(2), rule assms(1))
  then have m: "sq_stopped mm st" using stop by (simp add: sq_stopped_def)
  note r = assms(5) [unfolded sq_run_run_of]
  show ?thesis using sqs_stop.strides_bound [OF r m] sqs_stop.over_or_advance [OF r m] by (auto simp: sqs_over_def)
qed

text \<open>One worker, a signal before the first receive: the run gets to its join in four steps.\<close>

lemma demo_stop_run:
  "\<exists>st. sq_run demo_ext demo_ctx 1 10 (sqs_init demo_proc 1 False) [ESignal] = Some st \<and>
     \<not> RUNNING (glob (sq_proc st)) \<and> unat (sq_next_id st) + to_number 10 (sq_poller st) < 2 ^ 64 \<and>
     (\<exists>st'. sq_run demo_ext demo_ctx 1 10 st [EPollHead, EWorkerEnds, EResultsClosed, EPollerJoined] = Some st' \<and>
        sq_main st' = QJoining)"
  by (simp add: sq_step_def sqs_init_def Let_def sqs_shut_down_def poll_head_def poller_returns_def chan_drop_sender_def
      chan_new_def idle_worker_def chan_recv_def drop_result_tx_def to_number_def)

theorem sqs_shutdown_comes_to_its_join_witness:
  "\<exists>st st'. sq_run demo_ext demo_ctx 1 10 st [EPollHead, EWorkerEnds, EResultsClosed, EPollerJoined] = Some st' \<and>
     strides (sq_step demo_ext demo_ctx 1 10) (sqs_left 10) st [EPollHead, EWorkerEnds, EResultsClosed, EPollerJoined] +
       sqs_left 10 st' \<le> sqs_left 10 st"
proof -
  obtain st st' where st: "sq_run demo_ext demo_ctx 1 10 (sqs_init demo_proc 1 False) [ESignal] = Some st"
    "\<not> RUNNING (glob (sq_proc st))" "unat (sq_next_id st) + to_number 10 (sq_poller st) < 2 ^ 64"
    "sq_run demo_ext demo_ctx 1 10 st [EPollHead, EWorkerEnds, EResultsClosed, EPollerJoined] = Some st'"
    using demo_stop_run by blast
  from sqs_shutdown_comes_to_its_join [OF st(1) _ st(2-4)] st(4) show ?thesis by auto
qed

end
