(* ===== verification/Sz_Sqs_Quiet.thy ===== *)
theory Sz_Sqs_Quiet
  imports Sz_Sqs_Totals Sz_Sqs_Progress
begin

text \<open>
  An SQS run that comes to its end without reporting a fatal error has deleted every message it received,
  each for its reason: a worker that leaves early, and a message that is given up, always leave a fatal
  outcome behind, which the main loop reports.
\<close>

definition no_silent_loss :: "nat \<Rightarrow> 'w sqs_sys \<Rightarrow> bool" where
  "no_silent_loss threads st \<longleftrightarrow>
     sq_fatal st \<noteq> None \<or> (\<exists>o' \<in> set (sq_results st). is_fatal (o_action o')) \<or>
     (q_given_up st = [] \<and>
      (q_alive st < threads \<longrightarrow> ch_buf (work_ch (sq_proc st)) = [] \<and> sq_poller st = PReturned))"

lemma no_silent_loss_same:
  assumes "no_silent_loss threads st" "sq_fatal st' = sq_fatal st" "set (sq_results st) \<subseteq> set (sq_results st')"
    "q_given_up st' = q_given_up st" "q_alive st' = q_alive st"
    "sq_poller st = PReturned \<Longrightarrow> ch_buf (work_ch (sq_proc st)) = [] \<Longrightarrow>
       sq_poller st' = PReturned \<and> ch_buf (work_ch (sq_proc st')) = []"
  shows "no_silent_loss threads st'"
  using assms unfolding no_silent_loss_def by auto

lemma on_outcome_reports:
  "sq_fatal st \<noteq> None \<or> is_fatal (o_action o') \<Longrightarrow> sq_fatal (sqs_on_outcome o' st) \<noteq> None"
  "\<not> is_fatal (o_action o') \<Longrightarrow> sq_fatal (sqs_on_outcome o' st) = sq_fatal st"
  by (cases "o_action o'"; auto simp: outcome_defs delete_message_fields is_fatal_def)+

lemma signal_fatal_results:
  "ch_rx (result_ch s) \<Longrightarrow> \<exists>o'. ch_buf (result_ch (signal_fatal msg s)) = ch_buf (result_ch s) @ [o'] \<and> is_fatal (o_action o')"
  by (auto simp: signal_fatal_def send_outcome_p_def chan_blocking_send_def is_fatal_def Let_def)

lemma no_silent_loss_step:
  assumes s: "sq_step X c cap mm st ev = Some st'" and ok: "no_silent_loss threads st" and shape: "sq_shape st"
  shows "no_silent_loss threads st'"
proof (cases ev)
  case EPollHead
  then show ?thesis using s
    by (auto simp: sq_step_def poll_head_def poller_returns_def sq_results_def Let_def
        intro!: no_silent_loss_same [OF ok] split: if_splits)
next
  case EPollNotified
  then show ?thesis using s
    by (auto simp: sq_step_def poller_returns_def sq_results_def Let_def intro!: no_silent_loss_same [OF ok] split: if_splits)
next
  case (EResponse r)
  then show ?thesis using s
    by (auto simp: sq_step_def on_response_def sq_results_def Let_def intro!: no_silent_loss_same [OF ok] split: if_splits sum.splits)
next
  case EMessage
  have "sq_fatal (take_message X m rest st) = sq_fatal st" for m rest
    by (auto simp: take_message_def on_message_def Let_def split: option.split sum.split)
  then show ?thesis using s EMessage
    by (auto simp: sq_step_def sq_results_def Let_def take_message_fields take_message_def on_message_fields
        intro!: no_silent_loss_same [OF ok] split: poller.splits list.splits if_splits)
next
  case ESend
  then obtain item rest where p: "sq_poller st = PSending item rest" "poller_sends item rest st = Some st'"
    using s by (auto simp: sq_step_def Let_def split: poller.splits)
  have "sq_fatal st' = sq_fatal st \<and> sq_results st' = sq_results st \<and> q_given_up st' = q_given_up st \<and> q_alive st' = q_alive st"
    using p(2) by (auto simp: poller_sends_def poller_returns_def sq_results_def Let_def split: if_splits send_outcome.splits prod.splits)
  then show ?thesis using p(1) by (intro no_silent_loss_same [OF ok]) simp_all
next
  case EOutcome
  then obtain o' ch where r: "chan_recv (result_ch (sq_proc st)) = (Item o', ch)"
    and st': "st' = (sqs_on_outcome o' (st\<lparr>sq_proc := (sq_proc st)\<lparr>result_ch := ch\<rparr>\<rparr>))
      \<lparr>q_gone := q_gone st @ deleted_by o' st, q_given_up := q_given_up st @ given_up_by o' st\<rparr>"
    using s by (auto simp: sq_step_def Let_def split: try_outcome.splits prod.splits if_splits)
  let ?st1 = "st\<lparr>sq_proc := (sq_proc st)\<lparr>result_ch := ch\<rparr>\<rparr>"
  have f: "sq_fatal st' = sq_fatal (sqs_on_outcome o' ?st1)" "q_given_up st' = q_given_up st @ given_up_by o' st"
    "sq_results st = o' # sq_results st'" "q_alive st' = q_alive st" "sq_poller st' = sq_poller st"
    "work_ch (sq_proc st') = work_ch (sq_proc st)"
    using recv_item [OF r] by (simp_all add: st' sq_results_def on_outcome_fields on_outcome_history)
  show ?thesis
  proof (cases "is_fatal (o_action o')")
    case True
    then show ?thesis using on_outcome_reports(1) [of ?st1 o'] by (simp add: no_silent_loss_def f)
  next
    case False
    then have "given_up_by o' st = []" "sq_fatal st' = sq_fatal st"
      using on_outcome_reports(2) [OF False, of ?st1] f(1) by (simp_all add: given_up_by_def)
    then show ?thesis using ok False by (auto simp: no_silent_loss_def f)
  qed
next
  case EPick
  note pf = only_world_fields [OF poll_p_only_world]
  obtain item ch where r: "chan_recv (work_ch (sq_proc st)) = (Item item, ch)"
    "st' = st\<lparr>sq_proc := begin_load X c item ((sq_proc st)\<lparr>work_ch := ch\<rparr>), q_busy := q_busy st @ [item]\<rparr>"
    using s EPick by (auto simp: sq_step_def Let_def split: try_outcome.splits prod.splits if_splits)
  then show ?thesis using recv_item [OF r(1)]
    by (intro no_silent_loss_same [OF ok]) (simp_all add: sq_results_def begin_load_def Let_def pf)
next
  case (EFinish j n)
  obtain act s1 where a: "load_action X c (q_busy st ! j) (sq_proc st) = (act, s1)" by fastforce
  note f1 = only_world_fields [OF conjunct1 [OF load_action_justified [OF a]]]
  have st': "st' = st\<lparr>sq_proc := snd (finish_load (q_busy st ! j) act n s1),
      q_busy := take j (q_busy st) @ drop (Suc j) (q_busy st), q_acted := q_acted st @ [(q_busy st ! j, act)]\<rparr>"
    using s EFinish a by (auto simp: sq_step_def Let_def split: if_splits)
  have rx: "ch_rx (result_ch s1)" using shape by (simp add: sq_shape_def f1)
  show ?thesis by (intro no_silent_loss_same [OF ok]) (auto simp: st' sq_results_def finish_load_effect [OF rx] f1)
next
  case (EWorkerFatal msg)
  let ?p = "(sq_proc st)\<lparr>glob := mark_fatal (glob (sq_proc st))\<rparr>"
  have "ch_rx (result_ch ?p)" using shape by (simp add: sq_shape_def)
  from signal_fatal_results [OF this, of msg] show ?thesis using s EWorkerFatal
    by (auto simp: sq_step_def Let_def no_silent_loss_def sq_results_def drop_result_tx_def chan_drop_sender_def split: if_splits)
next
  case (EFetcherFatal msg)
  let ?p = "(sq_proc st)\<lparr>glob := mark_fatal (glob (sq_proc st))\<rparr>"
  have "ch_rx (result_ch ?p)" using shape by (simp add: sq_shape_def)
  from signal_fatal_results [OF this, of msg] show ?thesis using s EFetcherFatal
    by (auto simp: sq_step_def Let_def no_silent_loss_def sq_results_def drop_result_tx_def chan_drop_sender_def split: if_splits)
next
  case EWorkerEnds
  then have e: "fst (chan_recv (work_ch (sq_proc st))) = Closed"
    "st' = drop_result_tx (st\<lparr>q_alive := q_alive st - 1\<rparr>)" using s by (auto simp: sq_step_def Let_def split: if_splits)
  then have "ch_buf (work_ch (sq_proc st)) = []" "ch_senders (work_ch (sq_proc st)) = 0"
    by (auto simp: chan_recv_def split: list.splits if_splits)
  moreover from this have "sq_poller st = PReturned" using shape by (auto simp: sq_shape_def split: if_splits)
  ultimately show ?thesis using ok
    by (auto simp: e(2) no_silent_loss_def sq_results_def drop_result_tx_def chan_drop_sender_def Let_def)
next
  case EFetcherEnds
  then show ?thesis using s
    by (auto simp: sq_step_def Let_def drop_result_tx_def chan_drop_sender_def sq_results_def
        intro!: no_silent_loss_same [OF ok] split: if_splits)
next
  case (EElsewhere t)
  then show ?thesis using s
    by (auto simp: sq_step_def Let_def same_channels_def sq_results_def intro!: no_silent_loss_same [OF ok] split: if_splits)
qed (use s in \<open>auto simp: sq_step_def Let_def sqs_shut_down_def sq_results_def
    intro!: no_silent_loss_same [OF ok] split: if_splits\<close>)

text \<open>A run that is in its bounded join and has nothing to report.\<close>

lemma quiet_run_settles_all:
  assumes run: "sq_run X c cap mm (sqs_init s threads fetcher) es = Some st"
    and "0 < threads" and over: "sq_main st = QJoining" "sq_fatal st = None"
  shows "mset (q_gone st) = mset (map fst (q_received st))" "sq_in_flight st = []"
proof -
  have "sq_shape st \<and> no_silent_loss threads st"
  proof (rule sq_run_inv [where I = "\<lambda>st. sq_shape st \<and> no_silent_loss threads st", OF _ _ run])
    show "sq_shape (sqs_init s threads fetcher) \<and> no_silent_loss threads (sqs_init s threads fetcher)"
      using sq_shape_init [OF assms(2), of s fetcher] by (simp add: no_silent_loss_def) (simp add: sqs_init_def)
  qed (use sq_shape_step no_silent_loss_step in blast)
  then have "sq_results st = []" "q_given_up st = []" "sq_items st = []"
    using assms(2) over by (auto simp: sq_shape_def no_silent_loss_def sq_results_def sq_items_def sq_sending_def)
  moreover have "in_one_place st" using sq_good_run [OF run] by (simp add: sq_good_def)
  ultimately show "mset (q_gone st) = mset (map fst (q_received st))" "sq_in_flight st = []"
    by (simp_all add: in_one_place_def transit_def received_ids_def)
qed

end
