(* ===== verification/Sz_Rabbit_Contract.thy ===== *)
theory Sz_Rabbit_Contract
  imports Sz_Rabbit_Run Sz_Contract
begin

text \<open>
  The async task of the RabbitMQ consumer refines the contract of \<open>Sz_Contract\<close>, event by event: a delivery
  arrives when the broker makes it, and is rejected there if it is not a record; it is acknowledged or
  rejected when its outcome is read, rejected earlier by the monitor of the long records, and at the end
  rejected if a worker has begun it and otherwise left to the broker.
\<close>

text \<open>The outcome of a delivery the monitor has rejected does nothing any more.\<close>

definition next_outcome_acts :: "'w rabbit \<Rightarrow> k_act list" where
  "next_outcome_acts rb =
     (case outcomes rb of
        o' # _ \<Rightarrow> if tracked rb (o_delivery_tag o') = Some True then [] else outcome_acts o'
      | [] \<Rightarrow> [])"

definition late_tags :: "nat \<Rightarrow> nat \<Rightarrow> 'w rabbit \<Rightarrow> u64 list" where
  "late_tags now long rb =
     map fst (filter (\<lambda>(_, f). \<not> if_rejected f \<and> now - if_started f > long * 2) (rb_in_flight rb))"

definition drain_goes_on :: "('w, 'e) ext \<Rightarrow> 'w rabbit_loop \<Rightarrow> bool" where
  "drain_goes_on X st \<longleftrightarrow>
     rb_in_flight (y_rb (rl_sys st)) \<noteq> [] \<and>
     (case rl_deadline st of Some d \<Rightarrow> now_ns X (world (y_proc (rl_sys st))) < d | None \<Rightarrow> False)"

definition rl_acts :: "('w, 'e) ext \<Rightarrow> config \<Rightarrow> 'w rabbit_loop \<Rightarrow> 'w rabbit_event \<Rightarrow> k_act list" where
  "rl_acts X c st ev =
     (let rb = y_rb (rl_sys st)
      in case (y_phase (rl_sys st), ev) of
           (MLoop, RDelivery (Delivery tag data)) \<Rightarrow>
             Arrive tag # (if malformed X data then [Settle Refused tag] else [])
         | (MLoop, ROutcome) \<Rightarrow> next_outcome_acts rb
         | (MLoop, RMonitorTick) \<Rightarrow>
             map (Settle Refused) (late_tags (now_ns X (world (rb_proc rb))) (secs_ns (c_long_record_secs c)) rb)
         | (MDraining, RDrain) \<Rightarrow> if drain_goes_on X st then next_outcome_acts rb else []
         | _ \<Rightarrow> [])"

text \<open>The final settlement, with what the workers have started by then.\<close>

definition closing_acts :: "'w proc \<Rightarrow> 'w rabbit \<Rightarrow> k_act list" where
  "closing_acts s rb =
     map (\<lambda>t. if t \<in> started s then Settle Refused t else Leave t)
       (map fst (filter (\<lambda>(_, f). \<not> if_rejected f) (rb_in_flight rb)))"

text \<open>The actions of a whole loop.\<close>

definition rabbit_trace ::
  "('w, 'e) ext \<Rightarrow> worker_ctx \<Rightarrow> config \<Rightarrow> 'w rabbit_event list \<Rightarrow> 'w proc \<Rightarrow> k_act list" where
  "rabbit_trace X w c events s =
     (case redo_pref_workers c of
        None \<Rightarrow> []
      | Some r \<Rightarrow> trace_of (rl_step X w c r) (rl_acts X c) (rabbit_start X c r s) events)"

text \<open>A delivery is pending while it is tracked and not rejected.\<close>

definition rb_abs :: "u64 list \<Rightarrow> 'w rabbit \<Rightarrow> contract" where
  "rb_abs left rb =
     \<lparr>k_pending = {t. tracked rb t = Some False}, k_settled = settled rb, k_left = set left\<rparr>"

definition sys_abs :: "'w sys \<Rightarrow> contract" where
  "sys_abs st = rb_abs (y_left st) (y_rb st)"

text \<open>The deliveries and the calls to the broker.\<close>

definition rb_said :: "'w sys \<Rightarrow> u64 list \<times> amqp_call list" where
  "rb_said y = (map fst (y_delivered y), rb_calls (y_rb y))"

fun settle_call :: "verdict \<times> u64 \<Rightarrow> amqp_call list" where
  "settle_call (Accepted, t) = [BasicAck t]"
| "settle_call (Refused, t) = [BasicReject t]"
| "settle_call (Ignored, t) = []"

fun call_act :: "k_act \<Rightarrow> u64 list \<times> amqp_call list \<Rightarrow> u64 list \<times> amqp_call list" where
  "call_act (Arrive t) (ids, calls) = (ids @ [t], calls)"
| "call_act (Settle v t) (ids, calls) = (ids, calls @ settle_call (v, t))"
| "call_act (Leave _) (ids, calls) = (ids, calls)"

lemma fold_call_act:
  "fold call_act as (ids, calls) = (ids @ arrivals as, calls @ concat (map settle_call (settlements as)))"
proof (induction as arbitrary: ids calls)
  case (Cons a as)
  then show ?case by (cases a) simp_all
qed simp

lemma fold_call_act_refused:
  "fold call_act (map (Settle Refused) ts) (ids, calls) = (ids, calls @ map BasicReject ts)"
  by (induction ts arbitrary: calls) simp_all

lemma rb_abs_known: "ledger tags left rb \<Longrightarrow> k_known (rb_abs left rb) = set tags"
proof -
  assume l: "ledger tags left rb"
  have "dom (tracked rb) \<union> set (settled rb) = {t. tracked rb t = Some False} \<union> set (settled rb)"
    using l unfolding ledger_def by force
  then show ?thesis using l by (auto simp: k_known_def rb_abs_def ledger_def)
qed

lemma rb_abs_cong:
  "rb_in_flight rb' = rb_in_flight rb \<Longrightarrow> rb_calls rb' = rb_calls rb \<Longrightarrow> rb_abs left rb' = rb_abs left rb"
  by (simp add: rb_abs_def tracked_def settled_def)

section \<open>One event\<close>

lemma conclude_acts:
  assumes fl: "rb_in_flight rb' = hm_remove (o_delivery_tag o') (rb_in_flight rb)"
    and calls: "rb_calls rb' = rb_calls rb @ outcome_calls o' rb"
    and tag: "o_delivery_tag o' \<in> dom (tracked rb) - {0} \<or> (o_delivery_tag o' = 0 \<and> tracked rb 0 = None \<and> is_fatal (o_action o'))"
  defines "acts \<equiv> if tracked rb (o_delivery_tag o') = Some True then [] else outcome_acts o'"
  shows "k_run (rb_abs left rb) acts = Some (rb_abs (left @ left_by o' rb) rb')"
    "fold call_act acts (ids, rb_calls rb) = (ids, rb_calls rb')"
proof -
  let ?t = "o_delivery_tag o'"
  have T: "tracked rb' = (tracked rb)(?t := None)" using tracked_remove [OF fl] .
  have S: "settled rb' = settled rb @ map call_tag (outcome_calls o' rb)" by (simp add: settled_def calls)
  have "k_run (rb_abs left rb) acts = Some (rb_abs (left @ left_by o' rb) rb') \<and>
    fold call_act acts (ids, rb_calls rb) = (ids, rb_calls rb')"
  proof (cases "tracked rb ?t = Some False")
    case False
    then have "outcome_calls o' rb = []" "left_by o' rb = []" "{t. tracked rb' t = Some False} = {t. tracked rb t = Some False}"
      "acts = []"
      using tag by (auto simp: outcome_calls_def left_by_def T is_fatal_def acts_def outcome_acts_def split: action.splits)
    then show ?thesis by (simp add: rb_abs_def S calls)
  next
    case True
    then have "{t. tracked rb' t = Some False} = {t. tracked rb t = Some False} - {?t}" "?t \<noteq> 0"
      using tag by (auto simp: T split: if_splits)
    then show ?thesis using True
      by (cases "o_action o'")
        (simp_all add: acts_def outcome_acts_def rb_abs_def S calls outcome_calls_def left_by_def is_fatal_def)
  qed
  then show "k_run (rb_abs left rb) acts = Some (rb_abs (left @ left_by o' rb) rb')"
    "fold call_act acts (ids, rb_calls rb) = (ids, rb_calls rb')" by blast+
qed

lemma monitor_acts:
  assumes keys: "keys_ok rb"
  shows "k_run (rb_abs left rb) (map (Settle Refused) (late_tags now long rb)) =
      Some (rb_abs left (monitor_long_records now long k rb))"
    "rb_calls (monitor_long_records now long k rb) = rb_calls rb @ map BasicReject (late_tags now long rb)"
proof -
  let ?tags = "late_tags now long rb"
  define rb1 where "rb1 = (if length (filter (\<lambda>(_, f). now - if_started f > long) (rb_in_flight rb)) \<ge> unat k
    then print_rb (AllStuck k) rb else rb)"
  have rb1: "rb_in_flight rb1 = rb_in_flight rb" "rb_calls rb1 = rb_calls rb" "tracked rb1 = tracked rb"
    by (auto simp: rb1_def tracked_def fun_eq_iff)
  have m: "monitor_long_records now long k rb = fold reject_long ?tags rb1"
    by (simp add: monitor_long_records_def Let_def rb1_def late_tags_def)
  have d: "distinct ?tags" using keys by (simp add: keys_ok_def late_tags_def distinct_map_filter)
  have "set ?tags \<subseteq> fst ` set (rb_in_flight rb1)" by (auto simp: rb1 late_tags_def)
  note F = fold_reject_long [OF d this]
  show calls: "rb_calls (monitor_long_records now long k rb) = rb_calls rb @ map BasicReject ?tags"
    using F by (simp add: m rb1)
  have "tracked rb t = Some False" if t: "t \<in> set ?tags" for t
  proof -
    obtain f where "(t, f) \<in> set (rb_in_flight rb)" "\<not> if_rejected f" using t by (auto simp: late_tags_def)
    with keys show ?thesis by (simp add: keys_ok_def tracked_def)
  qed
  then have "k_run (rb_abs left rb) (map (Settle Refused) ?tags) =
      Some ((rb_abs left rb)\<lparr>k_pending := k_pending (rb_abs left rb) - set ?tags, k_settled := k_settled (rb_abs left rb) @ ?tags\<rparr>)"
    by (intro k_settle_many [OF d]) (auto simp: rb_abs_def)
  moreover have "{t. tracked (fold reject_long ?tags rb1) t = Some False} = {t. tracked rb t = Some False} - set ?tags"
    using F by (auto simp: rb1 split: if_splits)
  ultimately show "k_run (rb_abs left rb) (map (Settle Refused) ?tags) = Some (rb_abs left (monitor_long_records now long k rb))"
    using calls by (simp add: rb_abs_def settled_def m comp_def)
qed

lemma delivery_acts:
  assumes l: "ledger tags left rb" and fresh: "tag \<notin> set tags"
    and d: "on_delivery (json_parse X) now (Delivery tag data) rb = (rb', item)"
  defines "acts \<equiv> Arrive tag # (if malformed X data then [Settle Refused tag] else [])"
  shows "k_run (rb_abs left rb) acts = Some (rb_abs left rb')"
    "fold call_act acts (ids, rb_calls rb) = (ids @ [tag], rb_calls rb')"
proof -
  have new: "tag \<notin> k_known (rb_abs left rb)" using fresh rb_abs_known [OF l] by simp
  then have np: "tracked rb tag \<noteq> Some False" by (simp add: k_known_def rb_abs_def)
  have "k_run (rb_abs left rb) acts = Some (rb_abs left rb') \<and>
    fold call_act acts (ids, rb_calls rb) = (ids @ [tag], rb_calls rb')"
  proof (cases "parse_record (json_parse X) data")
    case (Inl e)
    then have rb': "rb' = call_rb (BasicReject tag) rb" using d by (simp add: on_delivery_def)
    have "tracked rb' = tracked rb" by (simp add: rb' tracked_def fun_eq_iff)
    then show ?thesis using new np Inl
      by (auto simp: acts_def malformed_def is_err_def rb_abs_def settled_def rb')
  next
    case (Inr ri)
    then have rb': "rb' = rb\<lparr>rb_in_flight := hm_insert tag \<lparr>if_info = ri, if_started = now, if_rejected = False\<rparr> (rb_in_flight rb)\<rparr>"
      using d by (simp add: on_delivery_def)
    then have "tracked rb' = (tracked rb)(tag \<mapsto> False)" using tracked_insert [of rb' tag _ rb] by simp
    then have "{t. tracked rb' t = Some False} = insert tag {t. tracked rb t = Some False}" by auto
    then show ?thesis using new Inr
      by (simp add: acts_def malformed_def is_err_def) (simp add: rb_abs_def settled_def rb')
  qed
  then show "k_run (rb_abs left rb) acts = Some (rb_abs left rb')"
    "fold call_act acts (ids, rb_calls rb) = (ids @ [tag], rb_calls rb')" by blast+
qed

definition rl_ok :: "('w, 'e) ext \<Rightarrow> worker_ctx \<Rightarrow> 'w rabbit_loop \<Rightarrow> bool" where
  "rl_ok X w st \<longleftrightarrow> sys_inv X w (rl_sys st) \<and> y_phase (rl_sys st) \<noteq> MClosed"

lemma rl_ok_step:
  assumes "rl_ok X w st" "rl_step X w c r st ev = Some st'"
  shows "rl_ok X w st'"
  using assms rl_step_sound [OF assms(2)] rl_step_open [OF assms(2)] sys_inv_step unfolding rl_ok_def by metis

text \<open>Most events touch neither the map of deliveries nor the broker.\<close>

definition no_change :: "'w sys \<Rightarrow> 'w sys \<Rightarrow> bool" where
  "no_change y y' \<longleftrightarrow> rb_in_flight (y_rb y') = rb_in_flight (y_rb y) \<and> rb_calls (y_rb y') = rb_calls (y_rb y) \<and>
     y_left y' = y_left y \<and> y_delivered y' = y_delivered y"

lemma no_change_abs: "no_change y y' \<Longrightarrow> sys_abs y' = sys_abs y \<and> rb_said y' = rb_said y"
  using rb_abs_cong [of "y_rb y'" "y_rb y"] by (simp add: no_change_def sys_abs_def rb_said_def)

lemma end_turn_no_change:
  "rb_in_flight rb = rb_in_flight (y_rb y) \<Longrightarrow> rb_calls rb = rb_calls (y_rb y) \<Longrightarrow> no_change y (rl_sys (end_turn X rb y st))"
  by (simp add: no_change_def end_turn_def loop_tail_def enter_drain_def Let_def)

lemma loop_arm_no_change:
  assumes "loop_arm X c r st ev = Some st'" "ev \<noteq> ROutcome" "ev \<noteq> RMonitorTick" "\<And>tag data. ev \<noteq> RDelivery (Delivery tag data)"
  shows "no_change (rl_sys st) (rl_sys st')"
proof (cases ev)
  case (RDelivery d)
  then show ?thesis using assms
    by (cases d) (auto simp: loop_arm_def Let_def on_delivery_def intro!: end_turn_no_change)
next
  case RStatsAnswer
  then show ?thesis using assms(1)
    by (auto simp: loop_arm_def Let_def no_change_def with_proc_def split: list.splits prod.splits)
qed (use assms in \<open>auto simp: loop_arm_def Let_def intro!: end_turn_no_change split: if_splits\<close>,
    auto simp: no_change_def)

lemma send_arm_no_change: "send_arm X item st ev = Some st' \<Longrightarrow> no_change (rl_sys st) (rl_sys st')"
  by (cases ev)
    (auto simp: send_arm_def Let_def no_change_def with_proc_def loop_tail_def end_turn_def enter_drain_def
      split: if_splits prod.splits send_outcome.splits)

lemma other_thread_no_change: "other_thread X w st ev = Some st' \<Longrightarrow> no_change (rl_sys st) (rl_sys st')"
  by (cases ev)
    (auto simp: other_thread_def Let_def no_change_def with_proc_def leaving_defs
      split: if_splits prod.splits try_outcome.splits)

text \<open>The outcome at the head of the channel belongs to a delivery still tracked, or is a thread's fatal error.\<close>

lemma head_outcome:
  assumes ok: "rl_ok X w st" and o': "o' \<in> set (outcomes (y_rb (rl_sys st)))"
  shows "o_delivery_tag o' \<in> dom (tracked (y_rb (rl_sys st))) - {0} \<or>
    (o_delivery_tag o' = 0 \<and> tracked (y_rb (rl_sys st)) 0 = None \<and> is_fatal (o_action o'))"
proof -
  let ?y = "rl_sys st"
  have inv: "sys_inv X w ?y" "y_phase ?y \<noteq> MClosed" using ok by (simp_all add: rl_ok_def)
  note D = sys_invD [OF inv(1)]
  have "tracked (y_rb ?y) 0 = None"
  proof (rule ccontr)
    assume "tracked (y_rb ?y) 0 \<noteq> None"
    then have "0 \<in> dom (tracked (y_rb ?y))" by blast
    then show False using D(1) unfolding ledger_def by blast
  qed
  moreover have "o_delivery_tag o' \<noteq> 0 \<Longrightarrow> o_delivery_tag o' \<in> dom (tracked (y_rb ?y))"
    using D(2) inv(2) o' by (auto simp: transit_ok_def Let_def)
  moreover have "o_delivery_tag o' = 0 \<Longrightarrow> is_fatal (o_action o')" using D(3) [OF o'] by (simp add: outcome_ok_def)
  ultimately show ?thesis by blast
qed

lemma outcome_event_acts:
  assumes ok: "rl_ok X w st" and recv: "chan_recv (result_ch (y_proc (rl_sys st))) = (Item o', ch)"
    and y': "rb_in_flight (y_rb y') = hm_remove (o_delivery_tag o') (rb_in_flight (y_rb (rl_sys st)))"
      "rb_calls (y_rb y') = rb_calls (y_rb (rl_sys st)) @ outcome_calls o' (y_rb (rl_sys st))"
      "y_left y' = y_left (rl_sys st) @ left_by o' (y_rb (rl_sys st))" "y_delivered y' = y_delivered (rl_sys st)"
  defines "acts \<equiv> next_outcome_acts (y_rb (rl_sys st))"
  shows "k_run (sys_abs (rl_sys st)) acts = Some (sys_abs y') \<and> rb_said y' = fold call_act acts (rb_said (rl_sys st))"
proof -
  let ?rb = "y_rb (rl_sys st)"
  have o': "outcomes ?rb = o' # ch_buf ch" using recv_item [OF recv] by (simp add: outcomes_def)
  have acts: "acts = (if tracked ?rb (o_delivery_tag o') = Some True then [] else outcome_acts o')"
    by (simp add: acts_def next_outcome_acts_def o')
  have "o' \<in> set (outcomes ?rb)" by (simp add: o')
  note C = conclude_acts [OF y'(1,2) head_outcome [OF ok this]]
  show ?thesis unfolding acts sys_abs_def rb_said_def y'(3,4) using C by metis
qed

lemma rl_event_acts:
  assumes ok: "rl_ok X w st" and step: "rl_step X w c r st ev = Some st'"
  shows "k_run (sys_abs (rl_sys st)) (rl_acts X c st ev) = Some (sys_abs (rl_sys st')) \<and>
    rb_said (rl_sys st') = fold call_act (rl_acts X c st ev) (rb_said (rl_sys st))"
proof -
  let ?y = "rl_sys st"
  have l: "ledger (map fst (y_delivered ?y)) (y_left ?y) (y_rb ?y)"
    using ok sys_invD(1) by (auto simp: rl_ok_def)
  have quiet: ?thesis if "no_change ?y (rl_sys st')" "rl_acts X c st ev = []"
    using no_change_abs [OF that(1)] that(2) by simp
  have turn: "y_left (rl_sys (end_turn X rb y st)) = y_left y" "y_delivered (rl_sys (end_turn X rb y st)) = y_delivered y"
    "rb_in_flight (y_rb (rl_sys (end_turn X rb y st))) = rb_in_flight rb" "rb_calls (y_rb (rl_sys (end_turn X rb y st))) = rb_calls rb"
    for rb y by (simp_all add: end_turn_def loop_tail_def enter_drain_def Let_def)
  have track: "tracked (with_result_ch ch rb) = tracked rb" "rb_in_flight (with_result_ch ch rb) = rb_in_flight rb"
    "rb_calls (with_result_ch ch rb) = rb_calls rb" "outcome_calls o' (with_result_ch ch rb) = outcome_calls o' rb"
    for ch o' and rb :: "'a rabbit"
    by (simp_all add: with_result_ch_def tracked_def fun_eq_iff outcome_calls_def)
  show ?thesis
  proof (cases "of_task ev")
    case False
    then have o: "other_thread X w st ev = Some st'" using step by (simp add: rl_step_def split: if_splits)
    have "rl_acts X c st ev = []" using False by (cases ev; cases "y_phase ?y") (simp_all add: rl_acts_def)
    then show ?thesis using quiet other_thread_no_change [OF o] by blast
  next
    case True
    show ?thesis
    proof (cases "y_phase ?y")
      case MLoop
      have arm: "loop_arm X c r st ev = Some st'" using step True MLoop by (simp add: rl_step_def split: if_splits)
      consider "ev = ROutcome" | "ev = RMonitorTick" | tag data where "ev = RDelivery (Delivery tag data)"
        | "ev \<noteq> ROutcome" "ev \<noteq> RMonitorTick" "\<And>tag data. ev \<noteq> RDelivery (Delivery tag data)" by blast
      then show ?thesis
      proof cases
        case 1
        have a: "rl_acts X c st ev = next_outcome_acts (y_rb ?y)" by (simp add: rl_acts_def MLoop 1)
        obtain t ch where recv: "chan_recv (result_ch (y_proc ?y)) = (t, ch)" by fastforce
        show ?thesis
        proof (cases t)
          case (Item o')
          let ?rb = "on_outcome (now_ns X (world (y_proc ?y))) o' (with_result_ch ch (y_rb ?y))"
          have "st' = end_turn X ?rb (?y\<lparr>y_left := y_left ?y @ left_by o' (y_rb ?y)\<rparr>) st"
            using arm 1 recv Item by (simp add: loop_arm_def Let_def)
          then show ?thesis unfolding a using recv Item
            by (intro outcome_event_acts [OF ok]) (simp_all add: turn on_outcome_effect track)
        next
          case Empty
          then show ?thesis using arm 1 recv by (simp add: loop_arm_def Let_def)
        next
          case Closed
          then have "ch_buf (result_ch (y_proc ?y)) = []" using recv by (auto simp: chan_recv_def split: list.splits if_splits)
          then have "rl_acts X c st ev = []" by (simp add: a next_outcome_acts_def outcomes_def)
          moreover have "rl_sys st' = ?y" using arm 1 recv Closed by (auto simp: loop_arm_def Let_def leave_loop_def)
          ultimately show ?thesis by simp
        qed
      next
        case 2
        have keys: "keys_ok (y_rb ?y)" using l by (simp add: ledger_def)
        have "rl_sys st' = ?y\<lparr>y_rb := monitor_long_records (now_ns X (world (y_proc ?y)))
            (secs_ns (c_long_record_secs c)) (c_threads c) (y_rb ?y)\<rparr>"
          using arm 2 by (auto simp: loop_arm_def Let_def)
        then show ?thesis using monitor_acts [OF keys]
          by (simp add: 2 rl_acts_def Let_def MLoop sys_abs_def rb_said_def fold_call_act_refused)
      next
        case (3 tag data)
        obtain rb item where d: "on_delivery (json_parse X) (now_ns X (world (y_proc ?y))) (Delivery tag data) (y_rb ?y) = (rb, item)"
          by fastforce
        have "tag \<notin> set (map fst (y_delivered ?y))" "y_rb (rl_sys st') = rb" "y_left (rl_sys st') = y_left ?y"
          "y_delivered (rl_sys st') = y_delivered ?y @ [(tag, data)]"
          using arm 3 d by (auto simp: loop_arm_def Let_def split: if_splits)
        then show ?thesis using delivery_acts [OF l _ d]
          by (simp add: 3 rl_acts_def MLoop sys_abs_def rb_said_def)
      next
        case 4
        then have "rl_acts X c st ev = []"
          by (auto simp: rl_acts_def Let_def MLoop split: rabbit_event.split delivery.split)
        then show ?thesis using quiet loop_arm_no_change [OF arm 4] by blast
      qed
    next
      case (MSending item)
      then have o: "send_arm X item st ev = Some st'" using step True by (simp add: rl_step_def split: if_splits)
      have "rl_acts X c st ev = []" by (simp add: rl_acts_def MSending)
      then show ?thesis using quiet send_arm_no_change [OF o] by blast
    next
      case MDraining
      have ev: "ev = RDrain" and turn': "drain_turn X st = Some st'"
        using step True MDraining by (auto simp: rl_step_def split: if_splits rabbit_event.splits)
      have a: "rl_acts X c st ev = (if drain_goes_on X st then next_outcome_acts (y_rb ?y) else [])"
        by (simp add: rl_acts_def MDraining ev)
      show ?thesis
      proof (cases "drain_goes_on X st")
        case False
        then have "rl_sys st' = ?y"
          using turn' by (auto simp: drain_turn_def drain_goes_on_def Let_def leave_loop_def split: option.splits if_splits)
        then show ?thesis by (simp add: a False)
      next
        case True
        then obtain d where d: "rb_in_flight (y_rb ?y) \<noteq> []" "rl_deadline st = Some d" "\<not> d \<le> now_ns X (world (y_proc ?y))"
          by (auto simp: drain_goes_on_def split: option.splits)
        obtain t ch where recv: "chan_recv (result_ch (y_proc ?y)) = (t, ch)" by fastforce
        show ?thesis
        proof (cases t)
          case (Item o')
          then have "rl_sys st' = ?y\<lparr>y_rb := drain_outcome o' (with_result_ch ch (y_rb ?y)), y_left := y_left ?y @ left_by o' (y_rb ?y)\<rparr>"
            using turn' d recv by (auto simp: drain_turn_def Let_def)
          then show ?thesis unfolding a using recv Item True
            by (simp add: outcome_event_acts [OF ok] drain_outcome_effect track)
        next
          case Empty
          then show ?thesis using turn' d recv by (simp add: drain_turn_def Let_def)
        next
          case Closed
          then have "ch_buf (result_ch (y_proc ?y)) = []" using recv by (auto simp: chan_recv_def split: list.splits if_splits)
          then have "rl_acts X c st ev = []" by (simp add: a next_outcome_acts_def outcomes_def)
          moreover have "rl_sys st' = ?y" using turn' d recv Closed by (auto simp: drain_turn_def Let_def leave_loop_def)
          ultimately show ?thesis by simp
        qed
      qed
    next
      case MClosed
      then show ?thesis using ok by (simp add: rl_ok_def)
    qed
  qed
qed

interpretation rabbit: observed_consumer "rl_step X w c r" "rl_ok X w" "rl_acts X c"
    "\<lambda>st. sys_abs (rl_sys st)" "\<lambda>st. rb_said (rl_sys st)" call_act
  for X :: "('w, 'e) ext" and w :: worker_ctx and c :: config and r :: usize
  by unfold_locales (use rl_ok_step rl_event_acts in blast)+

section \<open>The final settlement\<close>

lemma k_settle_or_leave:
  "distinct ts \<Longrightarrow> set ts \<subseteq> k_pending k \<Longrightarrow>
     \<exists>k'. k_run k (map (\<lambda>t. if t \<in> A then Settle v t else Leave t) ts) = Some k' \<and> k_pending k' = k_pending k - set ts"
proof (induction ts arbitrary: k)
  case (Cons t ts)
  obtain k1 where k1: "k_do k (if t \<in> A then Settle v t else Leave t) = Some k1" "k_pending k1 = k_pending k - {t}"
    using Cons.prems(2) by (cases "t \<in> A") auto
  moreover have "set ts \<subseteq> k_pending k1" using Cons.prems k1(2) by auto
  ultimately show ?case using Cons.IH [of k1] Cons.prems(1) by auto
qed simp

lemma closing_run:
  assumes "ledger tags left rb"
  shows "\<exists>k. k_run (rb_abs left rb) (closing_acts s rb) = Some k \<and> k_pending k = {}"
    "fold call_act (closing_acts s rb) (ids, rb_calls rb) = (ids, rb_calls (settle_remaining (rb\<lparr>rb_proc := s\<rparr>)))"
proof -
  let ?ts = "map fst (filter (\<lambda>(_, f). \<not> if_rejected f) (rb_in_flight rb))"
  have keys: "distinct (map fst (rb_in_flight rb))" using assms by (simp add: ledger_def keys_ok_def)
  then have d: "distinct ?ts" by (simp add: distinct_map_filter)
  have ts: "set ?ts = {t. tracked rb t = Some False}"
    using keys by (auto simp: tracked_def image_iff)
  show "\<exists>k. k_run (rb_abs left rb) (closing_acts s rb) = Some k \<and> k_pending k = {}"
    using k_settle_or_leave [OF d, of "rb_abs left rb" "started s" Refused] ts by (simp add: closing_acts_def rb_abs_def)
  have "settlements (map (\<lambda>t. if t \<in> A then Settle v t else Leave t) ts) = map (Pair v) (filter (\<lambda>t. t \<in> A) ts) \<and>
      arrivals (map (\<lambda>t. if t \<in> A then Settle v t else Leave t) ts) = []" for A v ts
    by (induction ts) auto
  then have "settlements (closing_acts s rb) = map (Pair Refused) (filter (\<lambda>t. t \<in> started s) ?ts)" "arrivals (closing_acts s rb) = []"
    unfolding closing_acts_def by blast+
  moreover have "filter (\<lambda>t. t \<in> A) (map fst (filter (\<lambda>(_, f). \<not> if_rejected f) m)) =
      map fst (filter (\<lambda>(t, f). \<not> if_rejected f \<and> t \<in> A) m)" for A and m :: "(u64 \<times> load_in_flight) list"
    by (induction m) auto
  moreover have "rb_calls (settle_remaining (rb\<lparr>rb_proc := s\<rparr>)) = rb_calls rb @
      map (BasicReject \<circ> fst) (filter (\<lambda>(t, f). \<not> if_rejected f \<and> t \<in> started s) (rb_in_flight rb))"
    using fold_settle_one [of "started s" "rb_in_flight rb" "rb\<lparr>rb_proc := s, rb_in_flight := []\<rparr>"]
    by (simp add: settle_remaining_def)
  ultimately show "fold call_act (closing_acts s rb) (ids, rb_calls rb) = (ids, rb_calls (settle_remaining (rb\<lparr>rb_proc := s\<rparr>)))"
    by (simp add: fold_call_act comp_def)
qed

section \<open>Property\<close>

lemma rl_ok_start: "rl_ok X w (rabbit_start X c r s)"
  unfolding rl_ok_def rabbit_start_def Let_def by (simp add: sys_inv_init) (simp add: sys_init_def)

lemma rl_start_abs:
  "sys_abs (rl_sys (rabbit_start X c r s)) = k_init" "rb_said (rl_sys (rabbit_start X c r s)) = ([], [])"
  by (simp_all add: rabbit_start_def Let_def sys_init_def rabbit_new_def sys_abs_def rb_abs_def rb_said_def k_init_def
      settled_def tracked_def)

lemma rl_run_run_of: "rl_run X w c r st es = run_of (rl_step X w c r) st es"
  by (induction es arbitrary: st) (auto split: option.split)

text \<open>C8: the whole RabbitMQ loop with its final settlement is the abstract consumer carrying out, event by
  event, the actions the events stand for, whatever the schedule: every action is allowed when it happens;
  when the loop is left the pending messages are those tracked and not rejected, and after the final
  settlement there are none; the arrivals are the deliveries of the broker in their order, and the calls of
  \<open>basic_ack\<close> and \<open>basic_reject\<close> in their order are what the settlements say, acknowledging what was
  accepted and rejecting what was refused.\<close>

theorem rabbit_refines_contract:
  assumes "rabbit_loop_run X w c events s = Some st"
  shows "let y = rl_sys st; loop = rabbit_trace X w c events s; acts = loop @ closing_acts s' (y_rb y)
    in (\<exists>k. k_run k_init loop = Some k \<and> k_pending k = {t. tracked (y_rb y) t = Some False}) \<and>
      (\<exists>k. k_run k_init acts = Some k \<and> k_pending k = {}) \<and>
      arrivals acts = map fst (y_delivered y) \<and>
      rb_calls (settle_remaining ((y_rb y)\<lparr>rb_proc := s'\<rparr>)) = concat (map settle_call (settlements acts))"
proof -
  obtain r where r: "redo_pref_workers c = Some r" "run_of (rl_step X w c r) (rabbit_start X c r s) events = Some st"
    using assms by (auto simp: rabbit_loop_run_def rl_run_run_of split: option.splits if_splits)
  let ?y = "rl_sys st" and ?loop = "rabbit_trace X w c events s" and ?close = "closing_acts s' (y_rb (rl_sys st))"
  have loop: "k_run k_init ?loop = Some (sys_abs ?y)"
    using rabbit.refines [OF r(2) rl_ok_start] by (simp add: rabbit_trace_def r(1) rl_start_abs)
  have said: "rb_said ?y = fold call_act ?loop ([], [])"
    using rabbit.observation [OF r(2) rl_ok_start] by (simp add: rabbit_trace_def r(1) rl_start_abs)
  have l: "ledger (map fst (y_delivered ?y)) (y_left ?y) (y_rb ?y)"
    using rabbit.inv_run [OF r(2) rl_ok_start] sys_invD(1) by (auto simp: rl_ok_def)
  from closing_run(1) [OF this] obtain k where "k_run (sys_abs ?y) ?close = Some k" "k_pending k = {}"
    unfolding sys_abs_def by blast
  then have "k_run k_init (?loop @ ?close) = Some k" using k_run_append [OF loop] by simp
  moreover have "k_pending (sys_abs ?y) = {t. tracked (y_rb ?y) t = Some False}" by (simp add: sys_abs_def rb_abs_def)
  moreover have "fold call_act (?loop @ ?close) ([], []) =
      (map fst (y_delivered ?y), rb_calls (settle_remaining ((y_rb ?y)\<lparr>rb_proc := s'\<rparr>)))"
    using closing_run(2) [OF l, of s' "map fst (y_delivered ?y)"] by (simp add: said [symmetric]) (simp add: rb_said_def)
  then have "arrivals (?loop @ ?close) = map fst (y_delivered ?y)"
    "rb_calls (settle_remaining ((y_rb ?y)\<lparr>rb_proc := s'\<rparr>)) = concat (map settle_call (settlements (?loop @ ?close)))"
    unfolding fold_call_act by simp_all
  ultimately show ?thesis using loop \<open>k_pending k = {}\<close> unfolding Let_def by blast
qed

text \<open>From any reachable state on, a delivery only moves forward.\<close>

lemma rabbit_never_goes_back:
  assumes "rl_run X w c r (rabbit_start X c r s) es = Some st" "rl_run X w c r st es' = Some st'"
  shows "standing_of (sys_abs (rl_sys st)) t \<le> standing_of (sys_abs (rl_sys st')) t"
  using rabbit.never_goes_back [OF assms(2) [unfolded rl_run_run_of]
      rabbit.inv_run [OF assms(1) [unfolded rl_run_run_of] rl_ok_start]] .

section \<open>The clock of the long-record monitor\<close>

text \<open>The monitor measures from the arrival of a delivery, not from the moment a worker took it. A delivery
  that waits behind slow records for twice the threshold is dead-lettered although no worker has started it
  and the engine has not seen it, and its item stays queued to be loaded later.\<close>

lemma queued_delivery_is_dead_lettered:
  "\<exists>st. rb_reach demo_ext demo_ctx 1 1 demo_sys st \<and> rb_calls (y_rb st) = [BasicReject 1] \<and>
     work_items (y_rb st) = [demo_item] \<and> y_busy st = [] \<and> started (y_proc st) = {} \<and> y_accepted st = []"
proof -
  let ?f = "\<lparr>if_info = info demo_item, if_started = 0, if_rejected = False\<rparr>"
  define rb1 where "rb1 = (y_rb demo_sys)\<lparr>rb_in_flight := [(1, ?f)]\<rparr>"
  define s1 where "s1 = demo_sys\<lparr>y_rb := rb1, y_phase := MSending demo_item, y_delivered := [(1, ''r1'')]\<rparr>"
  have "on_delivery (json_parse demo_ext) 0 (Delivery 1 ''r1'') (y_rb demo_sys) = (rb1, Some demo_item)"
    by (simp add: on_delivery_def parse_record_def demo_ext_def demo_json_def get_field_def rb1_def demo_sys_def
        sys_init_def rabbit_new_def hm_insert_def hm_remove_def demo_item_def)
  from rb_step.deliver_good [OF _ _ _ this] have 1: "rb_step demo_ext demo_ctx 1 1 demo_sys s1"
    by (simp add: s1_def demo_sys_def sys_init_def)
  define s2 where "s2 = with_proc ((y_proc s1)\<lparr>work_ch := (work_ch (y_proc s1))\<lparr>ch_buf := [demo_item]\<rparr>\<rparr>) (s1\<lparr>y_phase := MLoop\<rparr>)"
  have "y_phase s1 = MSending demo_item"
    "chan_send (work_ch (y_proc s1)) demo_item = (Sent, (work_ch (y_proc s1))\<lparr>ch_buf := [demo_item]\<rparr>)"
    by (simp_all add: s1_def rb1_def demo_sys_def sys_init_def rabbit_new_def chan_send_def chan_new_def)
  from rb_step.send [OF this] have 2: "rb_step demo_ext demo_ctx 1 1 s1 s2" by (simp add: s2_def)
  define s3 where "s3 = s2\<lparr>y_rb := monitor_long_records 3 1 1 (y_rb s2)\<rparr>"
  have 3: "rb_step demo_ext demo_ctx 1 1 s2 s3"
    unfolding s3_def by (rule rb_step.monitor) (simp add: s2_def with_proc_def)
  have "rb_reach demo_ext demo_ctx 1 1 demo_sys s3"
    by (intro rb_reach.step [OF _ 3] rb_reach.step [OF _ 2] rb_reach.step [OF _ 1] rb_reach.start)
  moreover have "rb_in_flight (y_rb s2) = [(1, ?f)]" "rb_calls (y_rb s2) = []" "work_items (y_rb s2) = [demo_item]"
    "started (y_proc s2) = {}" "y_busy s2 = []" "y_accepted s2 = []"
    by (simp_all add: s2_def with_proc_def s1_def rb1_def demo_sys_def sys_init_def rabbit_new_def work_items_def)
  then have "rb_calls (y_rb s3) = [BasicReject 1]" "work_items (y_rb s3) = [demo_item]" "started (y_proc s3) = {}"
    "y_busy s3 = []" "y_accepted s3 = []"
    by (simp_all add: s3_def monitor_long_records_def Let_def reject_long_def call_rb_def print_rb_def set_rejected_def work_items_def)
  ultimately show ?thesis by blast
qed

end
