(* ===== verification/Sz_Programs.thy ===== *)
theory Sz_Programs
  imports Sz_Runtime Sz_Sqs_Quiet Sz_Rabbit_Contract
begin

text \<open>
  What the programs promise from end to end, from their arguments to the exit code and the last lines they
  print: the account a RabbitMQ run gives of every delivery, what exit code 0 of the two queue programs
  means, and how far the resume offset of a file load can be trusted.
\<close>

section \<open>RabbitMQ\<close>

lemma final_summary_fields:
  "rb_calls (final_summary rb) = rb_calls rb" "started (rb_proc (final_summary rb)) = started (rb_proc rb)"
  "acks (final_summary rb) = acks rb"
  "last (out (rb_proc (final_summary rb))) =
     ProcessedTotal (rb_processed rb) (REDOS_PROCESSED (glob (rb_proc rb))) (REDOS_DROPPED (glob (rb_proc rb)))
       (ERRORS (glob (rb_proc rb)))"
  by (simp_all add: final_summary_def print_rb_def acks_def Let_def)

lemma rabbit_finishE:
  assumes "rabbit_finish X os c st = Some (oc, rb)"
  obtains s' where "rb = final_summary (settle_remaining ((y_rb (rl_sys st))\<lparr>rb_proc := s'\<rparr>))"
    "fatal oc = rb_fatal (y_rb (rl_sys st))" "started (rb_proc rb) = started s'"
proof -
  obtain b s' where r: "rb = final_summary (settle_remaining ((y_rb (rl_sys st))\<lparr>rb_proc := s'\<rparr>))"
    "oc = \<lparr>all_workers_joined = b, fatal = rb_fatal (y_rb (rl_sys st))\<rparr>"
    using assms by (auto simp: rabbit_finish_def Let_def split: option.splits)
  have "rb_proc (settle_remaining ((y_rb (rl_sys st))\<lparr>rb_proc := s'\<rparr>)) = s'"
    using fold_settle_one [of "started s'" "rb_in_flight (y_rb (rl_sys st))"
        "(y_rb (rl_sys st))\<lparr>rb_proc := s', rb_in_flight := []\<rparr>"]
    by (simp add: settle_remaining_def)
  with r that show ?thesis by (simp add: final_summary_fields)
qed

text \<open>The account of a run, with the loop and its end as they are composed by \<open>run_rabbit_os\<close>.\<close>

lemma rabbit_account:
  assumes loop: "rabbit_loop_run X w c events s = Some st" and fin: "rabbit_finish X os c st = Some (oc, rb)"
  shows "distinct (map call_tag (rb_calls rb))"
    "set (map call_tag (rb_calls rb)) \<subseteq> fst ` set (y_delivered (rl_sys st))"
    "BasicAck t \<in> set (rb_calls rb) \<Longrightarrow>
       \<exists>data ri v v' resp. (t, data) \<in> set (y_delivered (rl_sys st)) \<and> parse_record (json_parse X) data = Ok ri \<and>
         add_record X (data_source ri) (record_id ri) data (add_flags w) v = (Ok resp, v')"
    "fatal oc = None \<Longrightarrow> t \<in> fst ` set (y_delivered (rl_sys st)) \<Longrightarrow>
       t \<in> call_tag ` set (rb_calls rb) \<or> t \<notin> started (rb_proc rb)"
    "\<exists>p redos dropped errors. last (out (rb_proc rb)) = ProcessedTotal (of_nat p) redos dropped errors \<and>
       acks rb \<le> p \<and> p \<le> length (rb_calls rb)"
proof -
  obtain s' where r: "rb = final_summary (settle_remaining ((y_rb (rl_sys st))\<lparr>rb_proc := s'\<rparr>))"
    "fatal oc = rb_fatal (y_rb (rl_sys st))" "started (rb_proc rb) = started s'"
    using rabbit_finishE [OF fin] .
  note a = settled_after_loop [OF loop, where s' = s']
  show "distinct (map call_tag (rb_calls rb))"
    "set (map call_tag (rb_calls rb)) \<subseteq> fst ` set (y_delivered (rl_sys st))"
    using a(1,2) by (simp_all add: r(1) final_summary_fields)
  show "\<exists>data ri v v' resp. (t, data) \<in> set (y_delivered (rl_sys st)) \<and> parse_record (json_parse X) data = Ok ri \<and>
      add_record X (data_source ri) (record_id ri) data (add_flags w) v = (Ok resp, v')"
    if "BasicAck t \<in> set (rb_calls rb)"
    using a(3) that by (simp add: r(1) final_summary_fields)
  show "t \<in> call_tag ` set (rb_calls rb) \<or> t \<notin> started (rb_proc rb)"
    if "fatal oc = None" "t \<in> fst ` set (y_delivered (rl_sys st))"
    using a(4) that by (simp add: r(2,3)) (simp add: r(1) final_summary_fields)
  show "\<exists>p redos dropped errors. last (out (rb_proc rb)) = ProcessedTotal (of_nat p) redos dropped errors \<and>
      acks rb \<le> p \<and> p \<le> length (rb_calls rb)"
    using a(5) by (auto simp: r(1) final_summary_fields)
qed

text \<open>C1: a RabbitMQ run gives a full account of its deliveries, whatever the schedule of its task and
  threads, the answers of the engine and the broker, and the moment of the shutdown: the calls on the channel
  settle each tag at most once and only delivered ones; an acknowledged delivery was taken by the engine with
  exactly its body; and the number of adds in the last line printed lies between the number of
  acknowledgements and the number of deliveries settled.\<close>

theorem rabbit_run_accounts_for_every_delivery:
  assumes "rabbit_loop_run X w c events s = Some st" "rabbit_finish X os c st = Some (oc, rb)"
  shows "distinct (map call_tag (rb_calls rb)) \<and>
    set (map call_tag (rb_calls rb)) \<subseteq> fst ` set (y_delivered (rl_sys st)) \<and>
    (\<forall>t. BasicAck t \<in> set (rb_calls rb) \<longrightarrow>
       (\<exists>data ri v v' resp. (t, data) \<in> set (y_delivered (rl_sys st)) \<and> parse_record (json_parse X) data = Ok ri \<and>
          add_record X (data_source ri) (record_id ri) data (add_flags w) v = (Ok resp, v'))) \<and>
    (\<exists>p redos dropped errors. last (out (rb_proc rb)) = ProcessedTotal (of_nat p) redos dropped errors \<and>
       acks rb \<le> p \<and> p \<le> length (rb_calls rb))"
  using rabbit_account(1-3,5) [OF assms] by blast

lemma call_of_tag: "call_tag k = tag \<Longrightarrow> k = BasicAck tag \<or> k = BasicReject tag"
  by (cases k) auto

lemma run_combined_cases:
  assumes "rabbit_main X os h a gi co s = Some (e, t)" "resolve (json_parse X) h a = Ok c" "run_mode_of c = QueueMode"
    "exit_code e = 0"
  obtains w st oc rb where "pool_ctx X (poll_interval h) c = Some w"
    "rabbit_loop_run X w c (co_rabbit co) (seed_config X s) = Some st" "rabbit_finish X os c st = Some (oc, rb)"
    "fatal oc = None" "t = rb_proc rb"
proof -
  have i: "init_environment gi INSTANCE_NAME c = Ok ()"
    using assms by (cases "init_environment gi INSTANCE_NAME c")
      (auto simp: rabbit_main_def init_environment_def split: option.splits)
  have "run_combined X os (poll_interval h) co c s = Some (e, t)"
    using assms(1-3) i by (simp add: rabbit_main_def)
  then obtain oc rb where r: "run_rabbit_os X os (poll_interval h) (co_rabbit co) c (seed_config X s) = Some (oc, rb)"
    "t = rb_proc rb" "e = finish_ingest (Inr oc :: setup_error + run_outcome)"
    using assms(4) by (auto simp: run_combined_def finish_ingest_def Let_def split: if_splits option.splits)
  have "fatal oc = None" using assms(4) by (simp add: r(3) finish_ingest_ends(2) split: if_splits)
  with r that show ?thesis by (auto simp: run_rabbit_os_def split: option.splits)
qed

text \<open>C2: exit code 0 of the RabbitMQ program in a queue run: every delivery has been acknowledged or
  rejected, or no worker had it in hand when the run settled what was left (so the broker delivers it again).\<close>

theorem rabbit_exit_zero_leaves_nothing_in_hand:
  assumes "rabbit_main X os h a gi co s = Some (e, t)" "resolve (json_parse X) h a = Ok c" "run_mode_of c = QueueMode"
    "exit_code e = 0"
  shows "\<exists>w st oc rb. pool_ctx X (poll_interval h) c = Some w \<and>
    rabbit_loop_run X w c (co_rabbit co) (seed_config X s) = Some st \<and>
    rabbit_finish X os c st = Some (oc, rb) \<and> t = rb_proc rb \<and>
    (\<forall>(tag, data) \<in> set (y_delivered (rl_sys st)).
       BasicAck tag \<in> set (rb_calls rb) \<or> BasicReject tag \<in> set (rb_calls rb) \<or> tag \<notin> started t)"
proof -
  obtain w st oc rb where r: "pool_ctx X (poll_interval h) c = Some w"
    "rabbit_loop_run X w c (co_rabbit co) (seed_config X s) = Some st" "rabbit_finish X os c st = Some (oc, rb)"
    "fatal oc = None" "t = rb_proc rb"
    using run_combined_cases [OF assms] .
  have "BasicAck tag \<in> set (rb_calls rb) \<or> BasicReject tag \<in> set (rb_calls rb) \<or> tag \<notin> started t"
    if "(tag, data) \<in> set (y_delivered (rl_sys st))" for tag data
  proof -
    have "tag \<in> fst ` set (y_delivered (rl_sys st))" using that by force
    from rabbit_account(4) [OF r(2,3,4) this] consider k where "k \<in> set (rb_calls rb)" "call_tag k = tag"
      | "tag \<notin> started t" using r(5) by auto
    then show ?thesis
    proof cases
      case (1 k)
      have "k = BasicAck tag \<or> k = BasicReject tag" using call_of_tag [OF 1(2)] .
      with 1(1) show ?thesis by (elim disjE) simp_all
    next
      case 2
      then show ?thesis by simp
    qed
  qed
  with r show ?thesis by blast
qed

section \<open>SQS\<close>

lemma run_sqs_cases:
  assumes "sqs_main_exit X os h a gi co s = Some (e, t)" "build_config (json_parse X) h a = Ok c"
    "run_mode_of c = QueueMode" "exit_code e = 0"
  obtains p q w st oc st' where "sqs_params_of a = Ok (p, q)" "pool_ctx X (poll_interval h) c = Some w"
    "sq_run X w (c_threads c) (unat (p_max_messages p))
       (sqs_init s (unat (c_threads c)) (c_redo_percent c > 0)) (co_sqs co) = Some st"
    "sq_main st = QJoining" "sqs_finish X os c st = Some (oc, st')" "sq_fatal st = None" "t = sq_proc st'"
proof -
  have i: "init_environment gi SQS_INSTANCE_NAME c = Ok ()"
    using assms by (cases "init_environment gi SQS_INSTANCE_NAME c")
      (auto simp: sqs_main_exit_def init_environment_def split: option.splits)
  obtain p q oc st' where r: "run_sqs_os X os (poll_interval h) (co_sqs co) c p s = Some (oc, st')"
    "t = sq_proc st'" "e = finish_ingest (Inr oc :: setup_error + run_outcome)" "sqs_params_of a = Ok (p, q)"
    using assms i by (auto simp: sqs_main_exit_def run_sqs_def finish_ingest_def split: if_splits option.splits sum.splits)
  have f: "fatal oc = None" using assms(4) by (simp add: r(3) finish_ingest_ends(2) split: if_splits)
  obtain w st where st: "pool_ctx X (poll_interval h) c = Some w"
    "sq_run X w (c_threads c) (unat (p_max_messages p))
       (sqs_init s (unat (c_threads c)) (c_redo_percent c > 0)) (co_sqs co) = Some st"
    "sq_main st = QJoining" "sqs_finish X os c st = Some (oc, st')"
    using r(1) by (auto simp: run_sqs_os_def split: option.splits if_splits)
  have "sq_fatal st = None" using st(4) f by (auto simp: sqs_finish_def Let_def split: option.splits)
  from that [OF r(4) st this r(2)] show ?thesis .
qed

text \<open>C4: exit code 0 of the SQS program in a queue run: every message it received has been deleted, each
  exactly once and for a reason, and none is left in its books.\<close>

theorem sqs_exit_zero_means_all_deleted:
  assumes "sqs_main_exit X os h a gi co s = Some (e, t)" "build_config (json_parse X) h a = Ok c"
    "run_mode_of c = QueueMode" "exit_code e = 0" "0 < c_threads c"
  shows "\<exists>p q w st. sqs_params_of a = Ok (p, q) \<and> pool_ctx X (poll_interval h) c = Some w \<and>
    sq_run X w (c_threads c) (unat (p_max_messages p))
      (sqs_init s (unat (c_threads c)) (c_redo_percent c > 0)) (co_sqs co) = Some st \<and>
    sq_deletes st = map (handle_of (q_received st)) (q_gone st) \<and>
    mset (q_gone st) = mset (map fst (q_received st)) \<and> distinct (q_gone st) \<and> sq_in_flight st = [] \<and>
    list_all (q_reason X w st) (q_gone st)"
proof -
  obtain p q w st oc st' where ps: "sqs_params_of a = Ok (p, q)" and r: "pool_ctx X (poll_interval h) c = Some w"
    "sq_run X w (c_threads c) (unat (p_max_messages p))
       (sqs_init s (unat (c_threads c)) (c_redo_percent c > 0)) (co_sqs co) = Some st"
    "sq_main st = QJoining" "sq_fatal st = None"
    using run_sqs_cases [OF assms(1-4)] by metis
  have "0 < unat (c_threads c)" using assms(5) by (simp add: unat_gt_0 word_gt_0)
  note q = quiet_run_settles_all [OF r(2) this r(3,4)]
  have g: "store_ok st" "just_ok X w st" using sq_good_run [OF r(2)] by (simp_all add: sq_good_def)
  have "distinct (q_gone st)" using q(1) received_distinct(1) [OF g(1)]
    by (metis mset_eq_imp_distinct_iff received_ids_def)
  moreover have "list_all (q_reason X w st) (q_gone st)" using just_okD(4) [OF g(2)] by (auto simp: list_all_iff)
  moreover have "sq_deletes st = map (handle_of (q_received st)) (q_gone st)" using g(1) by (simp add: store_ok_def)
  ultimately show ?thesis using ps r(1,2) q by blast
qed

section \<open>Files\<close>

lemma fl_open_invs:
  "fl_inv skip (case content of Some ls \<Rightarrow> ls | None \<Rightarrow> []) 0 (fl_open s content skip k True)"
  "reasons_ok X w (case content of Some ls \<Rightarrow> ls | None \<Rightarrow> []) (fl_open s content skip k True)"
  "failures_marked k (length (case content of Some ls \<Rightarrow> ls | None \<Rightarrow> [])) (fl_open s content skip k True)"
proof -
  note d = fl_open_def fl_init_def fl_inv_def reader_at_def readable_def sentinels_ok_def chan_new_def pending_def
    work_tags_def real_tags_def feeding_def lines_from_def reasons_ok_def fl_items_def failures_marked_def Let_def
  show "fl_inv skip (case content of Some ls \<Rightarrow> ls | None \<Rightarrow> []) 0 (fl_open s content skip k True)"
    "reasons_ok X w (case content of Some ls \<Rightarrow> ls | None \<Rightarrow> []) (fl_open s content skip k True)"
    "failures_marked k (length (case content of Some ls \<Rightarrow> ls | None \<Rightarrow> [])) (fl_open s content skip k True)"
    by (simp_all add: d split: option.split)
qed

lemma drop_work_tx_invs:
  "fl_inv skip content n st \<Longrightarrow> fl_inv skip content n (st\<lparr>fl_proc := drop_work_tx (fl_proc st)\<rparr>)"
  "reasons_ok X w content st \<Longrightarrow> reasons_ok X w content (st\<lparr>fl_proc := drop_work_tx (fl_proc st)\<rparr>)"
  "failures_marked k m st \<Longrightarrow> failures_marked k m (st\<lparr>fl_proc := drop_work_tx (fl_proc st)\<rparr>)"
  by (simp_all add: fl_inv_def reasons_ok_def fl_items_def failures_marked_def drop_work_tx_def chan_drop_sender_def
      sentinels_ok_def pending_def work_tags_def real_tags_def)

text \<open>A returned reader stays returned.\<close>

lemma returned_stays:
  "fl_run X w skip st es = Some st' \<Longrightarrow> fl_reader st = RReturned r \<Longrightarrow> fl_reader st' = RReturned r"
proof (induction es arbitrary: st)
  case (Cons e es)
  then obtain st1 where "fl_step X w skip st e = Some st1" "fl_run X w skip st1 es = Some st'"
    by (auto split: option.splits)
  moreover from this(1) Cons.prems(2) have "fl_reader st1 = RReturned r"
    by (cases e) (auto simp: fl_step_def Let_def reader_pass_def split: if_splits prod.splits try_outcome.splits)
  ultimately show ?case using Cons.IH by blast
qed simp

text \<open>The state a file run with all its threads ends in, with the invariants of the load.\<close>

lemma run_file_end:
  assumes run: "run_file_os X os iv co c s = Some ((clean, result), t)"
    and threads: "\<forall>i \<le> unat (c_threads c). os_spawn os i = None"
    and content: "co_file co = Some content" "length content < 2 ^ 64 - 1"
  obtains st n r where "fl_inv (c_skip_lines c) content n st" "reasons_ok X (file_ctx X iv c 0) content st"
    "failures_marked (unat (c_threads c)) (length content) st" "consumer_ended st" "fl_reader st = RReturned r"
    "result = file_result r (glob (fl_proc st))" "t = file_summary (fl_proc st) (fl_tracker st)"
proof -
  let ?k = "unat (c_threads c)" and ?w = "file_ctx X iv c 0" and ?skip = "c_skip_lines c"
  let ?s0 = "fl_open (seed_config X s) (Some content) ?skip ?k True"
  obtain st0 where st0: "fl_run X ?w ?skip ?s0 (co_load co) = Some st0"
    and f: "file_finish X os ?w ?k ?skip (co_rest co) st0 = Some ((clean, result), t)"
    using run threads content(1) by (auto simp: run_file_os_def Let_def list_ex_iff split: option.splits if_splits)
  note i = fl_open_invs [where content = "Some content" and s = "seed_config X s" and skip = ?skip and k = ?k, simplified]
  obtain n0 where n0: "fl_inv ?skip content n0 st0" "reasons_ok X ?w content st0" "failures_marked ?k (length content) st0"
    using fl_run_invs [OF st0 i(1) content(2) i(2,3)] by blast
  from f show ?thesis
  proof (rule file_finishE)
    fix r s' st
    assume r: "fl_reader st0 = RReturned r"
      and st: "fl_run X ?w ?skip (st0\<lparr>fl_proc := drop_work_tx (fl_proc st0)\<rparr>) (co_rest co) = Some st" "fl_proc st = s'"
      and e: "os_spawn os ?k = None \<Longrightarrow> consumer_ended st" "result = file_result r (glob s')" "t = file_summary s' (fl_tracker st)"
    obtain n where "fl_inv ?skip content n st \<and> reasons_ok X ?w content st \<and> failures_marked ?k (length content) st"
      using fl_run_invs [OF st(1) drop_work_tx_invs(1) [OF n0(1)] content(2) drop_work_tx_invs(2) [OF n0(2)]
          drop_work_tx_invs(3) [OF n0(3)]] by blast
    moreover have "fl_reader st = RReturned r" using returned_stays [OF st(1)] r by simp
    moreover have "os_spawn os ?k = None" using threads by simp
    ultimately show ?thesis using that e st(2) by blast
  qed
qed

section \<open>The resume offset\<close>

text \<open>C3: what the resume offset a file load prints can be trusted for, whatever happened in the run: a
  bad line, a fatal engine error, a stop in the middle. Every line after the skipped ones up to the offset is
  blank, or is not a record, or the engine was given exactly that line and took it or refused it. And when the
  process ends with code 0 and was not told to stop, the offset is the last line of the file (or the lines
  skipped, if there are no more).\<close>

theorem file_resume_offset_can_be_trusted:
  assumes "rabbit_main X os h a gi co s = Some (e, t)" "resolve (json_parse X) h a = Ok c" "c_input_file c \<noteq> None"
    and "init_environment gi INSTANCE_NAME c = Ok ()"
    and "\<forall>i \<le> unat (c_threads c). os_spawn os i = None"
    and "co_file co = Some content" "length content < 2 ^ 64 - 1" "c_skip_lines c \<noteq> - 1"
  shows "\<exists>rejected offset. last (out t) = FileLoadSummary rejected offset \<and>
    (\<forall>l. c_skip_lines c < l \<and> l \<le> offset \<longrightarrow> line_reason X (file_ctx X (poll_interval h) c 0) content l) \<and>
    (exit_code e = 0 \<and> RUNNING (glob t) \<longrightarrow> offset = (if of_nat (length content) \<le> c_skip_lines c then c_skip_lines c else of_nat (length content)))"
proof -
  have mode: "run_mode_of c = FileMode" using assms(3) by (simp add: run_mode_of_def)
  obtain clean result where run: "run_file_os X os (poll_interval h) co c s = Some ((clean, result), t)"
    and e: "e = finish_run clean result"
    using assms(1,2,4) mode by (auto simp: rabbit_main_def run_shared_def)
  obtain st n r where i: "fl_inv (c_skip_lines c) content n st" "reasons_ok X (file_ctx X (poll_interval h) c 0) content st"
    "failures_marked (unat (c_threads c)) (length content) st" "consumer_ended st" "fl_reader st = RReturned r"
    and res: "result = file_result r (glob (fl_proc st))" and t: "t = file_summary (fl_proc st) (fl_tracker st)"
    using run_file_end [OF run assms(5-7)] .
  have "offset = (if of_nat (length content) \<le> c_skip_lines c then c_skip_lines c else of_nat (length content))"
    if "exit_code e = 0" "RUNNING (glob t)" "offset = watermark (fl_tracker st)" for offset
  proof -
    have "result = Ok ()" using that(1) by (auto simp: e finish_run_ends(2) is_err_def split: if_splits sum.splits)
    then obtain m where m: "r = Ok m" "\<not> WORKER_FATAL (glob (fl_proc st))"
      using res by (auto simp: file_result_def split: sum.splits if_splits)
    have "0 < unat (c_threads c)"
      using resolve_Ok_cases(4) [OF assms(2,3)] by (simp add: unat_gt_0)
    then have p: "pending st = []" using quiet_end_nothing_pending [OF i(3,4) m(2) _ i(5)] by simp
    have "m = of_nat (length content)" using i(3,5) m(1) that(2) by (auto simp: failures_marked_def t file_summary_def)
    with settled_watermark [OF i(1) assms(7,8) i(5) [unfolded m(1)] p] that(3) show ?thesis by simp
  qed
  moreover have "last (out t) = FileLoadSummary (ADDS_REJECTED (glob (fl_proc st))) (watermark (fl_tracker st))"
    by (simp add: t file_summary_def)
  ultimately show ?thesis using watermark_reasons [OF i(1) assms(7,8) i(2)] by blast
qed

section \<open>The concrete instance\<close>

text \<open>Threads that are finished when they are asked; one worker, no redo.\<close>

definition quick_os :: "demo_world os" where
  "quick_os = demo_os\<lparr>os_threads := \<lparr>is_finished = (\<lambda>_ _. True), panicked = (\<lambda>_. False)\<rparr>, os_others := (\<lambda>_ s. s)\<rparr>"

definition queue_args :: args where
  "queue_args = sample_args\<lparr>a_redo_percent := 0, a_threads_per_process := 1\<rparr>"

definition rabbit_course :: "demo_world course" where
  "rabbit_course = no_course\<lparr>co_rabbit :=
     [RDelivery (Delivery 1 ''r1''), RSendItem, RDelivery (Delivery 2 ''junk''), RPick, RFinish 0 5, ROutcome,
      RMonitorTick, RStatsThread, RStatsAnswer, RSignal, RDrain]\<rparr>"

lemma demo_poll: "poll_interval sample_host = Some 60"
  by (simp add: poll_interval_def sample_host_def)

lemma demo_queue_config:
  obtains c where "resolve (json_parse demo_ext) sample_host queue_args = Ok c" "run_mode_of c = QueueMode"
    "c_threads c = 1" "c_redo_percent c = 0" "c_long_record_secs c = 300" "c_info c = False"
    "c_url c \<noteq> None" "c_queue c \<noteq> None"
  by (simp add: resolve_def validate_topology_def queue_args_def demo_resolve_simps)

text \<open>The run of the RabbitMQ program in the queue run.\<close>

lemmas demo_rabbit_defs = rl_step_def loop_arm_def send_arm_def drain_turn_def other_thread_def end_turn_def leave_loop_def
  loop_tail_def on_delivery_def with_proc_def on_signal_def enter_drain_def rabbit_start_def sys_init_def rabbit_new_def
  redo_side_def chan_new_def chan_send_def chan_recv_def y_idle_def hm_insert_def hm_remove_def
  monitor_long_records_def begin_load_def poll_p_def load_action_def retry_once_def call_def from_utf8_def
  finish_load_def send_outcome_p_def chan_blocking_send_def on_outcome_def handle_outcome_def with_result_ch_def
  left_by_def tracked_def print_rb_def call_rb_def count_rb_def forget_rb_def is_fatal_def Let_def
  parse_record_def get_field_def ok_or_def is_err_def on_stats_def stats_answer_def stats_new_def STATS_INTERVAL_def

text \<open>Two deliveries, the second of them not a record.\<close>

lemma no_redo_workers: "c_redo_percent c = 0 \<Longrightarrow> c_threads c = 1 \<Longrightarrow> redo_pref_workers c = Some 0"
  by (simp add: redo_pref_workers_def redo_preferring_count_def)

lemma demo_rabbit_loop:
  assumes "c_threads c = 1" "c_redo_percent c = 0" "c_long_record_secs c = 300" "c_info c = False"
  shows "\<exists>st. rabbit_loop_run demo_ext (combined_ctx demo_ext (Some 60) c 0 0) c (co_rabbit rabbit_course)
      (seed_config demo_ext demo_proc) = Some st \<and>
    y_delivered (rl_sys st) = [(1, ''r1''), (2, ''junk'')] \<and> rb_calls (y_rb (rl_sys st)) = [BasicReject 2, BasicAck 1] \<and>
    rb_in_flight (y_rb (rl_sys st)) = [] \<and> rb_fatal (y_rb (rl_sys st)) = None"
  using assms
  by (simp add: rabbit_loop_run_def no_redo_workers rabbit_course_def seed_config_def
      log_startup_config_def fetch_default_def demo_rabbit_defs combined_ctx_def poll_def poll_due_def interval_ms_def
      sat_sub_def demo_proc_def demo_defs init_reload_def init_globals_def)

lemma quick_finished [simp]: "all_finished (os_threads quick_os) handles s" "thread_finished quick_os s h"
  by (simp_all add: all_finished_def quick_os_def list_all_iff thread_finished_def)

text \<open>Systems of this kind: other threads leave the state alone while \<open>main\<close> waits.\<close>

definition calm_os :: "demo_world os \<Rightarrow> bool" where
  "calm_os os \<longleftrightarrow> os_passes os = 9 \<and> os_others os = (\<lambda>_ s. s) \<and> os_spawn os = (\<lambda>_. None)"

lemma quick_calm [simp]: "calm_os quick_os"
  by (simp add: calm_os_def quick_os_def demo_os_def)

lemma calm_drive:
  assumes "calm_os os" "pass l s = (None, s)"
  shows "drive (os_passes os) (os_others os) pass l s = Some s"
proof -
  have n: "os_passes os = Suc 8" using assms(1) by (simp add: calm_os_def)
  show ?thesis unfolding n drive.simps using assms by (simp add: calm_os_def)
qed

lemma calm_wait: "calm_os os \<Longrightarrow> all_finished (os_threads os) handles s \<Longrightarrow> wait_for X os deadline handles s = Some (True, s)"
  by (simp add: wait_for_def await_workers_def calm_drive await_pass_def)

lemmas quick_drive = calm_drive [OF quick_calm]
lemmas quick_wait = calm_wait [OF quick_calm quick_finished(1)]

lemma quick_file_wait: "file_wait X quick_os k s = Some (True, drop_work_tx s)"
  by (simp add: file_wait_def quick_wait join_thread_def quick_drive join_pass_def)

lemma calm_rabbit_finish:
  assumes "calm_os os" "\<And>s. all_finished (os_threads os) (awaited_threads c) s" "rb_in_flight (y_rb (rl_sys st)) = []"
  obtains oc rb where "rabbit_finish X os c st = Some (oc, rb)" "rb_calls rb = rb_calls (y_rb (rl_sys st))"
    "fatal oc = rb_fatal (y_rb (rl_sys st))" "all_workers_joined oc"
proof -
  have r: "rabbit_finish X os c st = Some (\<lparr>all_workers_joined = True, fatal = rb_fatal (y_rb (rl_sys st))\<rparr>,
      final_summary (settle_remaining ((y_rb (rl_sys st))\<lparr>rb_proc := y_proc (rl_sys st)\<rparr>)))"
    by (simp add: rabbit_finish_def Let_def calm_wait assms(1,2))
  show ?thesis
    by (rule that [OF r]) (simp_all add: assms(3) settle_remaining_def final_summary_def print_rb_def Let_def)
qed

lemmas quick_rabbit_finish = calm_rabbit_finish [OF quick_calm quick_finished(1)]

lemma calm_rabbit_main:
  assumes os: "calm_os os" "\<And>s. all_finished (os_threads os) [0] s"
  shows "\<exists>t. rabbit_main demo_ext os sample_host queue_args (\<lambda>_ _ _. None) rabbit_course demo_proc = Some (TornDown 0, t)"
proof -
  obtain c where c: "resolve (json_parse demo_ext) sample_host queue_args = Ok c" "run_mode_of c = QueueMode"
    "c_threads c = 1" "c_redo_percent c = 0" "c_long_record_secs c = 300" "c_info c = False" "c_url c \<noteq> None" "c_queue c \<noteq> None"
    using demo_queue_config .
  obtain st where st: "rabbit_loop_run demo_ext (combined_ctx demo_ext (Some 60) c 0 0) c (co_rabbit rabbit_course)
      (seed_config demo_ext demo_proc) = Some st" "rb_in_flight (y_rb (rl_sys st)) = []" "rb_fatal (y_rb (rl_sys st)) = None"
    using demo_rabbit_loop [OF c(3-6)] by blast
  have "awaited_threads c = [0]" by (simp add: awaited_threads_def c(3,4))
  then obtain oc rb where f: "rabbit_finish demo_ext os c st = Some (oc, rb)" "fatal oc = None" "all_workers_joined oc"
    using calm_rabbit_finish [OF os(1) _ st(2)] os(2) st(3) by metis
  have "rabbit_setup os c (co_answers rabbit_course) = None"
    using c(7,8) os(1) by (simp add: rabbit_setup_def spawn_errors_def calm_os_def rabbit_course_def no_course_def c(3,4))
  with c(1,2) st(1) f show ?thesis
    by (simp add: rabbit_main_def run_combined_def demo_poll run_rabbit_os_def pool_ctx_def no_redo_workers c(3,4) Let_def
      rabbit_course_def no_course_def finish_ingest_def)
qed

lemmas demo_rabbit_main = calm_rabbit_main [OF quick_calm quick_finished(1)]

text \<open>The statistics thread is in an engine call, or has a request before it, while the run ends: the environment is
  destroyed all the same, on a clean exit.\<close>

definition stats_busy_os :: "demo_world os" where
  "stats_busy_os = quick_os\<lparr>os_threads := \<lparr>is_finished = (\<lambda>h _. h \<noteq> 2), panicked = (\<lambda>_. False)\<rparr>\<rparr>"

lemma detached_stats_thread_is_not_waited_for:
  "\<exists>c t. resolve (json_parse demo_ext) sample_host queue_args = Ok c \<and>
     rabbit_main demo_ext stats_busy_os sample_host queue_args (\<lambda>_ _ _. None) rabbit_course demo_proc = Some (TornDown 0, t) \<and>
     stats_thread c \<in> set (rabbit_engine_threads_of stats_busy_os c) \<and> \<not> thread_finished stats_busy_os t (stats_thread c)"
proof -
  obtain c where c: "resolve (json_parse demo_ext) sample_host queue_args = Ok c" "run_mode_of c = QueueMode" "c_threads c = 1"
    using demo_queue_config by metis
  have calm: "calm_os stats_busy_os" by (simp add: calm_os_def stats_busy_os_def quick_os_def demo_os_def)
  have "all_finished (os_threads stats_busy_os) [0] s" for s by (simp add: all_finished_def stats_busy_os_def)
  from calm_rabbit_main [OF calm this] c show ?thesis
    by (auto simp: rabbit_engine_threads_of_def stats_thread_def thread_finished_def stats_busy_os_def)
qed

text \<open>A file of one record.\<close>

definition file_args :: args where
  "file_args = sample_args\<lparr>a_input_file := Some ''records.jsonl'', a_threads_per_process := 1\<rparr>"

definition file_course :: "demo_world course" where
  "file_course = no_course\<lparr>co_file := Some [RawLine ''r1''], co_load := demo_whole_run\<rparr>"

lemma demo_file_config:
  obtains c where "resolve (json_parse demo_ext) sample_host file_args = Ok c" "c_input_file c \<noteq> None"
    "c_threads c = 1" "c_skip_lines c = 0" "c_info c = False"
  by (simp add: resolve_def file_args_def demo_resolve_simps)

lemma demo_file_load:
  assumes "c_threads c = 1" "c_skip_lines c = 0" "c_info c = False"
  shows "\<exists>st. fl_run demo_ext (file_ctx demo_ext (Some 60) c 0) 0 (fl_open (seed_config demo_ext demo_proc) (Some [RawLine ''r1'']) 0 1 True) demo_whole_run = Some st \<and>
     fl_reader st = RReturned (Ok 1) \<and> consumer_ended (st\<lparr>fl_proc := drop_work_tx (fl_proc st)\<rparr>) \<and>
    \<not> WORKER_FATAL (glob (fl_proc st)) \<and> RUNNING (glob (fl_proc st))"
  using assms
  by (simp add: demo_whole_run_def demo_file_defs consumer_ended_def fl_open_def seed_config_def
      log_startup_config_def fetch_default_def file_ctx_def drop_work_tx_def chan_drop_sender_def poll_def poll_due_def interval_ms_def
      sat_sub_def demo_proc_def demo_defs init_reload_def init_globals_def)

lemma demo_file_main:
  "\<exists>t. rabbit_main demo_ext quick_os sample_host file_args (\<lambda>_ _ _. None) file_course demo_proc = Some (TornDown 0, t) \<and> RUNNING (glob t)"
proof -
  obtain c where c: "resolve (json_parse demo_ext) sample_host file_args = Ok c" "c_input_file c \<noteq> None"
    "c_threads c = 1" "c_skip_lines c = 0" "c_info c = False"
    using demo_file_config .
  have os: "os_spawn quick_os i = None" for i by (simp add: quick_os_def demo_os_def)
  obtain st where st: "fl_run demo_ext (file_ctx demo_ext (Some 60) c 0) 0 (fl_open (seed_config demo_ext demo_proc) (Some [RawLine ''r1'']) 0 1 True) demo_whole_run = Some st"
     "fl_reader st = RReturned (Ok 1)" "consumer_ended (st\<lparr>fl_proc := drop_work_tx (fl_proc st)\<rparr>)"
    "\<not> WORKER_FATAL (glob (fl_proc st))" "RUNNING (glob (fl_proc st))"
    using demo_file_load [OF c(3-5)] by blast
  have "run_mode_of c = FileMode" using c(2) by (simp add: run_mode_of_def)
  moreover have "glob (drop_work_tx s) = glob s" for s :: "demo_world proc" by (simp add: drop_work_tx_def)
  ultimately show ?thesis using c(1) st
    by (simp add: rabbit_main_def run_shared_def run_file_os_def Let_def os file_course_def no_course_def c(3,4) demo_poll
      file_finish_def quick_file_wait file_result_def finish_run_def file_summary_def)
qed

text \<open>Two messages, the second of them not a record.\<close>

definition sqs_queue_args :: sqs_args where
  "sqs_queue_args = sample_sqs_args\<lparr>q_queue_url := Some ''u'', q_redo_percent := 0, q_input_file := None\<rparr>"

definition sqs_course :: "demo_world course" where
  "sqs_course = no_course\<lparr>co_sqs :=
     [EPollHead, EResponse (Ok [demo_msg ''r1'' ''h1'', demo_msg ''junk'' ''h2'']), EMessage, ESend, EMessage, EMessage, EPick, EFinish 0 5, EOutcome,
      ESignal, EPollHead, EWorkerEnds, EResultsClosed, EPollerJoined]\<rparr>"

lemma demo_sqs_config:
  obtains c where "build_config (json_parse demo_ext) sample_host sqs_queue_args = Ok c" "run_mode_of c = QueueMode"
    "c_threads c = 1" "c_redo_percent c = 0" "c_info c = False"
  by (simp add: build_config_def sqs_queue_args_def demo_resolve_simps)

lemma demo_sqs_params:
  obtains p where "sqs_params_of sqs_queue_args = Ok (p, False)" "unat (p_max_messages p) = 10"
  by (simp add: sqs_params_of_def sqs_queue_args_def sample_sqs_args_def non_empty_def ok_or_def)

lemma demo_sqs_loop:
  assumes "c_threads c = 1" "c_info c = False" "c_redo_percent c = 0"
  shows "\<exists>st. sq_run demo_ext (combined_ctx demo_ext (Some 60) c 0 0) 1 10 (sqs_init demo_proc 1 False) (co_sqs sqs_course) = Some st \<and>
     sq_main st = QJoining \<and> sq_fatal st = None \<and> sq_deletes st = [''h2'', ''h1''] \<and> q_gone st = [2, 1]"
  using assms
  by (simp add: sqs_course_def demo_sqs_defs combined_ctx_def begin_load_def poll_p_def load_action_def retry_once_def call_def
     poll_def poll_due_def interval_ms_def from_utf8_def result_room_def idle_worker_def finish_load_def send_outcome_p_def chan_blocking_send_def
     Let_def ok_or_def is_fatal_def sqs_on_outcome_def sqs_handle_outcome_def delete_message_def deleted_by_def given_up_by_def
      sat_sub_def demo_defs init_reload_def sqs_shut_down_def poller_returns_def drop_result_tx_def)

lemma demo_sqs_main:
  "\<exists>t. sqs_main_exit demo_ext quick_os sample_host sqs_queue_args (\<lambda>_ _ _. None) sqs_course demo_proc = Some (TornDown 0, t)"
proof -
  obtain c where c: "build_config (json_parse demo_ext) sample_host sqs_queue_args = Ok c" "run_mode_of c = QueueMode"
    "c_threads c = 1" "c_redo_percent c = 0" "c_info c = False"
    using demo_sqs_config .
  obtain p where p: "sqs_params_of sqs_queue_args = Ok (p, False)" "unat (p_max_messages p) = 10" using demo_sqs_params .
  obtain st where st: "sq_run demo_ext (combined_ctx demo_ext (Some 60) c 0 0) 1 10 (sqs_init demo_proc 1 False) (co_sqs sqs_course) = Some st"
    "sq_main st = QJoining" "sq_fatal st = None"
    using demo_sqs_loop [OF c(3,5,4)] by blast
  let ?r = "\<lparr>all_workers_joined = True, fatal = None\<rparr>"
  have "run_sqs_os demo_ext quick_os (Some 60) (co_sqs sqs_course) c p demo_proc = Some (?r, sqs_summary (st\<lparr>sq_proc := sq_proc st\<rparr>))"
    by (simp add: run_sqs_os_def pool_ctx_def no_redo_workers c(3,4) p(2) st(1) [unfolded One_nat_def] st(2,3) sqs_finish_def
      quick_wait Let_def)
  moreover have "sqs_setup quick_os c (co_answers sqs_course) = None" "co_tokio sqs_course"
    by (simp_all add: sqs_setup_def spawn_errors_def quick_os_def demo_os_def sqs_course_def no_course_def c(3,4))
  ultimately show ?thesis using c(1,2) p(1)
    by (simp add: sqs_main_exit_def run_sqs_def demo_poll finish_ingest_def Let_def)
qed

section \<open>Witnesses\<close>

theorem rabbit_run_accounts_for_every_delivery_witness:
  "\<exists>c st oc rb. rabbit_loop_run demo_ext (combined_ctx demo_ext (Some 60) c 0 0) c (co_rabbit rabbit_course)
      (seed_config demo_ext demo_proc) = Some st \<and> rabbit_finish demo_ext quick_os c st = Some (oc, rb) \<and>
     rb_calls rb = [BasicReject 2, BasicAck 1] \<and> distinct (map call_tag (rb_calls rb)) \<and>
     (\<exists>p redos dropped errors. last (out (rb_proc rb)) = ProcessedTotal (of_nat p) redos dropped errors \<and> 1 \<le> p \<and> p \<le> 2)"
proof -
  obtain c where "resolve (json_parse demo_ext) sample_host queue_args = Ok c"
    and c: "c_threads c = 1" "c_redo_percent c = 0" "c_long_record_secs c = 300" "c_info c = False"
    using demo_queue_config .
  obtain st where st: "rabbit_loop_run demo_ext (combined_ctx demo_ext (Some 60) c 0 0) c (co_rabbit rabbit_course)
      (seed_config demo_ext demo_proc) = Some st" "rb_in_flight (y_rb (rl_sys st)) = []"
      "rb_calls (y_rb (rl_sys st)) = [BasicReject 2, BasicAck 1]"
    using demo_rabbit_loop [OF c] by blast
  obtain oc rb where f: "rabbit_finish demo_ext quick_os c st = Some (oc, rb)" "rb_calls rb = [BasicReject 2, BasicAck 1]"
    using quick_rabbit_finish [OF st(2)] st(3) by metis
  from rabbit_run_accounts_for_every_delivery [OF st(1) f(1)] st(1) f show ?thesis
    by (fastforce simp: acks_def)
qed

theorem rabbit_exit_zero_leaves_nothing_in_hand_witness:
  "\<exists>t c st oc rb. rabbit_main demo_ext quick_os sample_host queue_args (\<lambda>_ _ _. None) rabbit_course demo_proc =
      Some (TornDown 0, t) \<and>
     rabbit_loop_run demo_ext (combined_ctx demo_ext (Some 60) c 0 0) c (co_rabbit rabbit_course)
       (seed_config demo_ext demo_proc) = Some st \<and> rabbit_finish demo_ext quick_os c st = Some (oc, rb) \<and>
     y_delivered (rl_sys st) = [(1, ''r1''), (2, ''junk'')] \<and>
     (\<forall>tag \<in> {1, 2}. BasicAck tag \<in> set (rb_calls rb) \<or> BasicReject tag \<in> set (rb_calls rb) \<or> tag \<notin> started t)"
proof -
  obtain c where c: "resolve (json_parse demo_ext) sample_host queue_args = Ok c" "run_mode_of c = QueueMode"
    "c_threads c = 1" "c_redo_percent c = 0" "c_long_record_secs c = 300" "c_info c = False"
    using demo_queue_config .
  obtain t where t: "rabbit_main demo_ext quick_os sample_host queue_args (\<lambda>_ _ _. None) rabbit_course demo_proc =
      Some (TornDown 0, t)" using demo_rabbit_main by blast
  have w: "pool_ctx demo_ext (Some 60) c = Some (combined_ctx demo_ext (Some 60) c 0 0)"
    by (simp add: pool_ctx_def no_redo_workers c(3,4))
  obtain st where st: "rabbit_loop_run demo_ext (combined_ctx demo_ext (Some 60) c 0 0) c (co_rabbit rabbit_course)
      (seed_config demo_ext demo_proc) = Some st" "y_delivered (rl_sys st) = [(1, ''r1''), (2, ''junk'')]"
    using demo_rabbit_loop [OF c(3-6)] by blast
  from rabbit_exit_zero_leaves_nothing_in_hand [OF t c(1,2)]
  obtain oc rb where "rabbit_finish demo_ext quick_os c st = Some (oc, rb)"
    "\<forall>(tag, data) \<in> set (y_delivered (rl_sys st)).
       BasicAck tag \<in> set (rb_calls rb) \<or> BasicReject tag \<in> set (rb_calls rb) \<or> tag \<notin> started t"
    by (auto simp: demo_poll w st(1))
  with t st show ?thesis by auto
qed

lemma demo_rabbit_trace:
  assumes "c_threads c = 1" "c_redo_percent c = 0" "c_long_record_secs c = 300" "c_info c = False"
  shows "rabbit_trace demo_ext (combined_ctx demo_ext (Some 60) c 0 0) c (co_rabbit rabbit_course) (seed_config demo_ext demo_proc) =
    [Arrive 1, Arrive 2, Settle Refused 2, Settle Accepted 1]"
  using assms
  by (simp add: rabbit_trace_def rl_acts_def next_outcome_acts_def outcomes_def outcome_acts_def late_tags_def drain_goes_on_def
      malformed_def no_redo_workers rabbit_course_def seed_config_def
      log_startup_config_def fetch_default_def demo_rabbit_defs combined_ctx_def poll_def poll_due_def interval_ms_def
      sat_sub_def demo_proc_def demo_defs init_reload_def init_globals_def)

theorem rabbit_refines_contract_witness:
  "\<exists>c st k. rabbit_loop_run demo_ext (combined_ctx demo_ext (Some 60) c 0 0) c (co_rabbit rabbit_course)
      (seed_config demo_ext demo_proc) = Some st \<and>
     k_run k_init [Arrive 1, Arrive 2, Settle Refused 2, Settle Accepted 1] = Some k \<and> k_pending k = {} \<and>
     map fst (y_delivered (rl_sys st)) = [1, 2] \<and>
     rb_calls (settle_remaining ((y_rb (rl_sys st))\<lparr>rb_proc := demo_proc\<rparr>)) = [BasicReject 2, BasicAck 1]"
proof -
  obtain c where "resolve (json_parse demo_ext) sample_host queue_args = Ok c"
    and c: "c_threads c = 1" "c_redo_percent c = 0" "c_long_record_secs c = 300" "c_info c = False"
    using demo_queue_config .
  obtain st where st: "rabbit_loop_run demo_ext (combined_ctx demo_ext (Some 60) c 0 0) c (co_rabbit rabbit_course)
      (seed_config demo_ext demo_proc) = Some st" "rb_in_flight (y_rb (rl_sys st)) = []"
    using demo_rabbit_loop [OF c] by blast
  have "closing_acts demo_proc (y_rb (rl_sys st)) = []" by (simp add: closing_acts_def st(2))
  with rabbit_refines_contract [OF st(1), of demo_proc] st(1) show ?thesis
    unfolding Let_def demo_rabbit_trace [OF c] by fastforce
qed

theorem sqs_exit_zero_means_all_deleted_witness:
  "\<exists>t c st. sqs_main_exit demo_ext quick_os sample_host sqs_queue_args (\<lambda>_ _ _. None) sqs_course demo_proc =
      Some (TornDown 0, t) \<and>
     sq_run demo_ext (combined_ctx demo_ext (Some 60) c 0 0) 1 10 (sqs_init demo_proc 1 False) (co_sqs sqs_course) = Some st \<and>
     sq_deletes st = [''h2'', ''h1''] \<and> mset [2, 1] = mset (map fst (q_received st)) \<and> sq_in_flight st = []"
proof -
  obtain c where c: "build_config (json_parse demo_ext) sample_host sqs_queue_args = Ok c" "run_mode_of c = QueueMode"
    "c_threads c = 1" "c_redo_percent c = 0" "c_info c = False"
    using demo_sqs_config .
  obtain p where p: "sqs_params_of sqs_queue_args = Ok (p, False)" "unat (p_max_messages p) = 10" using demo_sqs_params .
  obtain t where t: "sqs_main_exit demo_ext quick_os sample_host sqs_queue_args (\<lambda>_ _ _. None) sqs_course demo_proc =
      Some (TornDown 0, t)" using demo_sqs_main by blast
  have w: "pool_ctx demo_ext (Some 60) c = Some (combined_ctx demo_ext (Some 60) c 0 0)"
    by (simp add: pool_ctx_def no_redo_workers c(3,4))
  obtain st where st: "sq_run demo_ext (combined_ctx demo_ext (Some 60) c 0 0) 1 10 (sqs_init demo_proc 1 False)
      (co_sqs sqs_course) = Some st" "sq_deletes st = [''h2'', ''h1'']" "q_gone st = [2, 1]"
    using demo_sqs_loop [OF c(3,5,4)] by blast
  from sqs_exit_zero_means_all_deleted [OF t c(1,2)] show ?thesis
    using t st by (auto simp: demo_poll w p c(3,4))
qed

theorem file_resume_offset_can_be_trusted_witness:
  "\<exists>t c rejected. rabbit_main demo_ext quick_os sample_host file_args (\<lambda>_ _ _. None) file_course demo_proc =
      Some (TornDown 0, t) \<and> last (out t) = FileLoadSummary rejected 1 \<and>
     line_reason demo_ext (file_ctx demo_ext (Some 60) c 0) [RawLine ''r1''] 1"
proof -
  obtain c where c: "resolve (json_parse demo_ext) sample_host file_args = Ok c" "c_input_file c \<noteq> None"
    "c_threads c = 1" "c_skip_lines c = 0"
    using demo_file_config .
  obtain t where t: "rabbit_main demo_ext quick_os sample_host file_args (\<lambda>_ _ _. None) file_course demo_proc =
      Some (TornDown 0, t)" "RUNNING (glob t)" using demo_file_main by blast
  have os: "\<forall>i \<le> unat (c_threads c). os_spawn quick_os i = None" by (simp add: quick_os_def demo_os_def)
  have co: "co_file file_course = Some [RawLine ''r1'']" by (simp add: file_course_def)
  from file_resume_offset_can_be_trusted [OF t(1) c(1,2) _ os co]
  obtain rejected where "last (out t) = FileLoadSummary rejected 1"
    "\<forall>l. 0 < l \<and> l \<le> 1 \<longrightarrow> line_reason demo_ext (file_ctx demo_ext (Some 60) c 0) [RawLine ''r1''] l"
    using t(2) by (auto simp: c(4) demo_poll)
  moreover from this(2) have "line_reason demo_ext (file_ctx demo_ext (Some 60) c 0) [RawLine ''r1''] 1" by simp
  ultimately show ?thesis using t(1) by blast
qed

end
