(* ===== verification/Sz_Redo_System.thy ===== *)
theory Sz_Redo_System
  imports Sz_Redo Sz_Pool "HOL-Library.Multiset"
begin

text \<open>
  The redo pipeline as a whole: the fetcher of \<open>redo.rs\<close>, the redo channel and the workers' \<open>process_redo\<close>,
  one event per access to what they share. The retry loop of \<open>send_interruptible\<close> is split at its two
  accesses, the test of \<open>RUNNING\<close> and \<open>try_send\<close>. Proved of every run: a fetched record is in exactly one
  place, the in-flight map and counter are exact, the counters are the numbers of records settled; how many
  records a crash or a stop can lose, and that it can lose one without an error.
\<close>

section \<open>The events\<close>

text \<open>What became of a record in a worker.\<close>

datatype redo_end = Processed | Dropped | EndedFatally

text \<open>Where the fetcher is: in its loop, between the test and the \<open>try_send\<close>, returned.\<close>

datatype fetcher = FLoop fetch_locals | FTested fetch_locals redo_job | FReturned

text \<open>\<open>rs_busy\<close> are the records workers have taken and not finished, \<open>rs_alive\<close> the workers running;
  \<open>rs_log\<close> (what the fetcher did) and \<open>rs_settled\<close> are history.\<close>

record 'w redo_sys =
  rs_proc :: "'w proc"
  rs_fetcher :: fetcher
  rs_busy :: "redo_job list"
  rs_alive :: nat
  rs_log :: "fetch_event list"
  rs_settled :: "(redo_job \<times> redo_end) list"

datatype 'w redo_event =
    RFetch
  | RSend
  | RPick
  | RFinish nat nat
  | RLeave
  | RWorkerFails
  | RStop
  | RElsewhere "'w proc"

definition redo_sys_init :: "'w proc \<Rightarrow> nat \<Rightarrow> nat \<Rightarrow> 'w redo_sys" where
  "redo_sys_init s workers capacity =
     \<lparr>rs_proc = s\<lparr>glob := init_globals, redo_ch := chan_new capacity 1, redo_in_flight_map := []\<rparr>,
      rs_fetcher = FLoop \<lparr>phase = Fetching, NEXT_REDO_ID = 0\<rparr>, rs_busy = [], rs_alive = workers, rs_log = [],
      rs_settled = []\<rparr>"

text \<open>A pass of the fetcher; the test of \<open>RUNNING\<close> before a send is a pass of its own.\<close>

definition fetcher_pass ::
  "('w, 'e) ext \<Rightarrow> fetch_env \<Rightarrow> fetch_locals \<Rightarrow> 'w proc \<Rightarrow> fetcher \<times> 'w proc \<times> fetch_event list" where
  "fetcher_pass X fe l s =
     (case phase l of
        Sending job \<Rightarrow>
          if RUNNING (glob s) then (FTested l job, s, []) else (FReturned, drop_tx s, [Lost job])
      | _ \<Rightarrow>
          (case fetch_pass X fe l s of
             (None, s', evs) \<Rightarrow> (FReturned, s', evs)
           | (Some l', s', evs) \<Rightarrow> (FLoop l', s', evs)))"

definition fetcher_sends ::
  "('w, 'e) ext \<Rightarrow> fetch_locals \<Rightarrow> redo_job \<Rightarrow> 'w proc \<Rightarrow> fetcher \<times> 'w proc \<times> fetch_event list" where
  "fetcher_sends X l job s =
     (case chan_send (redo_ch s) job of
        (Sent, ch) \<Rightarrow> (FLoop (l\<lparr>phase := Fetching\<rparr>), s\<lparr>redo_ch := ch\<rparr>, [Handed job])
      | (Full, _) \<Rightarrow> (FLoop l, sleep_p X 100000000 s, [])
      | (Disconnected, _) \<Rightarrow> (FReturned, drop_tx s, [Lost job]))"

definition end_of_redo :: "('w, 'e) ext \<Rightarrow> 'e + string \<Rightarrow> redo_end" where
  "end_of_redo X r =
     (case r of
        Inr _ \<Rightarrow> Processed
      | Inl e \<Rightarrow> (case classify_error X e of BadInputOrTimeout \<Rightarrow> Dropped | FatalClass \<Rightarrow> EndedFatally))"

text \<open>\<open>process_redo\<close> from the engine call on.\<close>

definition worker_finishes ::
  "('w, 'e) ext \<Rightarrow> worker_ctx \<Rightarrow> redo_job \<Rightarrow> nat \<Rightarrow> 'w proc \<Rightarrow> redo_end \<times> 'w proc" where
  "worker_finishes X c job elapsed s =
     (case retry_once X (process_redo_record X (snd job) (w_redo_flags c)) s of
        (r, s1) \<Rightarrow> (end_of_redo X r, finish_redo job elapsed (snd (redo_result X c r s1))))"

text \<open>What the rest of the process (loading, the monitors, the clock) leaves alone.\<close>

definition same_redo :: "'w proc \<Rightarrow> 'w proc \<Rightarrow> bool" where
  "same_redo s t \<longleftrightarrow> redo_ch t = redo_ch s \<and> redo_in_flight_map t = redo_in_flight_map s \<and>
     REDO_IN_FLIGHT (glob t) = REDO_IN_FLIGHT (glob s) \<and> REDOS_PROCESSED (glob t) = REDOS_PROCESSED (glob s) \<and>
     REDOS_DROPPED (glob t) = REDOS_DROPPED (glob s) \<and> (WORKER_FATAL (glob s) \<longrightarrow> WORKER_FATAL (glob t)) \<and>
     (RUNNING (glob t) \<longrightarrow> RUNNING (glob s))"

text \<open>A worker's receive and the begin of its record are one event, the engine call and its bookkeeping
  another. A redo-only worker leaves when the channel is closed, or empty after a stop, or with a fatal
  error; \<open>RWorkerFails\<close> is a worker that gets no engine or fails on a load item.\<close>

definition redo_step ::
  "('w, 'e) ext \<Rightarrow> fetch_env \<Rightarrow> worker_ctx \<Rightarrow> 'w redo_sys \<Rightarrow> 'w redo_event \<Rightarrow> 'w redo_sys option" where
  "redo_step X fe c st ev =
     (let s = rs_proc st
      in case ev of
        RFetch \<Rightarrow>
          (case rs_fetcher st of
             FLoop l \<Rightarrow>
               (case fetcher_pass X fe l s of
                  (f, s', evs) \<Rightarrow> Some (st\<lparr>rs_fetcher := f, rs_proc := s', rs_log := rs_log st @ evs\<rparr>))
           | _ \<Rightarrow> None)
      | RSend \<Rightarrow>
          (case rs_fetcher st of
             FTested l job \<Rightarrow>
               (case fetcher_sends X l job s of
                  (f, s', evs) \<Rightarrow> Some (st\<lparr>rs_fetcher := f, rs_proc := s', rs_log := rs_log st @ evs\<rparr>))
           | _ \<Rightarrow> None)
      | RPick \<Rightarrow>
          (case try_recv_redo s of
             (Item job, s') \<Rightarrow>
               if length (rs_busy st) < rs_alive st
               then Some (st\<lparr>rs_proc := begin_redo X c job s', rs_busy := rs_busy st @ [job]\<rparr>) else None
           | _ \<Rightarrow> None)
      | RFinish j elapsed \<Rightarrow>
          if j < length (rs_busy st) then
            (case worker_finishes X c (rs_busy st ! j) elapsed s of
               (e, s') \<Rightarrow>
                 Some (st\<lparr>rs_proc := s', rs_busy := take j (rs_busy st) @ drop (Suc j) (rs_busy st),
                          rs_alive := (if e = EndedFatally then rs_alive st - 1 else rs_alive st),
                          rs_settled := rs_settled st @ [(rs_busy st ! j, e)]\<rparr>))
          else None
      | RLeave \<Rightarrow>
          if length (rs_busy st) < rs_alive st \<and>
            (case fst (try_recv_redo s) of
               Closed \<Rightarrow> True | Empty \<Rightarrow> \<not> has_load c \<and> \<not> RUNNING (glob s) | Item _ \<Rightarrow> False)
          then Some (st\<lparr>rs_alive := rs_alive st - 1\<rparr>) else None
      | RWorkerFails \<Rightarrow>
          if length (rs_busy st) < rs_alive st
          then Some (st\<lparr>rs_proc := s\<lparr>glob := mark_fatal (glob s)\<rparr>, rs_alive := rs_alive st - 1\<rparr>) else None
      | RStop \<Rightarrow> Some (st\<lparr>rs_proc := s\<lparr>glob := request_shutdown (glob s)\<rparr>\<rparr>)
      | RElsewhere t \<Rightarrow> if same_redo s t then Some (st\<lparr>rs_proc := t\<rparr>) else None)"

fun redo_run ::
  "('w, 'e) ext \<Rightarrow> fetch_env \<Rightarrow> worker_ctx \<Rightarrow> 'w redo_sys \<Rightarrow> 'w redo_event list \<Rightarrow> 'w redo_sys option" where
  "redo_run X fe c st [] = Some st"
| "redo_run X fe c st (e # es) =
     (case redo_step X fe c st e of None \<Rightarrow> None | Some st' \<Rightarrow> redo_run X fe c st' es)"

text \<open>Without another thread in between, the two halves of a send are one turn of \<open>send_interruptible\<close>.\<close>

lemma fetcher_pass_then_send:
  assumes "phase l = Sending job"
  shows "(case fetcher_pass X fe l s of (FTested l' j, s', _) \<Rightarrow> fetcher_sends X l' j s' | r \<Rightarrow> r) =
    (case send_interruptible_step X l job s of
       (None, s', evs) \<Rightarrow> (FReturned, s', evs) | (Some l', s', evs) \<Rightarrow> (FLoop l', s', evs))"
  using assms by (simp add: fetcher_pass_def fetcher_sends_def send_interruptible_step_def
      split: send_outcome.split prod.split)

section \<open>Where a record is\<close>

definition held :: "fetcher \<Rightarrow> redo_job list" where
  "held f = (case f of FLoop l \<Rightarrow> in_hand l | FTested l job \<Rightarrow> [job] | FReturned \<Rightarrow> [])"

text \<open>The record between test and send is the one in hand.\<close>

definition fetcher_ok :: "fetcher \<Rightarrow> fetch_event list \<Rightarrow> bool" where
  "fetcher_ok f lg \<longleftrightarrow>
     handed lg @ held f @ lost lg = numbered (fetched lg) \<and> (f \<noteq> FReturned \<longrightarrow> lost lg = []) \<and> length (lost lg) \<le> 1 \<and>
     (case f of
        FLoop l \<Rightarrow> NEXT_REDO_ID l = of_nat (length (fetched lg))
      | FTested l job \<Rightarrow> phase l = Sending job \<and> NEXT_REDO_ID l = of_nat (length (fetched lg))
      | FReturned \<Rightarrow> True)"

definition ends :: "redo_end \<Rightarrow> (redo_job \<times> redo_end) list \<Rightarrow> nat" where
  "ends e settled = length (filter (\<lambda>x. snd x = e) settled)"

definition counts_ok :: "'w redo_sys \<Rightarrow> bool" where
  "counts_ok st \<longleftrightarrow>
     (let g = glob (rs_proc st)
      in REDO_IN_FLIGHT g = of_nat (length (rs_busy st)) \<and>
         REDOS_PROCESSED g = of_nat (ends Processed (rs_settled st)) \<and>
         REDOS_DROPPED g = of_nat (ends Dropped (rs_settled st)))"

definition places_ok :: "'w redo_sys \<Rightarrow> bool" where
  "places_ok st \<longleftrightarrow>
     mset (handed (rs_log st)) = mset (map fst (rs_settled st)) + mset (rs_busy st) + mset (ch_buf (redo_ch (rs_proc st)))"

definition map_ok :: "'w redo_sys \<Rightarrow> bool" where
  "map_ok st \<longleftrightarrow> (length (fetched (rs_log st)) \<le> 2 ^ 64 \<longrightarrow>
     fst ` set (redo_in_flight_map (rs_proc st)) = fst ` set (rs_busy st))"

definition pipeline_ok :: "'w redo_sys \<Rightarrow> bool" where
  "pipeline_ok st \<longleftrightarrow> fetcher_ok (rs_fetcher st) (rs_log st) \<and> counts_ok st \<and> places_ok st \<and> map_ok st"

lemmas place_defs = counts_ok_def places_ok_def map_ok_def

lemma pipeline_init: "pipeline_ok (redo_sys_init s workers capacity)"
  by (simp add: pipeline_ok_def fetcher_ok_def place_defs redo_sys_init_def held_def in_hand_def numbered_def ends_def
      init_globals_def chan_new_def)

section \<open>The fetcher's events\<close>

text \<open>What an event of the fetcher may change: its log, the channel, the fatal marks.\<close>

definition fetcher_frame :: "'w proc \<Rightarrow> 'w proc \<Rightarrow> fetch_event list \<Rightarrow> bool" where
  "fetcher_frame s t evs \<longleftrightarrow> ch_buf (redo_ch t) = ch_buf (redo_ch s) @ handed evs \<and>
     redo_in_flight_map t = redo_in_flight_map s \<and> REDO_IN_FLIGHT (glob t) = REDO_IN_FLIGHT (glob s) \<and>
     REDOS_PROCESSED (glob t) = REDOS_PROCESSED (glob s) \<and> REDOS_DROPPED (glob t) = REDOS_DROPPED (glob s)"

lemma fetcher_fatal_map [simp]: "redo_in_flight_map (fetcher_fatal fe m s) = redo_in_flight_map s"
  by (auto simp: fetcher_fatal_def Let_def send_outcome_p_def chan_blocking_send_def)

lemma drop_tx_map [simp]: "redo_in_flight_map (drop_tx s) = redo_in_flight_map s"
  by (simp add: drop_tx_def)

lemma sleep_p_map [simp]: "redo_in_flight_map (sleep_p X d s) = redo_in_flight_map s"
  by (simp add: sleep_p_def)

lemma fetch_pass_frame:
  assumes "fetch_pass X fe l s = (r, t, evs)" "\<And>j. phase l \<noteq> Sending j"
  shows "fetcher_frame s t evs"
  using assms
  by (cases "phase l")
    (auto simp: fetch_pass_def fetch_one_def interruptible_sleep_step_def call_def fetcher_frame_def Let_def
      split: if_splits prod.splits sum.splits)

lemma fetcher_pass_frame: "fetcher_pass X fe l s = (f, t, evs) \<Longrightarrow> fetcher_frame s t evs"
  by (cases "phase l")
    (auto simp: fetcher_pass_def fetcher_frame_def split: if_splits prod.splits option.splits
      dest!: fetch_pass_frame)

lemma fetcher_sends_frame: "fetcher_sends X l job s = (f, t, evs) \<Longrightarrow> fetcher_frame s t evs"
  by (auto simp: fetcher_sends_def fetcher_frame_def chan_send_def split: if_splits prod.splits send_outcome.splits)

lemma fetcher_pass_ok:
  assumes ok: "fetcher_ok (FLoop l) lg" and p: "fetcher_pass X fe l s = (f, t, evs)"
  shows "fetcher_ok f (lg @ evs)"
proof -
  have inv: "fetch_inv l (s, lg)" using ok by (auto simp: fetcher_ok_def held_def fetch_inv_def)
  show ?thesis
  proof (cases "\<exists>j. phase l = Sending j")
    case True
    then show ?thesis using ok p
      by (auto simp: fetcher_pass_def fetcher_ok_def held_def in_hand_def split: if_splits)
  next
    case False
    obtain r evs' where f: "fetch_pass X fe l s = (r, t, evs')" "evs = evs'"
      "f = (case r of None \<Rightarrow> FReturned | Some l' \<Rightarrow> FLoop l')"
      using p False by (auto simp: fetcher_pass_def split: fetch_phase.splits prod.splits option.splits)
    show ?thesis
    proof (cases r)
      case None
      from fetch_pass_exits [OF inv f(1) [unfolded None]] f(2,3) None show ?thesis
        by (simp add: fetcher_ok_def held_def)
    next
      case (Some l')
      from fetch_pass_continues [OF inv f(1) [unfolded Some]] f(2,3) Some show ?thesis
        by (simp add: fetcher_ok_def held_def fetch_inv_def)
    qed
  qed
qed

lemma fetcher_sends_ok:
  assumes "fetcher_ok (FTested l job) lg" "fetcher_sends X l job s = (f, t, evs)"
  shows "fetcher_ok f (lg @ evs)"
  using assms
  by (auto simp: fetcher_sends_def fetcher_ok_def held_def in_hand_def split: prod.splits send_outcome.splits)

lemma places_frame:
  assumes "fetcher_frame (rs_proc st) t evs" "counts_ok st" "places_ok st" "map_ok st"
    and "rs_proc st' = t" "rs_log st' = rs_log st @ evs" "rs_busy st' = rs_busy st" "rs_settled st' = rs_settled st"
  shows "counts_ok st' \<and> places_ok st' \<and> map_ok st'"
  using assms by (auto simp: place_defs fetcher_frame_def Let_def)

section \<open>The workers' events\<close>

lemma begin_redo_fields:
  "redo_ch (begin_redo X c job s) = redo_ch s" "glob (begin_redo X c job s) = (glob s)\<lparr>REDO_IN_FLIGHT := REDO_IN_FLIGHT (glob s) + 1\<rparr>"
  "fst ` set (redo_in_flight_map (begin_redo X c job s)) = insert (fst job) (fst ` set (redo_in_flight_map s))"
  using only_world_fields [OF poll_p_only_world [where X = X and c = c and s = s]]
  by (simp_all add: begin_redo_def Let_def hm_insert_def)

lemma worker_finishes_fields:
  assumes "worker_finishes X c job elapsed s = (e, t)"
  shows "redo_ch t = redo_ch s" "REDO_IN_FLIGHT (glob t) = REDO_IN_FLIGHT (glob s) - 1"
    "REDOS_PROCESSED (glob t) = REDOS_PROCESSED (glob s) + (if e = Processed then 1 else 0)"
    "REDOS_DROPPED (glob t) = REDOS_DROPPED (glob s) + (if e = Dropped then 1 else 0)"
    "fst ` set (redo_in_flight_map t) = fst ` set (redo_in_flight_map s) - {fst job}"
proof -
  obtain r s1 where r: "retry_once X (process_redo_record X (snd job) (w_redo_flags c)) s = (r, s1)" by fastforce
  have s1: "only_world s s1" using retry_once_result [OF r] by blast
  note f = only_world_fields [OF s1]
  have e: "e = end_of_redo X r" "t = finish_redo job elapsed (snd (redo_result X c r s1))"
    using assms by (simp_all add: worker_finishes_def r)
  show "redo_ch t = redo_ch s" "REDO_IN_FLIGHT (glob t) = REDO_IN_FLIGHT (glob s) - 1"
    "REDOS_PROCESSED (glob t) = REDOS_PROCESSED (glob s) + (if e = Processed then 1 else 0)"
    "REDOS_DROPPED (glob t) = REDOS_DROPPED (glob s) + (if e = Dropped then 1 else 0)"
    "fst ` set (redo_in_flight_map t) = fst ` set (redo_in_flight_map s) - {fst job}"
    unfolding e by (cases r; auto simp: finish_redo_def redo_result_def end_of_redo_def Let_def f mark_fatal_def
        split: error_class.splits)+
qed

text \<open>The ids of the records handed over differ as long as the counter has not wrapped.\<close>

lemma handed_ids:
  assumes "fetcher_ok f lg" "length (fetched lg) \<le> 2 ^ 64"
  shows "distinct (map fst (handed lg))"
proof -
  have "numbered (fetched lg) = handed lg @ held f @ lost lg" using assms(1) by (simp add: fetcher_ok_def)
  with distinct_numbered [OF assms(2)] show ?thesis by simp
qed

lemma mset_split_nth: "j < length xs \<Longrightarrow> mset xs = add_mset (xs ! j) (mset (take j xs @ drop (Suc j) xs))"
  by (metis Cons_nth_drop_Suc append_take_drop_id mset.simps(2) mset_append union_mset_add_mset_right)

lemma pipeline_step:
  assumes ok: "pipeline_ok st" and step: "redo_step X fe c st ev = Some st'"
  shows "pipeline_ok st'"
proof -
  have fo: "fetcher_ok (rs_fetcher st) (rs_log st)" and co: "counts_ok st" and po: "places_ok st" and mo: "map_ok st"
    using ok by (simp_all add: pipeline_ok_def)
  show ?thesis
  proof (cases ev)
    case RFetch
    then obtain l f t evs where l: "rs_fetcher st = FLoop l" "fetcher_pass X fe l (rs_proc st) = (f, t, evs)"
      "st' = st\<lparr>rs_fetcher := f, rs_proc := t, rs_log := rs_log st @ evs\<rparr>"
      using step by (auto simp: redo_step_def split: fetcher.splits prod.splits)
    with places_frame [OF fetcher_pass_frame [OF l(2)] co po mo, of st'] fetcher_pass_ok [OF fo [unfolded l(1)] l(2)]
    show ?thesis by (simp add: pipeline_ok_def)
  next
    case RSend
    then obtain l job f t evs where l: "rs_fetcher st = FTested l job" "fetcher_sends X l job (rs_proc st) = (f, t, evs)"
      "st' = st\<lparr>rs_fetcher := f, rs_proc := t, rs_log := rs_log st @ evs\<rparr>"
      using step by (auto simp: redo_step_def split: fetcher.splits prod.splits)
    with places_frame [OF fetcher_sends_frame [OF l(2)] co po mo, of st'] fetcher_sends_ok [OF fo [unfolded l(1)] l(2)]
    show ?thesis by (simp add: pipeline_ok_def)
  next
    case RPick
    obtain r ch1 where r: "chan_recv (redo_ch (rs_proc st)) = (r, ch1)" by fastforce
    with RPick step obtain job ch' s' where s': "chan_recv (redo_ch (rs_proc st)) = (Item job, ch')"
      "s' = begin_redo X c job ((rs_proc st)\<lparr>redo_ch := ch'\<rparr>)"
      "st' = st\<lparr>rs_proc := s', rs_busy := rs_busy st @ [job]\<rparr>"
      by (cases r) (auto simp: redo_step_def try_recv_redo_def Let_def split: if_splits)
    then have buf: "ch_buf (redo_ch (rs_proc st)) = job # ch_buf ch'"
      by (auto simp: chan_recv_def split: list.splits if_splits)
    show ?thesis using fo co po mo
      by (auto simp: pipeline_ok_def place_defs s'(2,3) begin_redo_fields buf Let_def)
  next
    case (RFinish j elapsed)
    let ?job = "rs_busy st ! j" and ?rest = "take j (rs_busy st) @ drop (Suc j) (rs_busy st)"
    from step RFinish obtain e t where j: "j < length (rs_busy st)" and w: "worker_finishes X c ?job elapsed (rs_proc st) = (e, t)"
      and st': "st' = st\<lparr>rs_proc := t, rs_busy := ?rest,
          rs_alive := (if e = EndedFatally then rs_alive st - 1 else rs_alive st),
          rs_settled := rs_settled st @ [(?job, e)]\<rparr>"
      by (auto simp: redo_step_def split: prod.splits if_splits)
    note f = worker_finishes_fields [OF w]
    note m = mset_split_nth [OF j]
    have "length (rs_busy st) = Suc (length ?rest)" using m by (metis size_mset size_add_mset)
    then have "counts_ok st'" using co by (simp add: counts_ok_def st' f Let_def ends_def)
    moreover have "places_ok st'" using po m by (simp add: places_ok_def st' f)
    moreover have "map_ok st'"
    proof -
      have "fst ` set (rs_busy st) - {fst ?job} = fst ` set ?rest" if len: "length (fetched (rs_log st)) \<le> 2 ^ 64"
      proof -
        have "mset (handed (rs_log st)) = mset (map fst (rs_settled st) @ rs_busy st @ ch_buf (redo_ch (rs_proc st)))"
          using po by (simp add: places_ok_def)
        then have "mset (map fst (handed (rs_log st))) =
            mset (map fst (map fst (rs_settled st) @ rs_busy st @ ch_buf (redo_ch (rs_proc st))))"
          by (simp only: mset_map)
        then have "distinct (map fst (rs_busy st))" using handed_ids [OF fo len] by (metis distinct_append map_append mset_eq_imp_distinct_iff)
        moreover have "mset (map fst (rs_busy st)) = mset (map fst (?job # ?rest))" using m by (simp only: mset_map mset.simps)
        ultimately have d: "distinct (fst ?job # map fst ?rest)" by (metis list.simps(9) mset_eq_imp_distinct_iff)
        have "set (rs_busy st) = insert ?job (set ?rest)" using m by (metis set_mset_add_mset_insert set_mset_mset)
        then have "fst ` set (rs_busy st) = insert (fst ?job) (fst ` set ?rest)" by (simp only: image_insert)
        moreover have "fst ?job \<notin> fst ` set ?rest" using d by (simp only: distinct.simps set_map not_False_eq_True)
        ultimately show ?thesis by (metis Diff_insert_absorb)
      qed
      then show ?thesis using mo by (simp add: map_ok_def st' f)
    qed
    ultimately show ?thesis using fo by (simp add: pipeline_ok_def st')
  next
    case (RElsewhere t)
    then have "same_redo (rs_proc st) t" "st' = st\<lparr>rs_proc := t\<rparr>" using step by (auto simp: redo_step_def split: if_splits)
    then show ?thesis using fo co po mo by (simp add: pipeline_ok_def place_defs same_redo_def Let_def)
  qed (use step fo co po mo in \<open>clarsimp simp: redo_step_def pipeline_ok_def place_defs mark_fatal_def Let_def split: if_splits\<close>)+
qed

lemma pipeline_run: "redo_run X fe c st es = Some st' \<Longrightarrow> pipeline_ok st \<Longrightarrow> pipeline_ok st'"
  by (induction es arbitrary: st) (auto split: option.splits intro: pipeline_step)

section \<open>How many records can be on their way\<close>

definition room_ok :: "nat \<Rightarrow> nat \<Rightarrow> 'w redo_sys \<Rightarrow> bool" where
  "room_ok capacity workers st \<longleftrightarrow>
     ch_cap (redo_ch (rs_proc st)) = capacity \<and> length (ch_buf (redo_ch (rs_proc st))) \<le> capacity \<and>
     length (rs_busy st) \<le> rs_alive st \<and> rs_alive st \<le> workers"

lemma drop_tx_cap [simp]: "ch_cap (redo_ch (drop_tx s)) = ch_cap (redo_ch s)"
  by (simp add: drop_tx_def chan_drop_sender_def)

lemma fetch_pass_channel:
  assumes "fetch_pass X fe l s = (r, t, evs)" "\<And>j. phase l \<noteq> Sending j"
  shows "redo_ch t = redo_ch s \<or> redo_ch t = redo_ch (drop_tx s)"
  using assms
  by (cases "phase l")
    (auto simp: fetch_pass_def fetch_one_def interruptible_sleep_step_def call_def drop_tx_def Let_def
      split: if_splits prod.splits sum.splits)

lemma fetcher_pass_room:
  assumes "fetcher_pass X fe l s = (f, t, evs)"
  shows "ch_cap (redo_ch t) = ch_cap (redo_ch s) \<and> ch_buf (redo_ch t) = ch_buf (redo_ch s)"
proof (cases "\<exists>j. phase l = Sending j")
  case True
  then show ?thesis using assms by (auto simp: fetcher_pass_def split: if_splits)
next
  case False
  then obtain r evs' where "fetch_pass X fe l s = (r, t, evs')"
    using assms by (auto simp: fetcher_pass_def split: fetch_phase.splits prod.splits option.splits)
  from fetch_pass_channel [OF this] False show ?thesis by auto
qed

lemma fetcher_sends_room:
  assumes "fetcher_sends X l job s = (f, t, evs)" "length (ch_buf (redo_ch s)) \<le> ch_cap (redo_ch s)"
  shows "ch_cap (redo_ch t) = ch_cap (redo_ch s) \<and> length (ch_buf (redo_ch t)) \<le> ch_cap (redo_ch s)"
  using assms by (auto simp: fetcher_sends_def chan_send_def split: if_splits prod.splits send_outcome.splits)

lemma room_step:
  assumes ok: "room_ok capacity workers st" and step: "redo_step X fe c st ev = Some st'"
  shows "room_ok capacity workers st'"
proof (cases ev)
  case RFetch
  then show ?thesis using ok step
    by (auto simp: redo_step_def room_ok_def split: fetcher.splits prod.splits dest!: fetcher_pass_room)
next
  case RSend
  then obtain l job f t evs where "fetcher_sends X l job (rs_proc st) = (f, t, evs)"
    "rs_proc st' = t" "rs_busy st' = rs_busy st" "rs_alive st' = rs_alive st"
    using step by (auto simp: redo_step_def split: fetcher.splits prod.splits)
  with ok fetcher_sends_room [OF this(1)] show ?thesis by (simp add: room_ok_def)
next
  case RPick
  obtain r ch1 where "chan_recv (redo_ch (rs_proc st)) = (r, ch1)" by fastforce
  with RPick show ?thesis using ok step
    by (cases r)
      (auto simp: redo_step_def try_recv_redo_def room_ok_def begin_redo_fields chan_recv_def Let_def
        split: if_splits list.splits)
next
  case (RFinish j elapsed)
  then obtain e t where "worker_finishes X c (rs_busy st ! j) elapsed (rs_proc st) = (e, t)" "j < length (rs_busy st)"
    "rs_proc st' = t" "length (rs_busy st') = length (rs_busy st) - 1"
    "rs_alive st' = (if e = EndedFatally then rs_alive st - 1 else rs_alive st)"
    using step by (auto simp: redo_step_def split: prod.splits if_splits)
  with ok worker_finishes_fields(1) [OF this(1)] show ?thesis by (auto simp: room_ok_def)
qed (use ok step in \<open>auto simp: redo_step_def room_ok_def same_redo_def Let_def split: if_splits\<close>)

lemma room_run: "redo_run X fe c st es = Some st' \<Longrightarrow> room_ok capacity workers st \<Longrightarrow> room_ok capacity workers st'"
  by (induction es arbitrary: st) (auto split: option.splits intro: room_step)

section \<open>Properties\<close>

text \<open>Two runs of the instance with one redo-only worker.\<close>

abbreviation demo_redo_run :: "demo_world redo_event list \<Rightarrow> demo_world redo_sys option" where
  "demo_redo_run \<equiv> redo_run demo_ext demo_fetch_env (redoer_ctx None demo_config 0) (redo_sys_init demo_redo_proc 1 3)"

lemma demo_one_processed:
  "map_option (\<lambda>st. (map snd (rs_settled st), rs_busy st, length (fetched (rs_log st))))
     (demo_redo_run [RFetch, RFetch, RSend, RPick, RFetch, RFinish 0 5]) = Some ([Processed], [], 2)"
  by code_simp

lemma demo_one_stranded:
  "map_option (\<lambda>st. (rs_fetcher st, rs_alive st, WORKER_FATAL (glob (rs_proc st)), ch_buf (redo_ch (rs_proc st)), lost (rs_log st)))
     (demo_redo_run [RFetch, RFetch, RStop, RLeave, RSend, RFetch]) = Some (FReturned, 0, False, [(0, ''r1'')], [])"
  by code_simp

text \<open>C20: at every moment of a run, in any interleaving of fetcher, workers, stops and the rest of
  the process and for any answers of the engine, each redo record fetched is in exactly one place: settled by
  a worker, in a worker, in the channel, in the fetcher's hand, or dropped by the fetcher (at most one, when
  it returned). The in-flight map holds the records in the workers, the in-flight counter is their number, and
  the counters of processed and dropped records are the numbers of records settled so.\<close>

theorem redo_records_are_conserved:
  assumes "redo_run X fe c (redo_sys_init s workers capacity) es = Some st"
  shows "mset (numbered (fetched (rs_log st))) =
      mset (map fst (rs_settled st)) + mset (rs_busy st) + mset (ch_buf (redo_ch (rs_proc st))) +
      mset (held (rs_fetcher st)) + mset (lost (rs_log st)) \<and>
    length (lost (rs_log st)) \<le> (if rs_fetcher st = FReturned then 1 else 0) \<and>
    REDO_IN_FLIGHT (glob (rs_proc st)) = of_nat (length (rs_busy st)) \<and>
    REDOS_PROCESSED (glob (rs_proc st)) = of_nat (ends Processed (rs_settled st)) \<and>
    REDOS_DROPPED (glob (rs_proc st)) = of_nat (ends Dropped (rs_settled st)) \<and>
    (length (fetched (rs_log st)) \<le> 2 ^ 64 \<longrightarrow>
      distinct (numbered (fetched (rs_log st))) \<and>
      fst ` set (redo_in_flight_map (rs_proc st)) = fst ` set (rs_busy st))"
proof -
  have ok: "pipeline_ok st" using pipeline_run [OF assms pipeline_init] .
  then have fo: "fetcher_ok (rs_fetcher st) (rs_log st)" by (simp add: pipeline_ok_def)
  then have "numbered (fetched (rs_log st)) = handed (rs_log st) @ held (rs_fetcher st) @ lost (rs_log st)"
    by (simp add: fetcher_ok_def)
  moreover have "distinct (numbered (fetched (rs_log st)))" if "length (fetched (rs_log st)) \<le> 2 ^ 64"
    using distinct_numbered [OF that] by (rule distinct_map [THEN iffD1, THEN conjunct1])
  ultimately show ?thesis using ok fo
    by (auto simp: pipeline_ok_def place_defs fetcher_ok_def Let_def)
qed

theorem redo_records_are_conserved_witness:
  "\<exists>st. demo_redo_run [RFetch, RFetch, RSend, RPick, RFetch, RFinish 0 5] = Some st \<and>
     ends Processed (rs_settled st) = 1 \<and> REDOS_PROCESSED (glob (rs_proc st)) = 1 \<and> redo_in_flight_map (rs_proc st) = []"
proof -
  obtain st where st: "demo_redo_run [RFetch, RFetch, RSend, RPick, RFetch, RFinish 0 5] = Some st"
     "map snd (rs_settled st) = [Processed]" "rs_busy st = []" "length (fetched (rs_log st)) = 2"
    using demo_one_processed by auto
  then have "ends Processed (rs_settled st) = 1" by (auto simp: ends_def map_eq_Cons_conv)
  with redo_records_are_conserved [OF st(1)] st show ?thesis by simp
qed

text \<open>C21: the records a crash or a stop can lose, fetched and not settled, are at most the capacity of
  the redo channel, one per worker and one in the fetcher's hand.\<close>

theorem redo_loss_is_bounded:
  assumes "redo_run X fe c (redo_sys_init s workers capacity) es = Some st"
  shows "length (fetched (rs_log st)) \<le> length (rs_settled st) + capacity + workers + 1"
proof -
  have p: "pipeline_ok st" using pipeline_run [OF assms pipeline_init] .
  have r: "room_ok capacity workers st"
    by (rule room_run [OF assms]) (simp add: room_ok_def redo_sys_init_def chan_new_def)
  have f: "numbered (fetched (rs_log st)) = handed (rs_log st) @ held (rs_fetcher st) @ lost (rs_log st)"
    "length (held (rs_fetcher st)) + length (lost (rs_log st)) \<le> 1"
    using p by (auto simp: pipeline_ok_def fetcher_ok_def held_def in_hand_def split: fetcher.splits fetch_phase.splits)
  have "length (handed (rs_log st)) = length (rs_settled st) + length (rs_busy st) + length (ch_buf (redo_ch (rs_proc st)))"
    using p by (simp add: pipeline_ok_def places_ok_def flip: size_mset)
  moreover have "length (fetched (rs_log st)) = length (numbered (fetched (rs_log st)))"
    by (simp add: numbered_def)
  ultimately show ?thesis using r f by (simp add: room_ok_def)
qed

theorem redo_loss_is_bounded_witness:
  "\<exists>st. demo_redo_run [RFetch, RFetch, RStop, RLeave, RSend, RFetch] = Some st \<and>
     length (fetched (rs_log st)) \<le> length (rs_settled st) + 5"
proof -
  obtain st where st: "demo_redo_run [RFetch, RFetch, RStop, RLeave, RSend, RFetch] = Some st"
    using demo_one_stranded by auto
  from redo_loss_is_bounded [OF this] st show ?thesis by simp
qed

text \<open>A stop can indeed lose a record without an error: the fetcher tests \<open>RUNNING\<close>, the process is stopped,
  the last worker finds the channel empty and leaves, and then the fetcher hands its record over. Every
  thread has ended, and the record is out of the engine's redo queue and unprocessed.\<close>

theorem stop_can_strand_a_redo_record:
  "\<exists>es st. demo_redo_run es = Some st \<and> rs_fetcher st = FReturned \<and> rs_alive st = 0 \<and>
     \<not> WORKER_FATAL (glob (rs_proc st)) \<and> ch_buf (redo_ch (rs_proc st)) = [(0, ''r1'')] \<and> lost (rs_log st) = []"
  using demo_one_stranded by (intro exI [of _ "[RFetch, RFetch, RStop, RLeave, RSend, RFetch]"]) auto

end
