(* ===== verification/Sz_Sqs_Contract.thy ===== *)
theory Sz_Sqs_Contract
  imports Sz_Sqs_Totals Sz_Sqs_Progress
begin

text \<open>
  The SQS consumer refines the contract of \<open>Sz_Contract\<close>, event by event: a message arrives when the poller
  takes it out of a response, and is settled there if it is not a record, or when its outcome is read; every
  other event of the poller, the main loop, the workers and the fetcher leaves it where it is.
\<close>

definition sq_acts :: "('w, 'e) ext \<Rightarrow> 'w sqs_sys \<Rightarrow> 'w sqs_event \<Rightarrow> k_act list" where
  "sq_acts X st ev =
     (case ev of
        EMessage \<Rightarrow>
          (case sq_poller st of
             PBatch (m # rest) \<Rightarrow>
               (case (m_body m, m_handle m) of
                  (Some b, Some h) \<Rightarrow>
                    Arrive (sq_next_id st) # (if malformed X b then [Settle Refused (sq_next_id st)] else [])
                | _ \<Rightarrow> [])
           | _ \<Rightarrow> [])
      | EOutcome \<Rightarrow> (case sq_results st of o' # _ \<Rightarrow> outcome_acts o' | [] \<Rightarrow> [])
      | _ \<Rightarrow> [])"

definition sq_counts :: "'w sqs_sys \<Rightarrow> u64 list \<times> usize \<times> usize" where
  "sq_counts st = (map fst (q_received st), ADDS_PROCESSED (glob (sq_proc st)), ADDS_REJECTED (glob (sq_proc st)))"

text \<open>The actions of a run.\<close>

definition sq_trace ::
  "('w, 'e) ext \<Rightarrow> worker_ctx \<Rightarrow> usize \<Rightarrow> nat \<Rightarrow> 'w sqs_sys \<Rightarrow> 'w sqs_event list \<Rightarrow> k_act list" where
  "sq_trace X c cap mm = trace_of (sq_step X c cap mm) (sq_acts X)"

definition books_ok :: "'w sqs_sys \<Rightarrow> bool" where
  "books_ok st \<longleftrightarrow> store_ok st \<and> in_one_place st"

section \<open>One event\<close>

lemma sq_quiet_acts: "ev \<noteq> EMessage \<Longrightarrow> ev \<noteq> EOutcome \<Longrightarrow> sq_acts X st ev = []"
  by (cases ev) (simp_all add: sq_acts_def)

lemma sq_quiet_counts:
  assumes "sq_step X c cap mm st ev = Some st'" "ev \<noteq> EMessage" "ev \<noteq> EOutcome"
  shows "sq_counts st' = sq_counts st"
proof -
  have "same_adds (sq_proc st) (sq_proc st')"
  proof (cases ev)
    case EPick
    note pf = only_world_fields [OF poll_p_only_world]
    show ?thesis using assms(1) EPick
      by (auto simp: sq_step_def Let_def same_adds_def begin_load_def pf split: try_outcome.splits prod.splits if_splits)
  next
    case (EFinish j n)
    obtain act s1 where a: "load_action X c (q_busy st ! j) (sq_proc st) = (act, s1)" by fastforce
    note f1 = only_world_fields [OF conjunct1 [OF load_action_justified [OF a]]]
    show ?thesis using assms(1) EFinish finish_load_adds [of s1 "q_busy st ! j" act n]
      by (auto simp: sq_step_def Let_def a same_adds_def f1 split: if_splits)
  next
    case (EWorkerFatal msg)
    then show ?thesis using assms(1) signal_fatal_adds [of "sq_proc st" msg]
      by (auto simp: sq_step_def Let_def same_adds_def drop_result_tx_def split: if_splits)
  next
    case (EFetcherFatal msg)
    then show ?thesis using assms(1) signal_fatal_adds [of "sq_proc st" msg]
      by (auto simp: sq_step_def Let_def same_adds_def drop_result_tx_def split: if_splits)
  qed (use assms in \<open>auto simp: sq_step_def Let_def same_adds_def poll_head_def poller_returns_def on_response_def
      poller_sends_def sqs_shut_down_def drop_result_tx_def
      split: if_splits sum.splits poller.splits send_outcome.splits prod.splits\<close>)
  then show ?thesis using sq_step_store [OF assms] by (simp add: sq_counts_def same_adds_def same_store_def)
qed

lemma sq_message_acts:
  assumes ok: "store_ok st" and p: "sq_poller st = PBatch (m # rest)" and bound: "unat (sq_next_id st) < 2 ^ 64 - 1"
    and st': "st' = take_message X m rest st"
  shows "k_run (sq_abs st) (sq_acts X st EMessage) = Some (sq_abs st') \<and>
    sq_counts st' = fold count_act (sq_acts X st EMessage) (sq_counts st)"
proof -
  let ?n = "sq_next_id st"
  have "?n \<notin> fst ` set (q_received st)" using ids_ok_new(2) [of "q_received st" ?n] ok bound by (simp add: store_ok_def)
  then have fresh: "?n \<notin> k_known (sq_abs st)" using ok by (simp add: store_ok_def)
  then have out: "?n \<notin> fst ` set (sq_in_flight st)" by (simp add: k_known_def sq_abs_def)
  then have keys: "fst ` set (hm_insert ?n h (sq_in_flight st)) = insert ?n (fst ` set (sq_in_flight st))" for h
    by (auto simp: hm_insert_def hm_remove_def)
  note defs = sq_acts_def p sq_abs_def sq_counts_def st' take_message_def message_id_def on_message_fields
  show ?thesis
  proof (cases "m_body m = None \<or> m_handle m = None")
    case True
    then show ?thesis by (auto simp: defs on_message_def Let_def split: option.splits)
  next
    case False
    then obtain b h where m: "m_body m = Some b" "m_handle m = Some h" by auto
    show ?thesis
    proof (cases "malformed X b")
      case True
      then show ?thesis using fresh
        by (auto simp: defs m on_message_def malformed_def is_err_def k_known_def Let_def split: sum.splits)
    next
      case False
      then show ?thesis using fresh
        by (auto simp: defs m on_message_def malformed_def is_err_def k_known_def Let_def keys split: sum.splits)
    qed
  qed
qed

lemma sq_outcome_acts:
  assumes ok: "books_ok st" and r: "chan_recv (result_ch (sq_proc st)) = (Item o', ch)"
    and st': "st' = (sqs_on_outcome o' (st\<lparr>sq_proc := (sq_proc st)\<lparr>result_ch := ch\<rparr>\<rparr>))
      \<lparr>q_gone := q_gone st @ deleted_by o' st, q_given_up := q_given_up st @ given_up_by o' st\<rparr>"
  shows "k_run (sq_abs st) (sq_acts X st EOutcome) = Some (sq_abs st') \<and>
    sq_counts st' = fold count_act (sq_acts X st EOutcome) (sq_counts st)"
proof -
  let ?t = "o_delivery_tag o'"
  have st: "store_ok st" "in_one_place st" using ok by (simp_all add: books_ok_def)
  note d = in_one_place_distinct [OF st]
  have res: "sq_results st = o' # ch_buf ch" using recv_item [OF r] by (simp add: sq_results_def)
  have acts: "sq_acts X st EOutcome = outcome_acts o'" by (simp add: sq_acts_def res)
  have counts: "sq_counts st' = (map fst (q_received st), ADDS_PROCESSED (glob (sq_proc st)) + (if is_ack (o_action o') then 1 else 0),
      ADDS_REJECTED (glob (sq_proc st)) + (if is_ack (o_action o') \<or> is_fatal (o_action o') then 0 else 1))"
    "sq_counts st = (map fst (q_received st), ADDS_PROCESSED (glob (sq_proc st)), ADDS_REJECTED (glob (sq_proc st)))"
    by (simp_all add: sq_counts_def st' on_outcome_counts on_outcome_history)
  have abs': "sq_abs st' = \<lparr>k_pending = fst ` set (sq_in_flight st) - {?t}, k_settled = q_gone st @ deleted_by o' st,
      k_left = set (q_given_up st) \<union> set (given_up_by o' st)\<rparr>"
    by (auto simp: sq_abs_def st' on_outcome_fields hm_remove_def)
  show ?thesis
  proof (cases "?t = 0")
    case True
    then have "is_fatal (o_action o')" using st(2) res by (auto simp: in_one_place_def receivers_kept_def)
    moreover have "?t \<notin> fst ` set (sq_in_flight st)" using d(2,4) True by simp
    ultimately have "sq_abs st' = sq_abs st" "sq_counts st' = sq_counts st"
      unfolding abs' counts
      by (auto simp: sq_abs_def deleted_by_def given_up_by_def is_fatal_def is_ack_def split: action.splits)
    then show ?thesis using True unfolding acts by (simp add: outcome_acts_def)
  next
    case False
    then have "?t \<in> fst ` set (sq_in_flight st)" unfolding d(4) by (simp add: transit_def res)
    with False show ?thesis unfolding acts abs'
      by (cases "o_action o'")
        (simp_all add: outcome_acts_def deleted_by_def given_up_by_def is_fatal_def is_ack_def counts sq_abs_def [of st])
  qed
qed

lemma sq_event_acts:
  assumes ok: "books_ok st" and s: "sq_step X c cap mm st ev = Some st'"
  shows "k_run (sq_abs st) (sq_acts X st ev) = Some (sq_abs st') \<and> sq_counts st' = fold count_act (sq_acts X st ev) (sq_counts st)"
proof -
  consider "ev \<noteq> EMessage" "ev \<noteq> EOutcome" | "ev = EMessage" | "ev = EOutcome" by blast
  then show ?thesis
  proof cases
    case 1
    have "sq_abs st' = sq_abs st" using store_ok_same [OF sq_step_store [OF s 1]] by simp
    then show ?thesis using sq_quiet_counts [OF s 1] by (simp add: sq_quiet_acts [OF 1])
  next
    case 2
    from s 2 consider "sq_poller st = PBatch []" "st' = st\<lparr>sq_poller := PTop\<rparr>"
      | m rest where "sq_poller st = PBatch (m # rest)" "unat (sq_next_id st) < 2 ^ 64 - 1" "st' = take_message X m rest st"
      by (auto simp: sq_step_def Let_def split: poller.splits list.splits if_splits)
    then show ?thesis
    proof cases
      case 1
      then show ?thesis by (simp add: 2 sq_acts_def sq_abs_def sq_counts_def)
    next
      case (2 m rest)
      with sq_message_acts [of st] ok \<open>ev = EMessage\<close> show ?thesis unfolding books_ok_def by blast
    qed
  next
    case 3
    then show ?thesis using s sq_outcome_acts [OF ok]
      by (auto simp: sq_step_def Let_def split: try_outcome.splits prod.splits if_splits)
  qed
qed

interpretation sqs: observed_consumer "sq_step X c cap mm" books_ok "sq_acts X" sq_abs sq_counts count_act
  for X :: "('w, 'e) ext" and c :: worker_ctx and cap :: usize and mm :: nat
proof unfold_locales
  show "\<And>st ev st'. books_ok st \<Longrightarrow> sq_step X c cap mm st ev = Some st' \<Longrightarrow> books_ok st'"
    using store_step in_one_place_step unfolding books_ok_def by blast
qed (use sq_event_acts in blast)+

lemma books_ok_init: "books_ok (sqs_init s threads fetcher)"
  by (simp add: books_ok_def in_one_place_init)

section \<open>Property\<close>

text \<open>C9: the SQS run as a whole is the abstract consumer carrying out, event by event, the actions the
  events stand for, whatever the schedule: a message arrives when the poller takes it from a response and is
  settled or given up when it proves not to be a record or when its outcome is read; every action is allowed
  when it happens; the map of receipt handles holds exactly the pending messages; and the calls of
  \<open>DeleteMessage\<close> (in their order) and the two counters of the adds are what these actions say.\<close>

theorem sqs_refines_contract:
  assumes "sq_run X c cap mm (sqs_init s threads fetcher) es = Some st"
  shows "let acts = sq_trace X c cap mm (sqs_init s threads fetcher) es
    in (\<exists>k. k_run k_init acts = Some k \<and> k_pending k = fst ` set (sq_in_flight st)) \<and>
      map fst (q_received st) = arrivals acts \<and>
      sq_deletes st = map (handle_of (q_received st) \<circ> snd) (settlements acts) \<and>
      ADDS_PROCESSED (glob (sq_proc st)) = ADDS_PROCESSED (glob s) + of_nat (verdicts Accepted acts) \<and>
      ADDS_REJECTED (glob (sq_proc st)) = ADDS_REJECTED (glob s) + of_nat (verdicts Refused acts)"
proof -
  let ?acts = "sq_trace X c cap mm (sqs_init s threads fetcher) es"
  note run = assms [unfolded sq_run_run_of]
  have k: "k_run k_init ?acts = Some (sq_abs st)"
    using sqs.refines [OF run books_ok_init] by (simp add: sq_trace_def)
  have "store_ok st" using sqs.inv_run [OF run books_ok_init] by (simp add: books_ok_def)
  then have "sq_deletes st = map (handle_of (q_received st) \<circ> snd) (settlements ?acts)"
    using k_run_amounts [OF k] by (simp add: store_ok_def sq_abs_def k_init_def)
  moreover have "sq_counts st = fold count_act ?acts (sq_counts (sqs_init s threads fetcher))"
    using sqs.observation [OF run books_ok_init] by (simp add: sq_trace_def)
  then have "map fst (q_received st) = arrivals ?acts"
    "ADDS_PROCESSED (glob (sq_proc st)) = ADDS_PROCESSED (glob s) + of_nat (verdicts Accepted ?acts)"
    "ADDS_REJECTED (glob (sq_proc st)) = ADDS_REJECTED (glob s) + of_nat (verdicts Refused ?acts)"
    by (simp_all add: sq_counts_def fold_count_act sqs_init_def)
  moreover have "k_pending (sq_abs st) = fst ` set (sq_in_flight st)" by (simp add: sq_abs_def)
  ultimately show ?thesis using k unfolding Let_def by blast
qed

text \<open>From any reachable state on, a message only moves forward.\<close>

lemma sqs_never_goes_back:
  assumes "sq_run X c cap mm (sqs_init s threads fetcher) es = Some st" "sq_run X c cap mm st es' = Some st'"
  shows "standing_of (sq_abs st) t \<le> standing_of (sq_abs st') t"
  using sqs.never_goes_back [OF assms(2) [unfolded sq_run_run_of] sqs.inv_run [OF assms(1) [unfolded sq_run_run_of] books_ok_init]] .

text \<open>Two messages, the second of them not a record.\<close>

lemma demo_loaded_trace:
  "sq_trace demo_ext demo_ctx 1 10 (sqs_init demo_proc 1 False) demo_loaded_events =
     [Arrive 1, Arrive 2, Settle Refused 2, Settle Accepted 1]"
  by (simp add: sq_trace_def sq_acts_def sq_results_def outcome_acts_def demo_sqs_defs demo_loaded_events_def demo_ctx_def
      begin_load_def poll_p_def poll_def idle_worker_def load_action_def from_utf8_def retry_once_def call_def is_err_def
      result_room_def finish_load_def send_outcome_p_def chan_blocking_send_def is_fatal_def outcome_defs delete_message_def
      deleted_by_def given_up_by_def ok_or_def)

theorem sqs_refines_contract_witness:
  "\<exists>st k. sq_run demo_ext demo_ctx 1 10 (sqs_init demo_proc 1 False) demo_loaded_events = Some st \<and>
     k_run k_init [Arrive 1, Arrive 2, Settle Refused 2, Settle Accepted 1] = Some k \<and> k_pending k = {} \<and>
     map fst (q_received st) = [1, 2] \<and> sq_deletes st = map (handle_of (q_received st)) [2, 1] \<and>
     ADDS_PROCESSED (glob (sq_proc st)) = 1 \<and> ADDS_REJECTED (glob (sq_proc st)) = 1"
proof -
  obtain st where st: "sq_run demo_ext demo_ctx 1 10 (sqs_init demo_proc 1 False) demo_loaded_events = Some st"
    using demo_loaded_message by (auto simp: map_option_case split: option.splits)
  have "ADDS_PROCESSED (glob demo_proc) = 0" "ADDS_REJECTED (glob demo_proc) = 0"
    by (simp_all add: demo_proc_def init_globals_def)
  moreover obtain k where "k_run k_init [Arrive 1, Arrive 2, Settle Refused 2, Settle Accepted 1] = Some k" "k_pending k = {}"
    by (simp add: k_init_def k_known_def)
  ultimately show ?thesis
    using sqs_refines_contract [OF st] st unfolding Let_def demo_loaded_trace by auto
qed

end
