(* ===== verification/Sz_File_Totals.thy ===== *)
theory Sz_File_Totals
  imports Sz_File_Loader
begin

text \<open>
  What the totals of a file load account for: the records loaded and rejected are, one for one, the
  completed lines that are not blank.
\<close>

section \<open>Blank lines\<close>

definition blank_raw :: "line_read \<Rightarrow> bool" where
  "blank_raw raw = (case lines_item raw of Inr line \<Rightarrow> trim line = [] | Inl _ \<Rightarrow> False)"

text \<open>Line numbers count from 1.\<close>

definition record_line :: "line_read list \<Rightarrow> u64 \<Rightarrow> bool" where
  "record_line content l =
     (case drop (unat l - 1) content of [] \<Rightarrow> True | raw # _ \<Rightarrow> \<not> blank_raw raw)"

lemma record_line_next:
  assumes "drop n content = raw # rest" "Suc n < 2 ^ 64"
  shows "record_line content (of_nat n + 1) \<longleftrightarrow> \<not> blank_raw raw"
proof -
  have "(of_nat n + 1 :: u64) = of_nat (Suc n)" by simp
  then have "unat (of_nat n + 1 :: u64) = Suc n"
    using assms(2) by (simp only: unat_of_nat) (simp add: take_bit_nat_eq_self)
  then show ?thesis by (simp add: record_line_def assms(1))
qed

section \<open>The count\<close>

definition adds_total :: "globals \<Rightarrow> usize" where
  "adds_total g = ADDS_PROCESSED g + ADDS_REJECTED g"

text \<open>Lines on their way are record lines, and each completed record line has been counted once.\<close>

definition counted :: "usize \<Rightarrow> line_read list \<Rightarrow> 'w fl_state \<Rightarrow> bool" where
  "counted base content st \<longleftrightarrow>
     list_all (record_line content) (pending st) \<and>
     adds_total (glob (fl_proc st)) = base + of_nat (length (filter (record_line content) (fl_done st)))"

lemma reader_pass_counts:
  assumes r: "reader_pass X skip rd s t = (rd', s', t')" and n: "reader_at content n rd" and L: "length content < 2 ^ 64 - 1"
  shows "adds_total (glob s') =
      adds_total (glob s) + of_nat (length (filter (record_line content) (reader_done rd rd' skip)))"
    "l \<in> set (work_tags s' @ feeding rd' @ reader_dropped rd rd') \<Longrightarrow>
      l \<in> set (work_tags s @ feeding rd) \<or> record_line content l"
    "real_tags s' = real_tags s"
proof -
  let ?goal = "adds_total (glob s') =
      adds_total (glob s) + of_nat (length (filter (record_line content) (reader_done rd rd' skip))) \<and>
    (\<forall>l \<in> set (work_tags s' @ feeding rd' @ reader_dropped rd rd'). l \<in> set (work_tags s @ feeding rd) \<or> record_line content l) \<and>
    real_tags s' = real_tags s"
  note simps = reader_pass_def reader_done_def reader_dropped_def feeding_def work_tags_def real_tags_def adds_total_def
  have ?goal
  proof (cases rd)
    case (RNext rest m)
    show ?thesis
    proof (cases rest)
      case (Cons raw rest')
      have m: "m = of_nat n" and dr: "drop n content = raw # rest'" using n by (simp_all add: reader_at_def RNext Cons)
      have "n < length content" using dr by (metis drop_eq_Nil2 linorder_not_less list.distinct(1))
      then have "Suc n < 2 ^ 64" using L by simp
      note rl = record_line_next [OF dr this]
      show ?thesis using r
        by (cases "lines_item raw") (auto simp: simps RNext Cons Let_def m rl blank_raw_def split: if_splits sum.splits)
    qed (use r in \<open>auto simp: simps RNext\<close>)
  qed (use r in \<open>auto simp: simps chan_send_def split: if_splits\<close>)
  then show "adds_total (glob s') =
      adds_total (glob s) + of_nat (length (filter (record_line content) (reader_done rd rd' skip)))"
    "l \<in> set (work_tags s' @ feeding rd' @ reader_dropped rd rd') \<Longrightarrow>
      l \<in> set (work_tags s @ feeding rd) \<or> record_line content l"
    "real_tags s' = real_tags s" by blast+
qed

text \<open>A step that completes nothing and brings in no new line.\<close>

lemma counted_same:
  assumes "counted base content st" "set (pending st') \<subseteq> set (pending st)" "fl_done st' = fl_done st"
    "adds_total (glob (fl_proc st')) = adds_total (glob (fl_proc st))"
  shows "counted base content st'"
  using assms unfolding counted_def list_all_iff by auto

lemma finish_load_adds_total: "adds_total (glob (snd (finish_load item act n s))) = adds_total (glob s)"
  by (simp add: adds_total_def finish_load_def send_outcome_p_def Let_def mark_fatal_def split: prod.split)

lemma signal_fatal_adds_total: "adds_total (glob (signal_fatal msg (s\<lparr>glob := mark_fatal (glob s)\<rparr>))) = adds_total (glob s)"
  by (simp add: adds_total_def signal_fatal_def send_outcome_p_def Let_def mark_fatal_def split: prod.split)

lemma counted_step:
  assumes step: "fl_step X w skip st e = Some st'" and inv: "fl_inv skip content n st"
    and L: "length content < 2 ^ 64 - 1" and c: "counted base content st"
  shows "counted base content st'"
proof -
  let ?s = "fl_proc st"
  have rd: "reader_at content n (fl_reader st)" and sen: "sentinels_ok ?s" using inv by (simp_all add: fl_inv_def)
  have rx: "ch_rx (result_ch ?s)" using sen by (simp add: sentinels_ok_def)
  note defs = pending_def real_tags_def work_tags_def
  show ?thesis
  proof (cases e)
    case FReader
    obtain rd' s' t' where r: "reader_pass X skip (fl_reader st) ?s (fl_tracker st) = (rd', s', t')"
      by (metis prod_cases3)
    then have st': "st' = st\<lparr>fl_proc := s', fl_tracker := t', fl_reader := rd',
        fl_done := fl_done st @ reader_done (fl_reader st) rd' skip,
        fl_dropped := fl_dropped st @ reader_dropped (fl_reader st) rd'\<rparr>"
      using step by (simp add: fl_step_def FReader Let_def)
    note k = reader_pass_counts [OF r rd L]
    have "record_line content l" if "l \<in> set (pending st')" for l
    proof -
      have "l \<in> set (pending st) \<or> l \<in> set (work_tags s' @ feeding rd' @ reader_dropped (fl_reader st) rd')"
        using that by (auto simp: pending_def st' k(3))
      then have "l \<in> set (pending st) \<or> record_line content l"
        using k(2) [of l] by (auto simp: pending_def)
      then show ?thesis using c by (auto simp: counted_def list_all_iff)
    qed
    then show ?thesis using c k(1) by (simp add: counted_def list_all_iff st')
  next
    case (FNoEngine msg)
    then show ?thesis using step signal_fatal_adds_total [of msg ?s]
      by (intro counted_same [OF c]) (auto simp: fl_step_def Let_def defs signal_fatal_buf split: if_splits)
  next
    case FPick
    then obtain item rest where "ch_buf (work_ch ?s) = item # rest"
      "st' = st\<lparr>fl_proc := begin_load X w item (?s\<lparr>work_ch := (work_ch ?s)\<lparr>ch_buf := rest\<rparr>\<rparr>), fl_busy := fl_busy st @ [item]\<rparr>"
      using step by (auto elim: fl_pickE)
    then show ?thesis by (intro counted_same [OF c]) (auto simp: defs begin_load_fields)
  next
    case (FFinish j el)
    then obtain act s1 where j: "j < length (fl_busy st)" and a: "load_action X w (fl_busy st ! j) ?s = (act, s1)"
      and st': "st' = st\<lparr>fl_proc := snd (finish_load (fl_busy st ! j) act el s1),
          fl_alive := (if fst (finish_load (fl_busy st ! j) act el s1) then fl_alive st else fl_alive st - 1),
          fl_busy := take j (fl_busy st) @ drop (Suc j) (fl_busy st), fl_acted := fl_acted st @ [(fl_busy st ! j, act)]\<rparr>"
      using step by (auto elim: fl_finishE)
    note f = load_action_fields [OF a]
    have "set (take j (fl_busy st) @ drop (Suc j) (fl_busy st)) \<subseteq> set (fl_busy st)" "fl_busy st ! j \<in> set (fl_busy st)"
      using j set_take_subset [of j "fl_busy st"] set_drop_subset [of "Suc j" "fl_busy st"] by auto
    then have "set (pending st') \<subseteq> set (pending st)"
      using rx by (auto simp: defs st' finish_load_effect f outcome_of_def)
    then show ?thesis by (rule counted_same [OF c]) (simp_all add: st' finish_load_adds_total f(3))
  next
    case FConsume
    then obtain o' rest where b: "ch_buf (result_ch ?s) = o' # rest"
      using step by (auto simp: fl_step_def Let_def chan_recv_def split: list.splits if_splits)
    obtain s' t' where k: "consume_outcome (want_info w) o' (?s\<lparr>result_ch := (result_ch ?s)\<lparr>ch_buf := rest\<rparr>\<rparr>) (fl_tracker st) = (s', t')"
      by fastforce
    have st': "st' = st\<lparr>fl_proc := s', fl_tracker := t',
        fl_done := fl_done st @ (if is_fatal (o_action o') then [] else [o_delivery_tag o']),
        fl_fatal := fl_fatal st @ (if is_fatal (o_action o') \<and> o_delivery_tag o' \<noteq> 0 then [o_delivery_tag o'] else [])\<rparr>"
      using step FConsume by (simp add: fl_step_def Let_def chan_recv_def b k)
    have f: "work_ch s' = work_ch ?s" "ch_buf (result_ch s') = rest"
      "adds_total (glob s') = adds_total (glob ?s) + (if is_fatal (o_action o') then 0 else 1)"
      using k by (auto simp: consume_outcome_def Let_def is_fatal_def adds_total_def split: action.splits)
    have p: "set (pending st') \<subseteq> set (pending st)" by (auto simp: defs st' f(1,2) b)
    show ?thesis
    proof (cases "is_fatal (o_action o')")
      case True
      then show ?thesis using f by (intro counted_same [OF c p]) (simp_all add: st')
    next
      case False
      then have "o_delivery_tag o' \<noteq> 0" using sen b by (auto simp: sentinels_ok_def)
      then have "o_delivery_tag o' \<in> set (pending st)" by (simp add: defs b)
      then have "record_line content (o_delivery_tag o')" using c by (auto simp: counted_def list_all_iff)
      then show ?thesis using c p f False by (auto simp: counted_def list_all_iff st')
    qed
  next
    case FSignal
    then show ?thesis using step by (intro counted_same [OF c]) (auto simp: fl_step_def Let_def defs adds_total_def)
  next
    case (FWorld v)
    then show ?thesis using step by (intro counted_same [OF c]) (auto simp: fl_step_def Let_def defs)
  qed
qed

lemma counted_run:
  assumes "fl_run X w skip st es = Some st'" "fl_inv skip content n st" "length content < 2 ^ 64 - 1"
    "counted base content st"
  shows "counted base content st'"
  using assms
proof (induction es arbitrary: st n)
  case (Cons e es)
  then obtain st1 where st1: "fl_step X w skip st e = Some st1" "fl_run X w skip st1 es = Some st'"
    by (auto split: option.splits)
  obtain n1 where "fl_inv skip content n1 st1" using fl_inv_step [OF st1(1) Cons.prems(2,3)] by blast
  then show ?case using Cons.IH [OF st1(2)] counted_step [OF st1(1) Cons.prems(2-4)] Cons.prems(3) by blast
qed simp

section \<open>Property\<close>

text \<open>C29: the totals of a file load account for every line: at every moment the records loaded
  and rejected since the start are, in number, the completed lines that are not blank; and after a load
  that ran to its end with nothing pending they are all lines between the skipped ones and the last
  line read that are not blank, so that no line is counted twice and none is left out.\<close>

theorem file_totals_account_for_every_line:
  assumes "fl_run X w skip (fl_init s content skip k) es = Some st" "length content < 2 ^ 64 - 1"
  shows "ADDS_PROCESSED (glob (fl_proc st)) + ADDS_REJECTED (glob (fl_proc st)) =
      ADDS_PROCESSED (glob s) + ADDS_REJECTED (glob s) + of_nat (length (filter (record_line content) (fl_done st))) \<and>
    (fl_reader st = RReturned (Ok m) \<and> pending st = [] \<longrightarrow>
      length (filter (record_line content) (fl_done st)) =
        length (filter (record_line content) (lines_from skip (unat m))))"
proof
  have "counted (adds_total (glob s)) content (fl_init s content skip k)"
    by (simp add: counted_def fl_init_def pending_def work_tags_def real_tags_def feeding_def chan_new_def)
  from counted_run [OF assms(1) conjunct2 [OF fl_inv_init] assms(2) this]
  show "ADDS_PROCESSED (glob (fl_proc st)) + ADDS_REJECTED (glob (fl_proc st)) =
      ADDS_PROCESSED (glob s) + ADDS_REJECTED (glob s) + of_nat (length (filter (record_line content) (fl_done st)))"
    by (simp add: counted_def adds_total_def)
  obtain n where n: "fl_inv skip content n st" "n \<le> length content" using fl_inv_reachable [OF assms] by blast
  show "fl_reader st = RReturned (Ok m) \<and> pending st = [] \<longrightarrow>
      length (filter (record_line content) (fl_done st)) = length (filter (record_line content) (lines_from skip (unat m)))"
  proof
    assume fin: "fl_reader st = RReturned (Ok m) \<and> pending st = []"
    then have m: "m = of_nat n" and eq: "mset (fl_done st) = mset (lines_from skip n)"
      using n(1) by (simp_all add: fl_inv_def reader_at_def)
    have "unat m = n" using n(2) assms(2) unfolding m by (simp add: unat_of_nat take_bit_nat_eq_self)
    then show "length (filter (record_line content) (fl_done st)) =
        length (filter (record_line content) (lines_from skip (unat m)))"
      using eq by (metis mset_filter size_mset)
  qed
qed

theorem file_totals_account_for_every_line_witness:
  "\<exists>st. fl_run demo_ext demo_ctx 0 (fl_init demo_proc [RawLine ''r1''] 0 1) demo_whole_run = Some st \<and>
     ADDS_PROCESSED (glob (fl_proc st)) + ADDS_REJECTED (glob (fl_proc st)) = 1"
proof -
  obtain st where r: "fl_run demo_ext demo_ctx 0 (fl_init demo_proc [RawLine ''r1''] 0 1) demo_whole_run = Some st"
    "fl_reader st = RReturned (Ok 1)" "pending st = []" using demo_whole_runs by blast
  have "filter (record_line [RawLine ''r1'']) (lines_from 0 1) = [1]"
    by (simp add: lines_from_def record_line_def blank_raw_def lines_item_def from_utf8_def demo_trim ok_or_def)
  with file_totals_account_for_every_line [OF r(1), of 1] r show ?thesis by (auto simp: demo_proc_def init_globals_def)
qed

end
