(* ===== verification/Sz_File_Progress.thy ===== *)
theory Sz_File_Progress
  imports Sz_File_Loader Sz_Progress
begin

text \<open>
  A file load makes progress under every schedule: the work left decreases, and as long as a worker is
  there the threads can always get on, until the reader has returned and every line is settled.
\<close>

section \<open>The work left\<close>

text \<open>A line to read stands for five steps: read, hand over, pick up, finish, consume. A worker that never
  gets its engine leaves with an outcome.\<close>

definition reader_left :: "reader \<Rightarrow> nat" where
  "reader_left rd =
     (case rd of
        RNext rest _ \<Rightarrow> 5 * length rest + 1
      | RFeeding _ rest _ \<Rightarrow> 5 * length rest + 5
      | RReturned _ \<Rightarrow> 0)"

definition file_left :: "'w fl_state \<Rightarrow> nat" where
  "file_left st =
     reader_left (fl_reader st) + 3 * length (ch_buf (work_ch (fl_proc st))) + 2 * length (fl_busy st) +
     length (ch_buf (result_ch (fl_proc st))) + 2 * fl_alive st"

definition file_over :: "'w fl_state \<Rightarrow> bool" where
  "file_over st \<longleftrightarrow>
     (\<exists>r. fl_reader st = RReturned r) \<and> ch_buf (work_ch (fl_proc st)) = [] \<and> fl_busy st = [] \<and>
     ch_buf (result_ch (fl_proc st)) = []"

definition file_moving :: "'w fl_state \<Rightarrow> bool" where
  "file_moving st \<longleftrightarrow>
     0 < ch_cap (work_ch (fl_proc st)) \<and> 0 < ch_cap (result_ch (fl_proc st)) \<and> ch_rx (result_ch (fl_proc st))"

lemma file_moving_step:
  assumes "fl_step X w skip st e = Some st'" "file_moving st"
  shows "file_moving st' \<and> file_left st' \<le> file_left st"
proof (cases e)
  case FReader
  then show ?thesis using assms
    by (cases "fl_reader st")
      (auto simp: fl_step_def Let_def file_moving_def file_left_def reader_left_def reader_pass_def chan_send_def
        split: list.splits if_splits sum.splits)
next
  case (FFinish j elapsed)
  then obtain act s1 where j: "j < length (fl_busy st)" and a: "load_action X w (fl_busy st ! j) (fl_proc st) = (act, s1)"
    and st': "st' = st\<lparr>fl_proc := snd (finish_load (fl_busy st ! j) act elapsed s1),
        fl_alive := (if fst (finish_load (fl_busy st ! j) act elapsed s1) then fl_alive st else fl_alive st - 1),
        fl_busy := take j (fl_busy st) @ drop (Suc j) (fl_busy st), fl_acted := fl_acted st @ [(fl_busy st ! j, act)]\<rparr>"
    using assms by (auto elim: fl_finishE)
  then show ?thesis using assms(2)
    by (auto simp: st' file_moving_def file_left_def finish_load_effect load_action_fields [OF a])
next
  case FPick
  then obtain item rest where "ch_buf (work_ch (fl_proc st)) = item # rest" "st' = st\<lparr>fl_proc :=
      begin_load X w item ((fl_proc st)\<lparr>work_ch := (work_ch (fl_proc st))\<lparr>ch_buf := rest\<rparr>\<rparr>), fl_busy := fl_busy st @ [item]\<rparr>"
    using assms by (auto elim: fl_pickE)
  then show ?thesis using assms(2) by (auto simp: file_moving_def file_left_def begin_load_fields)
next
  case FConsume
  then show ?thesis using assms
    by (auto simp: fl_step_def Let_def file_moving_def file_left_def chan_recv_def consume_outcome_def
        split: list.splits action.splits prod.splits if_splits)
next
  case (FNoEngine msg)
  then show ?thesis using assms
    by (auto simp: fl_step_def Let_def file_moving_def file_left_def signal_fatal_def send_outcome_p_def
        chan_blocking_send_def split: if_splits)
qed (use assms in \<open>auto simp: fl_step_def Let_def file_moving_def file_left_def chan_recv_def split: list.splits if_splits\<close>)

lemma file_advance:
  assumes mv: "file_moving st" and "\<not> file_over st" "0 < fl_alive st"
  shows "can_advance (fl_step X w skip) file_left st"
proof -
  let ?s = "fl_proc st"
  have room: "result_room ?s" if "ch_buf (result_ch ?s) = []" using mv that by (simp add: result_room_def file_moving_def)
  consider (consume) "ch_buf (result_ch ?s) \<noteq> []"
    | (finish) "ch_buf (result_ch ?s) = []" "fl_busy st \<noteq> []"
    | (pick) "fl_busy st = []" "ch_buf (work_ch ?s) \<noteq> []"
    | (read) "ch_buf (work_ch ?s) = []" "\<forall>r. fl_reader st \<noteq> RReturned r"
    using assms(2) by (auto simp: file_over_def)
  then show ?thesis
  proof cases
    case consume
    then obtain o' os where "ch_buf (result_ch ?s) = o' # os" by (cases "ch_buf (result_ch ?s)") auto
    then have "\<exists>st'. fl_step X w skip st FConsume = Some st' \<and> file_left st' < file_left st"
      by (auto simp: fl_step_def Let_def chan_recv_def file_left_def consume_outcome_def split: action.splits)
    then show ?thesis unfolding can_advance_def by blast
  next
    case finish
    obtain act s1 where a: "load_action X w (fl_busy st ! 0) ?s = (act, s1)" by fastforce
    have "\<exists>st'. fl_step X w skip st (FFinish 0 0) = Some st' \<and> file_left st' < file_left st"
      using finish mv room a
      by (auto simp: fl_step_def Let_def file_left_def file_moving_def finish_load_effect load_action_fields [OF a]
          neq_Nil_conv split_beta)
    then show ?thesis unfolding can_advance_def by blast
  next
    case pick
    then obtain i items where "ch_buf (work_ch ?s) = i # items" by (cases "ch_buf (work_ch ?s)") auto
    then have "\<exists>st'. fl_step X w skip st FPick = Some st' \<and> file_left st' < file_left st"
      using pick(1) assms(3) by (auto simp: fl_step_def Let_def chan_recv_def file_left_def begin_load_fields)
    then show ?thesis unfolding can_advance_def by blast
  next
    case read
    then have "\<exists>st'. fl_step X w skip st FReader = Some st' \<and> file_left st' < file_left st"
      using mv
      by (cases "fl_reader st")
        (auto simp: fl_step_def Let_def file_moving_def file_left_def reader_left_def reader_pass_def chan_send_def
          split: list.splits sum.splits)
    then show ?thesis unfolding can_advance_def by blast
  qed
qed

interpretation file_load: progress "fl_step X w skip" file_moving "\<lambda>st. file_over st \<or> fl_alive st = 0" file_left
  for X :: "('w, 'e) ext" and w :: worker_ctx and skip :: u64
  by unfold_locales (use file_moving_step file_advance in blast)+

lemma fl_run_run_of: "fl_run X w skip st es = run_of (fl_step X w skip) st es"
  by (induction es arbitrary: st) (auto split: option.split)

section \<open>Property\<close>

text \<open>C32: a file load comes to its end under every schedule of its threads, unless it loses all its
  workers: whatever the interleaving and the answers of the engine, at most \<open>5 * lines + 1 + 2 * workers\<close>
  steps are productive, no step undoes one, and as long as a worker is left and the load is not over (reader
  returned, nothing queued, in work or unread) some thread can take a productive step.\<close>

theorem file_load_comes_to_its_end:
  assumes "fl_run X w skip (fl_init s content skip k) es = Some st" "0 < k"
  shows "strides (fl_step X w skip) file_left (fl_init s content skip k) es + file_left st
      \<le> 5 * length content + 1 + 2 * k \<and>
    (file_over st \<or> fl_alive st = 0 \<or> can_advance (fl_step X w skip) file_left st)"
proof -
  have m: "file_moving (fl_init s content skip k)" using assms(2) by (simp add: file_moving_def fl_init_def chan_new_def)
  have l: "file_left (fl_init s content skip k) = 5 * length content + 1 + 2 * k"
    by (simp add: file_left_def fl_init_def chan_new_def reader_left_def)
  note r = assms(1) [unfolded fl_run_run_of]
  show ?thesis using file_load.strides_bound [OF r m] file_load.over_or_advance [OF r m] by (auto simp: l)
qed

theorem file_load_comes_to_its_end_witness:
  "\<exists>st. fl_run demo_ext demo_ctx 0 (fl_init demo_proc [RawLine ''r1''] 0 1) demo_whole_run = Some st \<and>
     strides (fl_step demo_ext demo_ctx 0) file_left (fl_init demo_proc [RawLine ''r1''] 0 1) demo_whole_run + file_left st \<le> 8"
proof -
  obtain st where r: "fl_run demo_ext demo_ctx 0 (fl_init demo_proc [RawLine ''r1''] 0 1) demo_whole_run = Some st"
    using demo_whole_runs by blast
  from file_load_comes_to_its_end [OF r] r show ?thesis by auto
qed

end
