(* ===== verification/Sz_File_Contract.thy ===== *)
theory Sz_File_Contract
  imports Sz_File_Totals Sz_File_Progress Sz_Contract
begin

text \<open>
  The file loader refines the contract of \<open>Sz_Contract\<close>, event by event: a line arrives when the reader
  reads it, and is settled there if it is blank or not a record, or when the main loop consumes its outcome;
  it is left when that outcome is fatal or the workers' queue is gone. The two counters and the tracker, hence
  the place to resume, are computed from these actions.
\<close>

definition fl_acts :: "('w, 'e) ext \<Rightarrow> u64 \<Rightarrow> 'w fl_state \<Rightarrow> 'w fl_event \<Rightarrow> k_act list" where
  "fl_acts X skip st ev =
     (case ev of
        FReader \<Rightarrow>
          (case fl_reader st of
             RNext (raw # _) n \<Rightarrow>
               (case lines_item raw of
                  Inr line \<Rightarrow>
                    if RUNNING (glob (fl_proc st)) \<and> skip < n + 1
                    then Arrive (n + 1) #
                      (if trim line = [] then [Settle Ignored (n + 1)]
                       else if malformed X (trim line) then [Settle Refused (n + 1)] else [])
                    else []
                | Inl _ \<Rightarrow> [])
           | RFeeding item _ _ \<Rightarrow> if ch_rx (work_ch (fl_proc st)) then [] else [Leave (delivery_tag item)]
           | _ \<Rightarrow> [])
      | FConsume \<Rightarrow> (case ch_buf (result_ch (fl_proc st)) of o' # _ \<Rightarrow> outcome_acts o' | [] \<Rightarrow> [])
      | _ \<Rightarrow> [])"

text \<open>The lines read and not settled: queued, in a worker, in an outcome, or being handed over.\<close>

definition lines_in_hand :: "'w fl_state \<Rightarrow> u64 list" where
  "lines_in_hand st =
     work_tags (fl_proc st) @ map delivery_tag (fl_busy st) @ real_tags (fl_proc st) @ feeding (fl_reader st)"

definition fl_abs :: "'w fl_state \<Rightarrow> contract" where
  "fl_abs st =
     \<lparr>k_pending = set (lines_in_hand st), k_settled = fl_done st, k_left = set (fl_fatal st) \<union> set (fl_dropped st)\<rparr>"

text \<open>What the load reports: the two counters and the tracker.\<close>

definition fl_report :: "'w fl_state \<Rightarrow> usize \<times> usize \<times> resume_tracker" where
  "fl_report st = (ADDS_PROCESSED (glob (fl_proc st)), ADDS_REJECTED (glob (fl_proc st)), fl_tracker st)"

fun report_act :: "k_act \<Rightarrow> usize \<times> usize \<times> resume_tracker \<Rightarrow> usize \<times> usize \<times> resume_tracker" where
  "report_act (Settle Accepted l) (p, r, t) = (p + 1, r, complete_line l t)"
| "report_act (Settle Refused l) (p, r, t) = (p, r + 1, complete_line l t)"
| "report_act (Settle Ignored l) (p, r, t) = (p, r, complete_line l t)"
| "report_act _ (p, r, t) = (p, r, t)"

lemma fold_report_act:
  "fold report_act as (p, r, t) =
     (p + of_nat (verdicts Accepted as), r + of_nat (verdicts Refused as), fold complete_line (map snd (settlements as)) t)"
proof (induction as arbitrary: p r t)
  case (Cons a as)
  show ?case
  proof (cases a)
    case (Settle v l)
    with Cons show ?thesis by (cases v) simp_all
  qed (simp_all add: Cons)
qed simp

definition fl_trace ::
  "('w, 'e) ext \<Rightarrow> worker_ctx \<Rightarrow> u64 \<Rightarrow> 'w fl_state \<Rightarrow> 'w fl_event list \<Rightarrow> k_act list" where
  "fl_trace X w skip = trace_of (fl_step X w skip) (fl_acts X skip)"

definition fl_ok :: "u64 \<Rightarrow> line_read list \<Rightarrow> 'w fl_state \<Rightarrow> bool" where
  "fl_ok skip content st \<longleftrightarrow> length content < 2 ^ 64 - 1 \<and> (\<exists>n. fl_inv skip content n st)"

lemma set_remove_one:
  assumes "mset xs = mset ys + {#t#}" "distinct xs"
  shows "set ys = set xs - {t}" "t \<in> set xs"
proof -
  have m: "mset (t # ys) = mset xs" using assms(1) by simp
  then show "set ys = set xs - {t}" "t \<in> set xs"
    using mset_eq_imp_distinct_iff [OF m] mset_eq_setD [OF m] assms(2) by auto
qed

lemma pending_in_hand: "pending st = lines_in_hand st @ fl_fatal st @ fl_dropped st"
  by (simp add: pending_def lines_in_hand_def)

text \<open>Under the invariant of the loader no line is in two places, and the lines known are those read.\<close>

lemma fl_inv_contract:
  assumes inv: "fl_inv skip content n st" and L: "length content < 2 ^ 64 - 1"
  shows "distinct (fl_done st @ lines_in_hand st @ fl_fatal st @ fl_dropped st)" "k_known (fl_abs st) = set (lines_from skip n)"
    "0 \<notin> set (lines_in_hand st)"
proof -
  have n: "n \<le> length content" using inv readable_le [of content] by (simp add: fl_inv_def reader_at_def)
  then have d: "distinct (lines_from skip n)" using L by (intro lines_from_distinct) simp
  have "mset (fl_done st @ lines_in_hand st @ fl_fatal st @ fl_dropped st) = mset (lines_from skip n)"
    using inv by (simp add: fl_inv_def pending_in_hand)
  then have known: "set (fl_done st @ lines_in_hand st @ fl_fatal st @ fl_dropped st) = set (lines_from skip n)"
    and "distinct (fl_done st @ lines_in_hand st @ fl_fatal st @ fl_dropped st)"
    using d mset_eq_imp_distinct_iff mset_eq_setD by blast+
  then show "distinct (fl_done st @ lines_in_hand st @ fl_fatal st @ fl_dropped st)" by blast
  show "k_known (fl_abs st) = set (lines_from skip n)" unfolding known [symmetric] by (auto simp: k_known_def fl_abs_def)
  show "0 \<notin> set (lines_in_hand st)" using known lines_from_range(1) [of n 0 skip] n L by auto
qed

section \<open>One event\<close>

lemma fl_reading_acts:
  assumes inv: "fl_inv skip content n st" and L: "length content < 2 ^ 64 - 1"
    and rd: "fl_reader st = RNext (raw # rest) m" and step: "fl_step X w skip st FReader = Some st'"
  shows "k_run (fl_abs st) (fl_acts X skip st FReader) = Some (fl_abs st') \<and>
    fl_report st' = fold report_act (fl_acts X skip st FReader) (fl_report st)"
proof -
  have m: "m = of_nat n" "drop n content = raw # rest" using inv rd by (simp_all add: fl_inv_def reader_at_def)
  have "n < length content" using m(2) by (metis drop_eq_Nil2 linorder_not_less list.distinct(1))
  moreover have "m + 1 = of_nat (Suc n)" by (simp add: m(1))
  ultimately have "unat (m + 1) = Suc n" using L by (simp only: unat_of_nat) (simp add: take_bit_nat_eq_self)
  then have fresh: "m + 1 \<notin> k_known (fl_abs st)"
    using lines_from_range(4) [of n "m + 1" skip] fl_inv_contract(2) [OF inv L] \<open>n < length content\<close> L by auto
  note defs = fl_step_def fl_acts_def Let_def rd reader_pass_def fl_abs_def fl_report_def lines_in_hand_def feeding_def
    reader_done_def reader_dropped_def work_tags_def real_tags_def
  show ?thesis
  proof (cases "lines_item raw")
    case (Inl e)
    then show ?thesis using step by (auto simp: defs split: if_splits)
  next
    case (Inr line)
    note r = Inr and k = k_known_def malformed_def is_err_def
    show ?thesis
    proof (cases "RUNNING (glob (fl_proc st)) \<and> skip < m + 1")
      case False
      then show ?thesis using step r by (auto simp: defs not_less split: if_splits)
    next
      case True
      then have run: "RUNNING (glob (fl_proc st))" "skip < m + 1" "\<not> m + 1 \<le> skip" by (auto simp: not_less)
      show ?thesis
      proof (cases "trim line = []")
        case True
        then show ?thesis using step fresh by (auto simp: defs r run k)
      next
        case False
        then show ?thesis using step fresh
          by (cases "parse_record (json_parse X) (trim line)") (auto simp: defs r run k)
      qed
    qed
  qed
qed

lemma fl_reader_acts:
  assumes inv: "fl_inv skip content n st" and L: "length content < 2 ^ 64 - 1" and step: "fl_step X w skip st FReader = Some st'"
  shows "k_run (fl_abs st) (fl_acts X skip st FReader) = Some (fl_abs st') \<and>
    fl_report st' = fold report_act (fl_acts X skip st FReader) (fl_report st)"
proof -
  note defs = fl_step_def fl_acts_def Let_def reader_pass_def fl_abs_def fl_report_def lines_in_hand_def feeding_def
    reader_done_def reader_dropped_def work_tags_def real_tags_def
  consider raw rest m where "fl_reader st = RNext (raw # rest) m" | m where "fl_reader st = RNext [] m"
    | item rest m where "fl_reader st = RFeeding item rest m" | r where "fl_reader st = RReturned r"
    by (metis list.exhaust reader.exhaust)
  then show ?thesis
  proof cases
    case 1
    then show ?thesis using fl_reading_acts [OF inv L _ step] by blast
  next
    case (3 item rest m)
    note rd = this
    let ?ch = "work_ch (fl_proc st)"
    consider "\<not> ch_rx ?ch" | "ch_rx ?ch" "length (ch_buf ?ch) < ch_cap ?ch" | "ch_rx ?ch" "\<not> length (ch_buf ?ch) < ch_cap ?ch"
      by blast
    then show ?thesis
    proof cases
      case 1
      have st': "st' = st\<lparr>fl_reader := RReturned (Ok m), fl_dropped := fl_dropped st @ [delivery_tag item]\<rparr>"
        using step 1 rd by (auto simp: fl_step_def Let_def reader_pass_def reader_done_def reader_dropped_def)
      have d: "distinct (lines_in_hand st)" using fl_inv_contract(1) [OF inv L] by simp
      have hand: "lines_in_hand st = lines_in_hand st' @ [delivery_tag item]" by (simp add: lines_in_hand_def st' rd feeding_def)
      then have "set (lines_in_hand st') = set (lines_in_hand st) - {delivery_tag item}" using d by auto
      then have "fl_abs st' = \<lparr>k_pending = set (lines_in_hand st) - {delivery_tag item}, k_settled = fl_done st,
          k_left = insert (delivery_tag item) (set (fl_fatal st) \<union> set (fl_dropped st))\<rparr>"
        by (simp add: fl_abs_def) (simp add: st')
      moreover have "fl_acts X skip st FReader = [Leave (delivery_tag item)]" using 1 by (simp add: fl_acts_def rd)
      moreover have "delivery_tag item \<in> set (lines_in_hand st)" by (simp add: hand)
      ultimately show ?thesis by (simp add: fl_abs_def [of st]) (simp add: st' fl_report_def)
    next
      case 2
      then show ?thesis using step by (auto simp: defs rd chan_send_def)
    next
      case 3
      then show ?thesis using step by (auto simp: defs rd chan_send_def)
    qed
  qed (use step in \<open>auto simp: defs\<close>)
qed

lemma fl_consume_acts:
  assumes inv: "fl_inv skip content n st" and L: "length content < 2 ^ 64 - 1" and step: "fl_step X w skip st FConsume = Some st'"
  shows "k_run (fl_abs st) (fl_acts X skip st FConsume) = Some (fl_abs st') \<and>
    fl_report st' = fold report_act (fl_acts X skip st FConsume) (fl_report st)"
proof -
  let ?s = "fl_proc st"
  obtain o' rest where b: "ch_buf (result_ch ?s) = o' # rest"
    using step by (auto simp: fl_step_def Let_def chan_recv_def split: list.splits if_splits)
  have z: "o_delivery_tag o' = 0 \<Longrightarrow> is_fatal (o_action o')" using inv b by (auto simp: fl_inv_def sentinels_ok_def)
  obtain s' t' where c: "consume_outcome (want_info w) o' (?s\<lparr>result_ch := (result_ch ?s)\<lparr>ch_buf := rest\<rparr>\<rparr>) (fl_tracker st) = (s', t')"
    by fastforce
  let ?t = "o_delivery_tag o'"
  have st': "st' = st\<lparr>fl_proc := s', fl_tracker := t',
      fl_done := fl_done st @ (if is_fatal (o_action o') then [] else [?t]),
      fl_fatal := fl_fatal st @ (if is_fatal (o_action o') \<and> ?t \<noteq> 0 then [?t] else [])\<rparr>"
    using step by (simp add: fl_step_def Let_def chan_recv_def b c)
  then have flds: "fl_done st' = fl_done st @ (if is_fatal (o_action o') then [] else [?t])"
    "fl_fatal st' = fl_fatal st @ (if is_fatal (o_action o') \<and> ?t \<noteq> 0 then [?t] else [])"
    "fl_proc st' = s'" "fl_tracker st' = t'" "fl_dropped st' = fl_dropped st" "fl_busy st' = fl_busy st" "fl_reader st' = fl_reader st"
    by simp_all
  have f: "work_ch s' = work_ch ?s" "ch_buf (result_ch s') = rest"
    "ADDS_PROCESSED (glob s') = ADDS_PROCESSED (glob ?s) + (case o_action o' of Ack _ \<Rightarrow> 1 | _ \<Rightarrow> 0)"
    "ADDS_REJECTED (glob s') = ADDS_REJECTED (glob ?s) + (case o_action o' of RejectNoRequeue \<Rightarrow> 1 | _ \<Rightarrow> 0)"
    "t' = (if is_fatal (o_action o') then fl_tracker st else complete_line ?t (fl_tracker st))"
    using c by (auto simp: consume_outcome_def Let_def is_fatal_def split: action.splits)
  have acts: "fl_acts X skip st FConsume = outcome_acts o'" by (simp add: fl_acts_def b)
  have "mset (lines_in_hand st) = mset (lines_in_hand st') + (if ?t = 0 then {#} else {#?t#})"
    by (simp add: lines_in_hand_def work_tags_def real_tags_def flds f b)
  then have "if ?t = 0 then set (lines_in_hand st') = set (lines_in_hand st)
    else set (lines_in_hand st') = set (lines_in_hand st) - {?t} \<and> ?t \<in> set (lines_in_hand st)"
    using fl_inv_contract(1) [OF inv L] set_remove_one [of "lines_in_hand st" "lines_in_hand st'" ?t]
    by (auto simp del: mset_append dest: mset_eq_setD split: if_splits)
  then have hand: "?t = 0 \<Longrightarrow> set (lines_in_hand st') = set (lines_in_hand st)"
    "?t \<noteq> 0 \<Longrightarrow> set (lines_in_hand st') = set (lines_in_hand st) - {?t} \<and> ?t \<in> set (lines_in_hand st)"
    by (simp_all split: if_splits)
  show ?thesis
  proof (cases "?t = 0")
    case True
    then have "is_fatal (o_action o')" using z by simp
    then show ?thesis using True hand unfolding acts
      by (auto simp: outcome_acts_def fl_abs_def fl_report_def flds f is_fatal_def split: action.splits)
  next
    case False
    then show ?thesis using hand unfolding acts
      by (cases "o_action o'") (simp_all add: outcome_acts_def fl_abs_def fl_report_def flds f is_fatal_def)
  qed
qed

lemma fl_quiet_acts:
  assumes inv: "fl_inv skip content n st" and L: "length content < 2 ^ 64 - 1" and step: "fl_step X w skip st ev = Some st'"
    and ev: "ev \<noteq> FReader" "ev \<noteq> FConsume"
  shows "fl_abs st' = fl_abs st" "fl_report st' = fl_report st" "fl_acts X skip st ev = []"
proof -
  let ?s = "fl_proc st"
  note defs = fl_abs_def fl_report_def lines_in_hand_def work_tags_def real_tags_def
  have rx: "ch_rx (result_ch ?s)" using inv by (simp add: fl_inv_def sentinels_ok_def)
  show "fl_acts X skip st ev = []" using ev by (cases ev) (simp_all add: fl_acts_def)
  have "fl_abs st' = fl_abs st \<and> fl_report st' = fl_report st"
  proof (cases ev)
    case (FNoEngine msg)
    then have st': "st' = st\<lparr>fl_proc := signal_fatal msg (?s\<lparr>glob := mark_fatal (glob ?s)\<rparr>), fl_alive := fl_alive st - 1\<rparr>"
      using step by (auto simp: fl_step_def Let_def split: if_splits)
    have "fl_report st' = fl_report st" using signal_fatal_adds [of ?s msg] by (simp add: st' fl_report_def same_adds_def)
    then show ?thesis using rx by (simp add: st' fl_abs_def lines_in_hand_def work_tags_def real_tags_def signal_fatal_buf)
  next
    case FPick
    then obtain item rest where b: "ch_buf (work_ch ?s) = item # rest"
      and st': "st' = st\<lparr>fl_proc := begin_load X w item (?s\<lparr>work_ch := (work_ch ?s)\<lparr>ch_buf := rest\<rparr>\<rparr>),
          fl_busy := fl_busy st @ [item]\<rparr>"
      using step by (auto elim: fl_pickE)
    show ?thesis by (auto simp: st' defs b begin_load_fields)
  next
    case (FFinish j el)
    then obtain act s1 where j: "j < length (fl_busy st)" and a: "load_action X w (fl_busy st ! j) ?s = (act, s1)"
      and st': "st' = st\<lparr>fl_proc := snd (finish_load (fl_busy st ! j) act el s1),
          fl_alive := (if fst (finish_load (fl_busy st ! j) act el s1) then fl_alive st else fl_alive st - 1),
          fl_busy := take j (fl_busy st) @ drop (Suc j) (fl_busy st), fl_acted := fl_acted st @ [(fl_busy st ! j, act)]\<rparr>"
      using step by (auto elim: fl_finishE)
    note k = load_action_fields [OF a]
    let ?s' = "snd (finish_load (fl_busy st ! j) act el s1)" and ?tag = "delivery_tag (fl_busy st ! j)"
    have "?tag \<in> set (lines_in_hand st)" using j by (simp add: lines_in_hand_def)
    then have nz: "?tag \<noteq> 0" using fl_inv_contract(3) [OF inv L] by metis
    have "mset (map delivery_tag (take j (fl_busy st) @ drop (Suc j) (fl_busy st))) + {#?tag#} = mset (map delivery_tag (fl_busy st))"
      using mset_take_nth_drop [OF j] by (metis image_mset_union image_mset_single mset_map)
    then have "insert ?tag (set (map delivery_tag (take j (fl_busy st) @ drop (Suc j) (fl_busy st)))) = set (map delivery_tag (fl_busy st))"
      by (metis add_mset_add_single set_mset_add_mset_insert set_mset_mset)
    moreover have "real_tags ?s' = real_tags ?s @ [?tag]" "work_tags ?s' = work_tags ?s"
      using nz rx by (simp_all add: real_tags_def work_tags_def finish_load_effect k outcome_of_def)
    ultimately have "set (lines_in_hand st') = set (lines_in_hand st)" by (auto simp: lines_in_hand_def st')
    moreover have "ADDS_PROCESSED (glob ?s') = ADDS_PROCESSED (glob ?s)" "ADDS_REJECTED (glob ?s') = ADDS_REJECTED (glob ?s)"
      using finish_load_adds [of s1 "fl_busy st ! j" act el] by (simp_all add: same_adds_def k(3))
    ultimately show ?thesis by (simp add: fl_abs_def fl_report_def st')
  qed (use step ev in \<open>auto simp: fl_step_def Let_def defs\<close>)
  then show "fl_abs st' = fl_abs st" "fl_report st' = fl_report st" by blast+
qed

lemma fl_event_acts:
  assumes "fl_ok skip content st" "fl_step X w skip st ev = Some st'"
  shows "k_run (fl_abs st) (fl_acts X skip st ev) = Some (fl_abs st') \<and>
    fl_report st' = fold report_act (fl_acts X skip st ev) (fl_report st)"
proof -
  obtain n where n: "fl_inv skip content n st" "length content < 2 ^ 64 - 1" using assms(1) by (auto simp: fl_ok_def)
  consider "ev = FReader" | "ev = FConsume" | "ev \<noteq> FReader" "ev \<noteq> FConsume" by blast
  then show ?thesis
  proof cases
    case 3
    from fl_quiet_acts [OF n assms(2) this] show ?thesis by simp
  qed (use fl_reader_acts [OF n] fl_consume_acts [OF n] assms(2) in blast)+
qed

interpretation file_loader: observed_consumer "fl_step X w skip" "fl_ok skip content" "fl_acts X skip" fl_abs fl_report report_act
  for X :: "('w, 'e) ext" and w :: worker_ctx and skip :: u64 and content :: "line_read list"
proof unfold_locales
  show "\<And>st ev st'. fl_ok skip content st \<Longrightarrow> fl_step X w skip st ev = Some st' \<Longrightarrow> fl_ok skip content st'"
    unfolding fl_ok_def using fl_inv_step by blast
qed (use fl_event_acts in blast)+

section \<open>The lines arrive in the order of the file\<close>

lemma fl_acts_arrive_once: "length (arrivals (fl_acts X skip st ev)) \<le> 1"
  by (auto simp: fl_acts_def outcome_acts_def Let_def split: fl_event.split reader.split list.split sum.split action.split)

lemma lines_from_extend: "n \<le> n' \<Longrightarrow> \<exists>more. lines_from skip n' = lines_from skip n @ more"
proof (induction n' rule: dec_induct)
  case (step m)
  then have "\<exists>more. lines_from skip (Suc m) = lines_from skip m @ more" by (simp add: lines_from_def)
  with step.IH show ?case by auto
qed simp

lemma fl_step_arrivals:
  assumes inv: "fl_inv skip content n st" and L: "length content < 2 ^ 64 - 1" and step: "fl_step X w skip st ev = Some st'"
  shows "\<exists>n'. fl_inv skip content n' st' \<and> lines_from skip n' = lines_from skip n @ arrivals (fl_acts X skip st ev)"
proof -
  obtain n' where n': "n \<le> n'" "fl_inv skip content n' st'" using fl_inv_step [OF step inv L] by blast
  obtain more where more: "lines_from skip n' = lines_from skip n @ more" using lines_from_extend [OF n'(1)] by blast
  have run: "k_run (fl_abs st) (fl_acts X skip st ev) = Some (fl_abs st')"
    using fl_event_acts [OF _ step] inv L by (auto simp: fl_ok_def)
  have "n' \<le> length content" using n'(2) readable_le [of content] by (simp add: fl_inv_def reader_at_def)
  then have "distinct (lines_from skip n')" using L by (intro lines_from_distinct) simp
  then have d: "distinct more" "set more \<inter> set (lines_from skip n) = {}" by (auto simp: more)
  moreover have "set (lines_from skip n) \<union> set more = set (lines_from skip n) \<union> set (arrivals (fl_acts X skip st ev))"
    using k_run_amounts [OF run] fl_inv_contract(2) [OF inv L] fl_inv_contract(2) [OF n'(2) L] by (simp add: more)
  moreover have "set (arrivals (fl_acts X skip st ev)) \<inter> set (lines_from skip n) = {}"
    using k_run_arrivals [OF run] fl_inv_contract(2) [OF inv L] by simp
  ultimately have "set more = set (arrivals (fl_acts X skip st ev))" by blast
  then have "mset more = mset (arrivals (fl_acts X skip st ev))"
    using d(1) conjunct1 [OF k_run_arrivals [OF run]] set_eq_iff_mset_eq_distinct by blast
  then have "more = arrivals (fl_acts X skip st ev)"
    using fl_acts_arrive_once [of X skip st ev] by (cases "arrivals (fl_acts X skip st ev)") auto
  then show ?thesis using n'(2) more by blast
qed

lemma fl_run_arrivals:
  "run_of (fl_step X w skip) st es = Some st' \<Longrightarrow> fl_inv skip content n st \<Longrightarrow> length content < 2 ^ 64 - 1 \<Longrightarrow>
     \<exists>n'. fl_inv skip content n' st' \<and> lines_from skip n' = lines_from skip n @ arrivals (fl_trace X w skip st es)"
proof (induction es arbitrary: st n)
  case (Cons e es)
  then obtain st1 where st1: "fl_step X w skip st e = Some st1" "run_of (fl_step X w skip) st1 es = Some st'"
    by (auto split: option.splits)
  from fl_step_arrivals [OF Cons.prems(2,3) st1(1)] obtain n1 where
    n1: "fl_inv skip content n1 st1" "lines_from skip n1 = lines_from skip n @ arrivals (fl_acts X skip st e)" by blast
  from Cons.IH [OF st1(2) n1(1) Cons.prems(3)] n1(2) show ?case by (auto simp: fl_trace_def st1(1))
qed (auto simp: fl_trace_def)

section \<open>Property\<close>

lemma fl_ok_init: "length content < 2 ^ 64 - 1 \<Longrightarrow> fl_ok skip content (fl_init s content skip k)"
  unfolding fl_ok_def using conjunct2 [OF fl_inv_init] by blast

lemma fl_abs_init: "fl_abs (fl_init s content skip k) = k_init"
  by (simp add: fl_abs_def fl_init_def k_init_def lines_in_hand_def work_tags_def real_tags_def feeding_def chan_new_def)

text \<open>C10: a file load is the abstract consumer carrying out, event by event, the actions the events stand
  for, whatever the schedule: the lines arrive one by one in the order of the file; a line is settled when it is
  read, if it is blank or not a record, or else when its outcome is consumed, and left when that is fatal or it
  cannot be handed over; every action is allowed when it happens; the lines in the channels, the workers and
  the reader's hand are the pending ones; and the two counters and the tracker are what these actions say.\<close>

theorem file_loader_refines_contract:
  assumes "fl_run X w skip (fl_init s content skip k) es = Some st" "length content < 2 ^ 64 - 1"
  shows "let acts = fl_trace X w skip (fl_init s content skip k) es
    in (\<exists>c. k_run k_init acts = Some c \<and> k_pending c = set (lines_in_hand st)) \<and>
      (\<exists>n \<le> readable content. arrivals acts = lines_from skip n) \<and>
      ADDS_PROCESSED (glob (fl_proc st)) = ADDS_PROCESSED (glob s) + of_nat (verdicts Accepted acts) \<and>
      ADDS_REJECTED (glob (fl_proc st)) = ADDS_REJECTED (glob s) + of_nat (verdicts Refused acts) \<and>
      fl_tracker st = fold complete_line (map snd (settlements acts)) (tracker_new (skip + 1))"
proof -
  let ?s = "fl_init s content skip k"
  let ?acts = "fl_trace X w skip ?s es"
  note run = assms(1) [unfolded fl_run_run_of]
  have "k_run k_init ?acts = Some (fl_abs st)"
    using file_loader.refines [OF run fl_ok_init [OF assms(2)]] by (simp add: fl_trace_def fl_abs_init)
  moreover have "k_pending (fl_abs st) = set (lines_in_hand st)" by (simp add: fl_abs_def)
  moreover obtain n where n: "fl_inv skip content n st" "lines_from skip n = lines_from skip 0 @ arrivals ?acts"
    using fl_run_arrivals [OF run conjunct2 [OF fl_inv_init] assms(2)] by blast
  then have "n \<le> readable content \<and> arrivals ?acts = lines_from skip n"
    by (simp add: fl_inv_def reader_at_def lines_from_def)
  moreover have "fl_report st = fold report_act ?acts (fl_report ?s)"
    using file_loader.observation [OF run fl_ok_init [OF assms(2)]] by (simp add: fl_trace_def)
  then have "ADDS_PROCESSED (glob (fl_proc st)) = ADDS_PROCESSED (glob s) + of_nat (verdicts Accepted ?acts)"
    "ADDS_REJECTED (glob (fl_proc st)) = ADDS_REJECTED (glob s) + of_nat (verdicts Refused ?acts)"
    "fl_tracker st = fold complete_line (map snd (settlements ?acts)) (tracker_new (skip + 1))"
    by (simp_all add: fl_report_def fold_report_act fl_init_def)
  ultimately show ?thesis unfolding Let_def by blast
qed

text \<open>From any reachable state on, a line only moves forward.\<close>

lemma file_line_never_goes_back:
  assumes "fl_run X w skip (fl_init s content skip k) es = Some st" "fl_run X w skip st es' = Some st'"
    "length content < 2 ^ 64 - 1"
  shows "standing_of (fl_abs st) t \<le> standing_of (fl_abs st') t"
  using file_loader.never_goes_back [OF assms(2) [unfolded fl_run_run_of]
      file_loader.inv_run [OF assms(1) [unfolded fl_run_run_of] fl_ok_init [OF assms(3)]]] .

text \<open>Three lines, the second of them not a record; a worker overtakes another.\<close>

lemma demo_file_trace:
  "fl_trace demo_ext demo_ctx 0 demo_file_start demo_file_run =
     [Arrive 1, Arrive 2, Settle Refused 2, Arrive 3, Settle Accepted 3]"
  by (simp add: fl_trace_def fl_acts_def demo_file_defs outcome_acts_def outcome_of_def malformed_def is_err_def)

theorem file_loader_refines_contract_witness:
  "\<exists>st c. fl_run demo_ext demo_ctx 0 demo_file_start demo_file_run = Some st \<and>
     k_run k_init [Arrive 1, Arrive 2, Settle Refused 2, Arrive 3, Settle Accepted 3] = Some c \<and> k_pending c = {1} \<and>
     set (lines_in_hand st) = {1} \<and> ADDS_PROCESSED (glob (fl_proc st)) = 1 \<and> ADDS_REJECTED (glob (fl_proc st)) = 1 \<and>
     fl_tracker st = fold complete_line [2, 3] (tracker_new 1)"
proof -
  obtain st where r: "fl_run demo_ext demo_ctx 0 demo_file_start demo_file_run = Some st" using demo_file_runs by blast
  have "ADDS_PROCESSED (glob demo_proc) = 0" "ADDS_REJECTED (glob demo_proc) = 0"
    by (simp_all add: demo_proc_def init_globals_def)
  moreover obtain c where c: "k_run k_init [Arrive 1, Arrive 2, Settle Refused 2, Arrive 3, Settle Accepted 3] = Some c"
    "k_pending c = {1}" by (auto simp: k_init_def k_known_def)
  moreover note file_loader_refines_contract [OF r [unfolded demo_file_start_def]]
  ultimately show ?thesis
    using r unfolding Let_def demo_file_trace [unfolded demo_file_start_def] by auto
qed

end
