(* ===== verification/Sz_Rabbit_Progress.thy ===== *)
theory Sz_Rabbit_Progress
  imports Sz_Rabbit_System Sz_Progress
begin

text \<open>
  The one place where the async task of the RabbitMQ run waits without reading outcomes, signals or
  timers: the inner \<open>select!\<close> in which it hands a delivery to the workers. Nothing else empties the
  channel of outcomes meanwhile, so a worker could wait for the task and the task for a worker. Shown
  here: they do not, whatever the prefetch, because the outer \<open>select!\<close> is biased and has found no outcome
  when it takes a delivery. The contract is the interface \<open>progress\<close>.
\<close>

section \<open>The channels and the workers of a reachable state\<close>

definition hand_ok :: "nat \<Rightarrow> load_item chan \<Rightarrow> outcome chan \<Rightarrow> nat \<Rightarrow> nat \<Rightarrow> bool" where
  "hand_ok k w r busy alive \<longleftrightarrow> ch_rx w \<and> ch_rx r \<and> ch_cap w = k \<and> ch_cap r = k * 2 \<and>
     length (ch_buf w) \<le> k \<and> busy \<le> alive \<and> alive \<le> k"

definition hand_shape :: "nat \<Rightarrow> 'w sys \<Rightarrow> bool" where
  "hand_shape k st \<longleftrightarrow> hand_ok k (work_ch (y_proc st)) (result_ch (y_proc st)) (length (y_busy st)) (y_alive st)"

lemma hand_shape_init: "hand_shape k (sys_init s now k fetcher)"
  by (simp add: hand_shape_def hand_ok_def sys_init_def rabbit_new_def chan_new_def)

lemma loop_tail_channels:
  assumes "same_channels s (rb_proc rb)"
  shows "work_ch (y_proc (loop_tail rb st)) = work_ch s \<or> work_ch (y_proc (loop_tail rb st)) = chan_drop_sender (work_ch s)"
    "result_ch (y_proc (loop_tail rb st)) = result_ch s" "y_alive (loop_tail rb st) = y_alive st"
    "y_busy (loop_tail rb st) = y_busy st" "y_fetcher (loop_tail rb st) = y_fetcher st"
    "y_phase (loop_tail rb st) = MLoop \<or> y_phase (loop_tail rb st) = MDraining"
    "y_phase (loop_tail rb st) = MLoop \<Longrightarrow> work_ch (y_proc (loop_tail rb st)) = work_ch s"
  using assms by (auto simp: loop_tail_def enter_drain_def same_channels_def Let_def)

lemma hand_shape_tail:
  assumes "hand_shape k st" "same_channels (y_proc st) (rb_proc rb)"
  shows "hand_shape k (loop_tail rb st)"
  using loop_tail_channels [OF assms(2), of st] assms(1)
  by (auto simp: hand_shape_def hand_ok_def chan_drop_sender_def)

lemma recv_shape: "chan_recv ch = (Item x, ch') \<Longrightarrow> ch = ch'\<lparr>ch_buf := x # ch_buf ch'\<rparr>"
  by (auto simp: chan_recv_def split: list.splits if_splits)

lemma on_delivery_channels: "on_delivery f now d rb = (rb', it) \<Longrightarrow> same_channels (rb_proc rb) (rb_proc rb')"
  by (auto simp: on_delivery_def split: delivery.splits sum.splits)

lemma outcome_channels:
  assumes "chan_recv (result_ch (rb_proc rb)) = (Item o', ch)"
  shows "same_channels ((rb_proc rb)\<lparr>result_ch := ch\<rparr>) (rb_proc (on_outcome now o' (with_result_ch ch rb)))"
    "same_channels ((rb_proc rb)\<lparr>result_ch := ch\<rparr>) (rb_proc (drain_outcome o' (with_result_ch ch rb)))"
  using on_outcome_effect(3) [of "with_result_ch ch rb" now o'] drain_outcome_effect(3) [of "with_result_ch ch rb" o']
  by simp_all

lemma finish_channels:
  assumes "load_action X c item s = (act, s1)" "finish_load item act e s1 = (kg, s2)" "ch_rx (result_ch s)"
  shows "work_ch s2 = work_ch s"
    "result_ch s2 = (result_ch s)\<lparr>ch_buf := ch_buf (result_ch s) @ [outcome_of item act]\<rparr>"
  using finish_load_sends(1) [OF assms(2)] finish_load_result [OF _ assms(2)] assms(3)
    only_world_fields [OF conjunct1 [OF load_action_justified [OF assms(1)]]] by simp_all

lemma begin_load_channels:
  "work_ch (begin_load X c item s) = work_ch s" "result_ch (begin_load X c item s) = result_ch s"
  using only_world_fields [OF poll_p_only_world [where X = X and c = c and s = s]]
  by (simp_all add: begin_load_def Let_def)

lemma report_fatal_fields:
  assumes "ch_rx (result_ch (y_proc st))"
  shows "work_ch (y_proc (report_fatal msg st)) = work_ch (y_proc st)"
    "\<exists>o'. result_ch (y_proc (report_fatal msg st)) = (result_ch (y_proc st))\<lparr>ch_buf := ch_buf (result_ch (y_proc st)) @ [o']\<rparr>"
    "y_busy (report_fatal msg st) = y_busy st" "y_alive (report_fatal msg st) = y_alive st"
    "y_fetcher (report_fatal msg st) = y_fetcher st" "y_phase (report_fatal msg st) = y_phase st"
  using assms by (auto simp: report_fatal_def signal_fatal_def send_outcome_p_def chan_blocking_send_def Let_def)

lemma drop_sender_fields:
  "work_ch (y_proc (drop_sender st)) = work_ch (y_proc st)"
  "result_ch (y_proc (drop_sender st)) = chan_drop_sender (result_ch (y_proc st))"
  "y_busy (drop_sender st) = y_busy st" "y_alive (drop_sender st) = y_alive st"
  "y_fetcher (drop_sender st) = y_fetcher st" "y_phase (drop_sender st) = y_phase st"
  by (simp_all add: drop_sender_def)

section \<open>The hand-over\<close>

lemma monitor_channels: "same_channels (rb_proc st) (rb_proc (monitor_long_records now long k st))"
proof -
  have "same_channels (rb_proc st) (rb_proc (fold reject_long tags st))" for tags and st :: "'w rabbit"
  proof (induction tags arbitrary: st)
    case (Cons t tags)
    have "same_channels (rb_proc st) (rb_proc (reject_long t st))"
      by (simp add: reject_long_def split: option.splits)
    with Cons [of "reject_long t st"] show ?case by (simp add: same_channels_def)
  qed simp
  from this [of "print_rb (AllStuck k) st"] this [of st] show ?thesis
    by (simp add: monitor_long_records_def Let_def same_channels_def print_rb_def)
qed

text \<open>
  The outcomes that can be waiting, at most: those there, one for each item in the channel or with a
  worker, one last fatal report of each thread. The work left: an item in the channel has to be taken and
  finished, an item of a worker finished; a thread can end; the task can take its delivery.
\<close>

definition promised :: "'w sys \<Rightarrow> nat" where
  "promised st = length (outcomes (y_rb st)) + length (work_items (y_rb st)) + length (y_busy st) + y_alive st +
     (if y_fetcher st then 1 else 0)"

definition send_left :: "'w sys \<Rightarrow> nat" where
  "send_left st = 2 * length (work_items (y_rb st)) + length (y_busy st) + y_alive st +
     (if y_fetcher st then 1 else 0) + (if y_phase st = MLoop then 1 else 0)"

text \<open>The steps from the moment the loop has found no outcome until the delivery is handed over: the task
  is in its loop, or in the send of \<open>item\<close>. A schedule is the list of the states it passes.\<close>

definition hand_over ::
  "('w, 'e) ext \<Rightarrow> worker_ctx \<Rightarrow> nat \<Rightarrow> usize \<Rightarrow> load_item \<Rightarrow> 'w sys \<Rightarrow> 'w sys \<Rightarrow> 'w sys option" where
  "hand_over X c long threads item st st' =
     (if rb_step X c long threads st st' \<and>
         (y_phase st' = MSending item \<or> y_phase st = MLoop \<and> y_phase st' = MLoop) then Some st' else None)"

definition hand_inv :: "nat \<Rightarrow> load_item \<Rightarrow> 'w sys \<Rightarrow> bool" where
  "hand_inv k item st \<longleftrightarrow> hand_shape k st \<and> promised st \<le> 3 * k + 1 \<and> (y_phase st = MLoop \<or> y_phase st = MSending item)"

definition hand_done :: "nat \<Rightarrow> load_item \<Rightarrow> 'w sys \<Rightarrow> bool" where
  "hand_done k item st \<longleftrightarrow> y_phase st \<noteq> MSending item \<or> length (work_items (y_rb st)) < k \<or> y_alive st = 0"

lemmas hand_defs = hand_shape_def hand_ok_def promised_def send_left_def work_items_def outcomes_def

lemma hand_same:
  assumes "same_channels (y_proc st) (y_proc st')" "y_busy st' = y_busy st" "y_alive st' = y_alive st" "y_fetcher st' = y_fetcher st"
  shows "hand_shape k st' = hand_shape k st" "promised st' = promised st"
    "y_phase st' = MLoop \<longrightarrow> y_phase st = MLoop \<Longrightarrow> send_left st' \<le> send_left st"
  using assms by (simp_all add: hand_defs same_channels_def)

lemma hand_tail:
  assumes "hand_shape k st" "same_channels (y_proc st) (rb_proc rb)"
  shows "hand_shape k (loop_tail rb st)" "promised (loop_tail rb st) = promised st"
    "y_phase st = MLoop \<Longrightarrow> send_left (loop_tail rb st) \<le> send_left st"
  using loop_tail_channels [OF assms(2), of st] assms(1)
  by (auto simp: hand_defs chan_drop_sender_def)

text \<open>What every step does to the shape, the promised outcomes and the work left.\<close>

lemma hand_step:
  assumes "rb_step X c long threads st st'" "hand_shape k st"
  shows "hand_shape k st' \<and> (y_phase st' = MSending item \<or> y_phase st = MLoop \<and> y_phase st' = MLoop \<longrightarrow>
    promised st' \<le> promised st \<and> send_left st' \<le> send_left st)"
  using assms(1)
proof (cases rule: rb_step.cases)
  case (deliver_bad tag now data rb)
  note d = on_delivery_channels [OF deliver_bad(5)]
  show ?thesis using hand_same [where st = st and st' = st'] d assms(2) deliver_bad(1,2) by simp
next
  case (deliver_good tag now data rb item')
  note d = on_delivery_channels [OF deliver_good(5)]
  show ?thesis using hand_same [where st = st and st' = st'] d assms(2) deliver_good(1,2) by auto
next
  case (stream_ends d now rb)
  then show ?thesis using hand_tail [OF assms(2) on_delivery_channels [OF stream_ends(4)]] by simp
next
  case (send item' ch)
  have "work_ch (y_proc st') = (work_ch (y_proc st))\<lparr>ch_buf := ch_buf (work_ch (y_proc st)) @ [item']\<rparr>"
    "length (ch_buf (work_ch (y_proc st))) < ch_cap (work_ch (y_proc st))"
    using send by (auto simp: chan_send_def split: if_splits)
  then show ?thesis using assms(2) send(1,2) by (simp add: hand_defs)
next
  case (send_fails item')
  then show ?thesis using assms(2) by (simp add: hand_shape_def hand_ok_def)
next
  case (notified item')
  have t: "same_channels (y_proc st) (rb_proc (on_notified (y_rb st)))" by simp
  show ?thesis using hand_tail [OF assms(2) t] loop_tail_channels(6) [OF t, of st] notified by auto
next
  case signal
  have t: "same_channels (y_proc st) (rb_proc (on_signal (y_rb st)))" by simp
  show ?thesis using hand_tail [OF assms(2) t] signal by simp
next
  case (outcome o' ch now)
  let ?st = "with_proc ((y_proc st)\<lparr>result_ch := ch\<rparr>) (st\<lparr>y_left := y_left st @ left_by o' (y_rb st)\<rparr>)"
  let ?rb = "on_outcome now o' (with_result_ch ch (y_rb st))"
  have r: "result_ch (y_proc st) = ch\<lparr>ch_buf := o' # ch_buf ch\<rparr>" using recv_shape [OF outcome(3)] .
  have s: "hand_shape k ?st" "promised ?st \<le> promised st" "send_left ?st = send_left st"
    using assms(2) by (simp_all add: hand_defs r)
  have t: "same_channels (y_proc ?st) (rb_proc ?rb)" using outcome_channels(1) [OF outcome(3)] by simp
  have eq: "loop_tail ?rb ?st = st'" by (simp add: outcome(1) loop_tail_def with_proc_def)
  show ?thesis using hand_tail [OF s(1) t] s(2,3) outcome(2) unfolding eq by simp
next
  case (monitor now)
  have "same_channels (y_proc st) (y_proc st')" using monitor(1) by (simp add: monitor_channels)
  then show ?thesis using hand_same [where st = st and st' = st'] assms(2) monitor(1,2) by simp
next
  case (drain o' ch)
  have r: "result_ch (y_proc st) = ch\<lparr>ch_buf := o' # ch_buf ch\<rparr>" using recv_shape [OF drain(4)] .
  have "same_channels ((y_proc st)\<lparr>result_ch := ch\<rparr>) (y_proc st')" using outcome_channels(2) [OF drain(4)] drain(1) by simp
  then show ?thesis using assms(2) drain(1,2) by (simp add: hand_defs same_channels_def r)
next
  case (settle ch)
  have "rb_proc (settle_remaining (y_rb st)) = y_proc st"
    using fold_settle_one [of "started (y_proc st)" "rb_in_flight (y_rb st)" "(y_rb st)\<lparr>rb_in_flight := []\<rparr>"]
    by (simp add: settle_remaining_def)
  then show ?thesis using hand_same [where st = st and st' = st'] assms(2) settle(1) by simp
next
  case (pick item' ch)
  have r: "work_ch (y_proc st) = ch\<lparr>ch_buf := item' # ch_buf ch\<rparr>" using recv_shape [OF pick(2)] .
  show ?thesis using assms(2) pick(3) by (simp add: pick(1) hand_defs begin_load_channels r y_idle_def)
next
  case (finish as item' bs act s1 elapsed kg s2)
  have "ch_rx (result_ch (y_proc st))" using assms(2) by (simp add: hand_shape_def hand_ok_def)
  note f = finish_channels [OF finish(3,4) this]
  show ?thesis using assms(2) by (simp add: finish(1,2) hand_defs f)
next
  case (worker_fatal msg)
  have "ch_rx (result_ch (y_proc st))" using assms(2) by (simp add: hand_shape_def hand_ok_def)
  note f = report_fatal_fields [OF this, of msg]
  obtain o' where "result_ch (y_proc (report_fatal msg st)) = (result_ch (y_proc st))\<lparr>ch_buf := ch_buf (result_ch (y_proc st)) @ [o']\<rparr>"
    using f(2) by blast
  with assms(2) worker_fatal(2) show ?thesis
    by (auto simp: worker_fatal(1) hand_defs f drop_sender_fields chan_drop_sender_def y_idle_def)
next
  case worker_ends
  with assms(2) show ?thesis by (auto simp: worker_ends(1) hand_defs drop_sender_fields chan_drop_sender_def y_idle_def)
next
  case (fetcher_fatal msg)
  have "ch_rx (result_ch (y_proc st))" using assms(2) by (simp add: hand_shape_def hand_ok_def)
  note f = report_fatal_fields [OF this, of msg]
  obtain o' where "result_ch (y_proc (report_fatal msg st)) = (result_ch (y_proc st))\<lparr>ch_buf := ch_buf (result_ch (y_proc st)) @ [o']\<rparr>"
    using f(2) by blast
  with assms(2) fetcher_fatal(2) show ?thesis
    by (auto simp: fetcher_fatal(1) hand_defs f drop_sender_fields chan_drop_sender_def)
next
  case fetcher_ends
  with assms(2) show ?thesis by (auto simp: fetcher_ends(1) hand_defs drop_sender_fields chan_drop_sender_def)
next
  case (elsewhere s)
  then show ?thesis using hand_same [where st = st and st' = st'] assms(2) by auto
qed

lemma hand_shape_reach:
  assumes "rb_reach X c long threads (sys_init s now k fetcher) st"
  shows "hand_shape k st"
  using assms by induction (auto intro: hand_shape_init dest: hand_step)

lemma hand_inv_next:
  assumes "hand_inv k item st" "hand_over X c long threads item st e = Some st'"
  shows "hand_inv k item st'" "send_left st' \<le> send_left st"
  using hand_step [of X c long threads st st' k item] assms
  by (auto simp: hand_inv_def hand_over_def split: if_splits)

text \<open>A full channel leaves room for the outcome of every busy worker, and an idle worker takes an item.\<close>

lemma hand_advance:
  assumes "hand_inv k item st" "\<not> hand_done k item st"
  shows "can_advance (hand_over X c long threads item) send_left st"
    "length (outcomes (y_rb st)) + length (y_busy st) \<le> k * 2"
proof -
  have p: "y_phase st = MSending item" "length (work_items (y_rb st)) = k" "0 < y_alive st" "y_alive st \<le> k"
    "length (y_busy st) \<le> y_alive st" and rx: "ch_rx (result_ch (y_proc st))"
    using assms by (auto simp: hand_inv_def hand_done_def hand_shape_def hand_ok_def work_items_def)
  show "length (outcomes (y_rb st)) + length (y_busy st) \<le> k * 2"
    using assms(1) p(2,3,5) by (simp add: hand_inv_def promised_def split: if_splits)
  have "\<exists>st'. rb_step X c long threads st st' \<and> y_phase st' = MSending item \<and> send_left st' < send_left st"
  proof (cases "y_busy st")
    case Nil
    obtain i rest where "ch_buf (work_ch (y_proc st)) = i # rest"
      using p(2-4) by (cases "ch_buf (work_ch (y_proc st))") (auto simp: work_items_def)
    then have r: "chan_recv (work_ch (y_proc st)) = (Item i, (work_ch (y_proc st))\<lparr>ch_buf := rest\<rparr>)"
      and b: "ch_buf (work_ch (y_proc st)) = i # rest" by (simp_all add: chan_recv_def)
    from rb_step.pick [OF r] Nil p(3) show ?thesis
      by (intro exI conjI) (auto simp: y_idle_def p(1) send_left_def work_items_def begin_load_channels b)
  next
    case (Cons i bs)
    then have busy: "y_busy st = [] @ i # bs" by simp
    obtain act s1 where la: "load_action X c i (y_proc st) = (act, s1)" by fastforce
    obtain kg s2 where fl: "finish_load i act 0 s1 = (kg, s2)" by fastforce
    from rb_step.finish [OF busy la fl] show ?thesis
      by (intro exI conjI) (auto simp: p(1) send_left_def work_items_def finish_channels [OF la fl rx] busy)
  qed
  then obtain st' where "rb_step X c long threads st st'" "y_phase st' = MSending item" "send_left st' < send_left st"
    by blast
  then have "hand_over X c long threads item st st' = Some st' \<and> send_left st' < send_left st" by (simp add: hand_over_def)
  then show "can_advance (hand_over X c long threads item) send_left st" unfolding can_advance_def by blast
qed

interpretation rabbit_send: progress "hand_over X c long threads item" "hand_inv k item" "hand_done k item" send_left
  for X :: "('w, 'e) ext" and c :: worker_ctx and long :: nat and threads :: usize and item :: load_item and k :: nat
  by unfold_locales (blast dest: hand_inv_next hand_advance)+

section \<open>Property\<close>

text \<open>C31: the RabbitMQ task never wedges with its workers while it hands over a delivery. From the
  moment its biased \<open>select!\<close> has found no outcome, at most \<open>4 * threads + 2\<close> steps are productive and none
  is undone; while it waits, there is room for the item, or every worker has left, or some worker can take
  its next step (a mixed worker first ends the redo record it may be in), and no worker that finishes has to
  wait: the channel has room for its outcome.\<close>

theorem rabbit_hand_over_never_wedges:
  assumes "rb_reach X c long threads (sys_init s now k fetcher) st0"
    and "y_phase st0 = MLoop" "outcomes (y_rb st0) = []"
    and "run_of (hand_over X c long threads item) st0 es = Some st"
  shows "strides (hand_over X c long threads item) send_left st0 es + send_left st \<le> 4 * k + 2 \<and>
    (y_phase st = MSending item \<longrightarrow>
       fst (chan_send (work_ch (y_proc st)) item) = Sent \<or> y_alive st = 0 \<or>
       can_advance (hand_over X c long threads item) send_left st \<and>
       length (outcomes (y_rb st)) + length (y_busy st) \<le> ch_cap (result_ch (y_proc st)))"
proof -
  have sh: "hand_shape k st0" using hand_shape_reach [OF assms(1)] .
  then have m: "hand_inv k item st0" and l: "send_left st0 \<le> 4 * k + 2"
    using assms(2,3) by (auto simp: hand_inv_def hand_defs)
  note inv = rabbit_send.inv_run [OF assms(4) m]
  have "strides (hand_over X c long threads item) send_left st0 es + send_left st \<le> 4 * k + 2"
    using rabbit_send.strides_bound [OF assms(4) m] l by simp
  moreover have "fst (chan_send (work_ch (y_proc st)) item) = Sent \<or> y_alive st = 0 \<or> \<not> hand_done k item st"
    if "y_phase st = MSending item"
    using inv that by (auto simp: hand_done_def hand_inv_def hand_shape_def hand_ok_def chan_send_def work_items_def)
  moreover have "ch_cap (result_ch (y_proc st)) = k * 2" using inv by (simp add: hand_inv_def hand_shape_def hand_ok_def)
  ultimately show ?thesis using hand_advance [OF inv] by metis
qed

text \<open>One worker; the first delivery arrives.\<close>

lemma demo_delivery:
  "\<exists>st. rb_step demo_ext demo_ctx 1 1 demo_sys st \<and> y_phase st = MSending demo_item"
proof -
  obtain rb where "on_delivery (json_parse demo_ext) 0 (Delivery 1 ''r1'') (y_rb demo_sys) = (rb, Some demo_item)"
    by (simp add: on_delivery_def parse_record_def demo_ext_def demo_json_def get_field_def demo_item_def)
  from rb_step.deliver_good [OF _ _ _ this] show ?thesis
    by (intro exI conjI) (auto simp: demo_sys_def sys_init_def)
qed

theorem rabbit_hand_over_never_wedges_witness:
  "\<exists>st. run_of (hand_over demo_ext demo_ctx 1 1 demo_item) demo_sys [st] = Some st \<and> y_phase st = MSending demo_item \<and>
     strides (hand_over demo_ext demo_ctx 1 1 demo_item) send_left demo_sys [st] + send_left st \<le> 6"
proof -
  obtain st where st: "rb_step demo_ext demo_ctx 1 1 demo_sys st" "y_phase st = MSending demo_item"
    using demo_delivery by blast
  then have r: "run_of (hand_over demo_ext demo_ctx 1 1 demo_item) demo_sys [st] = Some st" by (simp add: hand_over_def)
  have "y_phase demo_sys = MLoop" "outcomes (y_rb demo_sys) = []"
    by (simp_all add: demo_sys_def sys_init_def rabbit_new_def outcomes_def chan_new_def)
  from rabbit_hand_over_never_wedges [OF rb_reach.start [of _ _ _ _ demo_sys, unfolded demo_sys_def] this [unfolded demo_sys_def]
      r [unfolded demo_sys_def]] r st(2)
  show ?thesis unfolding demo_sys_def by auto
qed

end
