(* ===== verification/Sz_Unit_Tests.thy ===== *)
theory Sz_Unit_Tests
  imports Sz_File_Loader
begin

text \<open>
  The unit tests the repository carries for its pure code, on the definitions of this development: each
  \<open>#[test]\<close> function is a boolean definition under its name, its assertions in their order, and a lemma
  says that it holds. A JSON text is given by the value it denotes, an error of the SDK by what the test
  says of it, command line arguments by the declared defaults of the program with the flags of the test.
\<close>

section \<open>\<open>config.rs\<close>\<close>

definition redo_pref_count_endpoints :: bool where
  "redo_pref_count_endpoints \<longleftrightarrow>
     redo_preferring_count 12 0 = Some 0 \<and> redo_preferring_count 12 100 = Some 12 \<and>
     redo_preferring_count 1 0 = Some 0 \<and> redo_preferring_count 1 100 = Some 1"

definition redo_pref_count_rounds_and_clamps :: bool where
  "redo_pref_count_rounds_and_clamps \<longleftrightarrow>
     redo_preferring_count 12 20 = Some 2 \<and> redo_preferring_count 12 17 = Some 2 \<and>
     redo_preferring_count 12 10 = Some 1 \<and> redo_preferring_count 12 1 = Some 1 \<and>
     redo_preferring_count 12 99 = Some 11 \<and> redo_preferring_count 2 50 = Some 1"

definition topology_requires_amqp_below_100 :: bool where
  "topology_requires_amqp_below_100 \<longleftrightarrow>
     is_err (validate_topology 12 0 None None) \<and> is_err (validate_topology 12 50 None (Some ''q'')) \<and>
     is_err (validate_topology 12 50 (Some ''amqp://x'') None) \<and>
     is_err (validate_topology 12 50 (Some []) (Some ''q'')) \<and>
     \<not> is_err (validate_topology 12 50 (Some ''amqp://x'') (Some ''q'')) \<and>
     \<not> is_err (validate_topology 12 100 None None)"

definition topology_requires_two_threads_for_interior_percent :: bool where
  "topology_requires_two_threads_for_interior_percent \<longleftrightarrow>
     is_err (validate_topology 1 50 (Some ''amqp://x'') (Some ''q'')) \<and>
     \<not> is_err (validate_topology 2 50 (Some ''amqp://x'') (Some ''q'')) \<and>
     \<not> is_err (validate_topology 1 0 (Some ''amqp://x'') (Some ''q'')) \<and>
     \<not> is_err (validate_topology 1 100 None None)"

text \<open>The share of a small pool, in integers.\<close>

lemma small_share:
  assumes "0 < pct" "pct < 100" "unat n * unat pct \<le> 2 ^ 52"
  shows "redo_preferring_count n pct = clamp 1 (sat_sub n 1) (of_nat ((unat n * unat pct + 50) div 100))"
proof -
  have "0 < unat pct" using assms(1) by (simp add: word_less_nat_alt)
  from raw_share [OF assms(3) this] interior_count [OF assms(1,2), of n] show ?thesis by simp
qed

lemma config_tests_pass:
  "redo_pref_count_endpoints" "redo_pref_count_rounds_and_clamps" "topology_requires_amqp_below_100"
  "topology_requires_two_threads_for_interior_percent"
proof -
  show "redo_pref_count_endpoints" by (simp add: redo_pref_count_endpoints_def redo_preferring_count_def)
  show "redo_pref_count_rounds_and_clamps"
    by (simp add: redo_pref_count_rounds_and_clamps_def small_share clamp_def sat_sub_def word_le_nat_alt word_less_nat_alt)
  show "topology_requires_amqp_below_100" "topology_requires_two_threads_for_interior_percent"
    by (simp_all add: topology_requires_amqp_below_100_def topology_requires_two_threads_for_interior_percent_def validate_topology_def)
qed

section \<open>\<open>record.rs\<close>\<close>

abbreviation parse_value :: "json option \<Rightarrow> parse_error + record_info" where
  "parse_value v \<equiv> parse_record (\<lambda>_. v) []"

definition parses_data_source_and_record_id :: bool where
  "parses_data_source_and_record_id \<longleftrightarrow>
     (case parse_value (Some (JObject [(''DATA_SOURCE'', JString ''TEST''), (''RECORD_ID'', JString ''R1''),
          (''NAME_FULL'', JString ''A B'')])) of
        Inr ri \<Rightarrow> data_source ri = ''TEST'' \<and> record_id ri = ''R1''
      | Inl _ \<Rightarrow> False)"

definition missing_data_source_is_dead_lettered :: bool where
  "missing_data_source_is_dead_lettered \<longleftrightarrow>
     parse_value (Some (JObject [(''RECORD_ID'', JString ''R1''), (''NAME_FULL'', JString ''A B'')])) =
       Err (MissingField ''DATA_SOURCE'')"

definition missing_record_id_is_dead_lettered :: bool where
  "missing_record_id_is_dead_lettered \<longleftrightarrow>
     parse_value (Some (JObject [(''DATA_SOURCE'', JString ''TEST'')])) = Err (MissingField ''RECORD_ID'')"

definition non_string_field_is_dead_lettered :: bool where
  "non_string_field_is_dead_lettered \<longleftrightarrow>
     parse_value (Some (JObject [(''DATA_SOURCE'', JNumber (JUInt 123)), (''RECORD_ID'', JString ''R1'')])) =
       Err (MissingField ''DATA_SOURCE'')"

definition invalid_json_is_dead_lettered :: bool where
  "invalid_json_is_dead_lettered \<longleftrightarrow> parse_value None = Err InvalidJson"

definition json_scalar_is_not_an_object :: bool where
  "json_scalar_is_not_an_object \<longleftrightarrow> parse_value (Some (JNumber (JUInt 42))) = Err NotAnObject"

lemma parse_tests_pass:
  "parses_data_source_and_record_id" "missing_data_source_is_dead_lettered" "missing_record_id_is_dead_lettered"
  "non_string_field_is_dead_lettered" "invalid_json_is_dead_lettered" "json_scalar_is_not_an_object"
  by (simp_all add: parses_data_source_and_record_id_def missing_data_source_is_dead_lettered_def
      missing_record_id_is_dead_lettered_def non_string_field_is_dead_lettered_def invalid_json_is_dead_lettered_def
      json_scalar_is_not_an_object_def parse_record_def get_field_def)

text \<open>The error classes: bad input, retryable, native code 82, neither.\<close>

record test_error =
  te_bad_input :: bool
  te_retryable :: bool
  te_code :: "i64 option"

definition test_sdk :: "test_error err_api" where
  "test_sdk = \<lparr>is_bad_input = te_bad_input, is_retryable = te_retryable, error_code = te_code, err_display = (\<lambda>_. [])\<rparr>"

definition error_class_tests :: bool where
  "error_class_tests \<longleftrightarrow>
     classify_error test_sdk \<lparr>te_bad_input = True, te_retryable = False, te_code = None\<rparr> = BadInputOrTimeout \<and>
     classify_error test_sdk \<lparr>te_bad_input = False, te_retryable = True, te_code = None\<rparr> = BadInputOrTimeout \<and>
     classify_error test_sdk \<lparr>te_bad_input = False, te_retryable = False, te_code = Some 82\<rparr> = BadInputOrTimeout \<and>
     classify_error test_sdk \<lparr>te_bad_input = False, te_retryable = False, te_code = None\<rparr> = FatalClass"

definition logging_id_tests :: bool where
  "logging_id_tests \<longleftrightarrow>
     logging_id (\<lambda>_. Some (JObject [(''DATA_SOURCE'', JString ''TEST''), (''RECORD_ID'', JString ''42'')])) [] = ''TEST : 42'' \<and>
     logging_id (\<lambda>_. Some (JObject [(''UMF_PROC'', JObject [(''PARAMS'',
         JArray [JObject [(''PARAM'', JObject [(''VALUE'', JString ''99'')])]])])])) [] = ''99 : REPAIR_ENTITY'' \<and>
     logging_id (\<lambda>_. None) [] = ''UNKNOWN RECORD''"

lemma record_tests_pass: "error_class_tests" "logging_id_tests"
  by (simp_all add: error_class_tests_def classify_error_def test_sdk_def SENZ_DQM_ERROR_CODE_def logging_id_tests_def logging_id_def)

section \<open>\<open>stats.rs\<close>\<close>

definition f64_epsilon :: f64 where "f64_epsilon = 1 / 2 ^ 52"

definition ewma_first_sample_is_identity :: bool where
  "ewma_first_sample_is_identity \<longleftrightarrow>
     (let e = ewma_new (f64_rnd (3 / 10))
      in ew_value e = None \<and> \<bar>f64_sub (fst (ewma_update e 10)) 10\<bar> < f64_epsilon)"

definition ewma_converges_toward_samples :: bool where
  "ewma_converges_toward_samples \<longleftrightarrow>
     (let e = snd (ewma_update (ewma_new (1 / 2)) 0); v = fst (ewma_update e 10)
      in \<bar>f64_sub v 5\<bar> < f64_epsilon)"

text \<open>A guard fed with a list of observations, and what it emits.\<close>

fun observes :: "floor_guard \<Rightarrow> observation list \<Rightarrow> guard_transition list" where
  "observes g [] = []"
| "observes g ((r, b, d) # obs) = (case observe g r b d of (tr, g') \<Rightarrow> tr # observes g' obs)"

definition floor_guard_trips_after_k_flat_intervals_and_clears :: bool where
  "floor_guard_trips_after_k_flat_intervals_and_clears \<longleftrightarrow>
     (let trs = observes floor_guard_default
            ((100, Some 50, None) # map (\<lambda>i. (100 + of_nat i, Some 50, None)) [1..<6] @ [(200, Some 500, None)]);
          tripped_at = filter (\<lambda>i. trs ! i = Tripped) [1..<6]
      in hd trs = Unchanged \<and> tripped_at \<noteq> [] \<and> last tripped_at = unat FLOOR_GUARD_INTERVALS \<and> last trs = Cleared)"

definition floor_guard_not_suspicious_while_mq_busy :: bool where
  "floor_guard_not_suspicious_while_mq_busy \<longleftrightarrow>
     tl (observes floor_guard_default (map (\<lambda>i. (100 + of_nat i, Some 50, Some 10)) [0..<11])) = replicate 10 Unchanged"

definition floor_guard_not_suspicious_without_redo_progress :: bool where
  "floor_guard_not_suspicious_without_redo_progress \<longleftrightarrow>
     tl (observes floor_guard_default (replicate 11 (100, Some 50, None))) = replicate 10 Unchanged"

definition mode_derivation :: bool where
  "mode_derivation \<longleftrightarrow>
     (let s = \<lparr>sl_redo_percent = 20, sl_load_pref = 10, sl_redo_pref = 2, sl_adds = 0, sl_adds_rate = 0, sl_redos = 0,
               sl_redos_rate = 0, sl_mq_depth = Some 5, sl_redo_backlog = None, sl_redo_backlog_slope = None\<rparr>
      in mode s = ''mixed'' \<and> mode (s\<lparr>sl_mq_depth := Some 0\<rparr>) = ''redo_drain'' \<and>
         mode (s\<lparr>sl_mq_depth := Some 0, sl_redo_percent := 0\<rparr>) = ''load_only'' \<and>
         mode (s\<lparr>sl_mq_depth := Some 0, sl_redo_percent := 100\<rparr>) = ''redo_only'')"

lemma ewma_tests_pass: "ewma_first_sample_is_identity" "ewma_converges_toward_samples"
proof -
  have r: "f64_rnd 0 = 0" "f64_rnd 5 = 5" "f64_rnd (1 / 2) = 1 / 2"
    using f64_rnd_of_int [of 0] f64_rnd_of_int [of 5] f64_rnd_exact [of "1 / 2" 1 "- 1"] by (simp_all add: power_int_minus)
  then show "ewma_first_sample_is_identity" "ewma_converges_toward_samples"
    by (simp_all add: ewma_first_sample_is_identity_def ewma_converges_toward_samples_def ewma_new_def ewma_update_def
        f64_add_def f64_mul_def f64_sub_def f64_epsilon_def Let_def)
qed

lemma guard_tests_pass:
  "floor_guard_trips_after_k_flat_intervals_and_clears" "floor_guard_not_suspicious_while_mq_busy"
  "floor_guard_not_suspicious_without_redo_progress" "mode_derivation"
proof -
  show "floor_guard_trips_after_k_flat_intervals_and_clears" by code_simp
  show "floor_guard_not_suspicious_while_mq_busy" by code_simp
  show "floor_guard_not_suspicious_without_redo_progress" by code_simp
  show "mode_derivation" by (simp add: mode_derivation_def mode_def)
qed

section \<open>\<open>file_loader.rs\<close>\<close>

definition watermark_advances_contiguously_and_handles_out_of_order :: bool where
  "watermark_advances_contiguously_and_handles_out_of_order \<longleftrightarrow>
     (let t0 = tracker_new 6; t1 = complete_line 8 t0; t2 = complete_line 6 t1; t3 = complete_line 7 t2
      in watermark t0 = 5 \<and> watermark t1 = 5 \<and> watermark t2 = 6 \<and> watermark t3 = 8)"

definition watermark_ignores_lines_at_or_below_start :: bool where
  "watermark_ignores_lines_at_or_below_start \<longleftrightarrow>
     (let t = complete_line 3 (complete_line 2 (complete_line 1 (tracker_new 1)))
      in watermark t = 3 \<and> watermark (complete_line 2 t) = 3)"

lemma tracker_tests_pass:
  "watermark_advances_contiguously_and_handles_out_of_order" "watermark_ignores_lines_at_or_below_start"
  by (simp_all add: watermark_advances_contiguously_and_handles_out_of_order_def
      watermark_ignores_lines_at_or_below_start_def tracker_new_def complete_line_def advance.simps watermark_def Let_def)

section \<open>\<open>worker.rs\<close>\<close>

definition worker_flag_tests :: "('w, 'e) ext \<Rightarrow> bool" where
  "worker_flag_tests X \<longleftrightarrow>
     add_record_flags X True = Some SZ_WITH_INFO_BITS \<and> add_record_flags X False = Some (default_add_flags X) \<and>
     redo_flags True = Some SZ_WITH_INFO_BITS \<and> redo_flags False = None \<and> SZ_WITH_INFO_BITS = push_bit 62 1"

lemma worker_tests_pass: "worker_flag_tests X"
  by (simp add: worker_flag_tests_def add_record_flags_def redo_flags_def SZ_WITH_INFO_BITS_def)

section \<open>\<open>crates/sqs/src/main.rs\<close>\<close>

text \<open>The declared defaults of the two programs.\<close>

definition sqs_args_default :: sqs_args where
  "sqs_args_default =
     \<lparr>q_queue_url = None, q_visibility_timeout = DEFAULT_VISIBILITY_TIMEOUT_SECS, q_wait_time = DEFAULT_WAIT_TIME_SECS,
      q_max_messages = DEFAULT_MAX_MESSAGES, q_input_file = None, q_skip_lines = 0,
      q_redo_percent = DEFAULT_REDO_PERCENT, q_threads_per_process = 12, q_redo_sleep_secs = 60,
      q_long_record = DEFAULT_LONG_RECORD_SECS, q_info = False, q_debug_trace = False\<rparr>"

definition args_default :: args where
  "args_default =
     \<lparr>a_url = None, a_queue = None, a_input_file = None, a_skip_lines = 0, a_redo_percent = DEFAULT_REDO_PERCENT,
      a_threads_per_process = DEFAULT_THREADS, a_prefetch = None, a_mq_recheck_secs = DEFAULT_MQ_RECHECK_SECS,
      a_redo_sleep_secs = DEFAULT_REDO_SLEEP_SECS, a_long_record = DEFAULT_LONG_RECORD_SECS, a_info = False,
      a_debug_trace = False\<rparr>"

definition sqs_params_ok_with_queue_url_and_defaults :: bool where
  "sqs_params_ok_with_queue_url_and_defaults \<longleftrightarrow>
     (case sqs_params_of (sqs_args_default\<lparr>q_queue_url := Some ''https://sqs.example/q''\<rparr>) of
        Inr (p, _) \<Rightarrow> p_queue_url p = ''https://sqs.example/q'' \<and> p_wait_time p = DEFAULT_WAIT_TIME_SECS \<and>
          p_max_messages p = DEFAULT_MAX_MESSAGES
      | Inl _ \<Rightarrow> False)"

definition sqs_params_requires_queue_url :: bool where
  "sqs_params_requires_queue_url \<longleftrightarrow> is_err (sqs_params_of sqs_args_default)"

definition sqs_params_rejects_out_of_range_wait_time :: bool where
  "sqs_params_rejects_out_of_range_wait_time \<longleftrightarrow>
     is_err (sqs_params_of (sqs_args_default\<lparr>q_queue_url := Some ''u'', q_wait_time := 21\<rparr>)) \<and>
     \<not> is_err (sqs_params_of (sqs_args_default\<lparr>q_queue_url := Some ''u'', q_wait_time := 0\<rparr>))"

definition sqs_params_rejects_out_of_range_max_messages :: bool where
  "sqs_params_rejects_out_of_range_max_messages \<longleftrightarrow>
     is_err (sqs_params_of (sqs_args_default\<lparr>q_queue_url := Some ''u'', q_max_messages := 0\<rparr>)) \<and>
     is_err (sqs_params_of (sqs_args_default\<lparr>q_queue_url := Some ''u'', q_max_messages := 11\<rparr>)) \<and>
     \<not> is_err (sqs_params_of (sqs_args_default\<lparr>q_queue_url := Some ''u'', q_max_messages := 10\<rparr>))"

lemma sqs_params_tests_pass:
  "sqs_params_ok_with_queue_url_and_defaults" "sqs_params_requires_queue_url"
  "sqs_params_rejects_out_of_range_wait_time" "sqs_params_rejects_out_of_range_max_messages"
  by (simp_all add: sqs_params_ok_with_queue_url_and_defaults_def sqs_params_requires_queue_url_def
      sqs_params_rejects_out_of_range_wait_time_def sqs_params_rejects_out_of_range_max_messages_def
      sqs_params_of_def sqs_args_default_def DEFAULT_WAIT_TIME_SECS_def DEFAULT_MAX_MESSAGES_def)

text \<open>With nothing but the queue given, the RabbitMQ program runs 12 workers, 2 of them redo-preferring, and
  prefetches 14 deliveries; the SQS program does not warn about its visibility timeout.\<close>

lemma compiled_defaults:
  assumes "env_var h ''SENZING_ENGINE_CONFIGURATION_JSON'' = Some ec" "ec \<noteq> []" "from_str ec = Some v" "u \<noteq> []" "q \<noteq> []"
  shows "\<exists>c. resolve from_str h (args_default\<lparr>a_url := Some u, a_queue := Some q\<rparr>) = Ok c \<and> c_threads c = 12 \<and>
      c_prefetch c = 14 \<and> redo_pref_workers c = Some 2"
    "\<exists>p. sqs_params_of (sqs_args_default\<lparr>q_queue_url := Some u\<rparr>) = Ok (p, False)"
proof -
  have w: "redo_preferring_count 12 20 = Some 2"
    using config_tests_pass(2) by (simp add: redo_pref_count_rounds_and_clamps_def)
  have ne: "non_empty (Some ec) = Some ec" "non_empty (Some u) = Some u" "non_empty (Some q) = Some q"
    using assms(2,4,5) by simp_all
  show "\<exists>c. resolve from_str h (args_default\<lparr>a_url := Some u, a_queue := Some q\<rparr>) = Ok c \<and> c_threads c = 12 \<and>
      c_prefetch c = 14 \<and> redo_pref_workers c = Some 2"
    using assms w by (simp add: ne resolve_def args_default_def engine_config_from_env_def validate_topology_def
        DEFAULT_REDO_PERCENT_def DEFAULT_THREADS_def default_prefetch_def sat_add_def redo_pref_workers_def Let_def)
  show "\<exists>p. sqs_params_of (sqs_args_default\<lparr>q_queue_url := Some u\<rparr>) = Ok (p, False)"
    using assms(4) by (simp add: ne sqs_params_of_def sqs_args_default_def DEFAULT_WAIT_TIME_SECS_def DEFAULT_MAX_MESSAGES_def
        DEFAULT_VISIBILITY_TIMEOUT_SECS_def DEFAULT_LONG_RECORD_SECS_def)
qed

end
