(* ===== verification/Spec2Isabelle.thy ===== *)
theory Spec2Isabelle
  imports Sz_Programs Sz_Redo_System Sz_Rabbit_Contract Sz_Sqs_Contract Sz_File_Contract
    Sz_Rabbit_Progress Sz_Unit_Tests
begin

text \<open>
  A verification development for the combined Senzing load and redo driver: one process loads records
  from a RabbitMQ queue, an SQS queue or a file into the Senzing engine and processes the engine's redo
  records with the same pool of worker threads.

  \<^bold>\<open>The program.\<close> \<open>main\<close> resolves the configuration, initialises the engine and chooses one of three runs:
  the file run, the run at 100 percent redo, or the queue run. A run starts \<open>threads\<close> worker threads, a
  redo fetcher when redo is on, and its own part: reader and result consumer (file), monitor loop (redo),
  the async task (RabbitMQ), poller and main loop (SQS). They share a bounded work channel, a bounded redo
  channel, a bounded channel of outcomes, process-wide atomics, and the set of deliveries inside a worker.
  Every run ends in a bounded wait for the workers and the fetcher, and the process goes on to destroy the engine
  only if that wait saw them all finished; the statistics thread of the RabbitMQ run is not waited for.

  \<^bold>\<open>Theories and sources.\<close> Under \<open>crates/core/src\<close> unless another crate is named.
  \<^item> \<open>Sz_Prelude\<close>: machine integers, results, UTF-8 and \<open>trim\<close> on bytes, the interface \<open>keyed_store\<close> of a hash
    map with its model, and \<open>drive\<close>, the loop of one thread among the others.
  \<^item> \<open>Sz_F64\<close>: IEEE double arithmetic with its rounding, as far as the program computes with it.
  \<^item> \<open>Sz_Record\<close>: \<open>record.rs\<close> (\<open>parse_record\<close>, \<open>classify_error\<close>, \<open>logging_id\<close>).
  \<^item> \<open>Sz_Config\<close>: \<open>config.rs\<close> and the arguments of the SQS program (\<open>resolve\<close>, \<open>build_config\<close>).
  \<^item> \<open>Sz_Stats\<close>: \<open>stats.rs\<close> (the atomics are the record \<open>globals\<close>, the status line, the redo-floor guard).
  \<^item> \<open>Sz_Ext\<close>: the code the repository does not hold, as the record \<open>ext\<close> of parameters: the SDK, the JSON
    parser, clock and sleep. The small engine \<open>demo_ext\<close> instantiates it in the witnesses.
  \<^item> \<open>Sz_Channel\<close>: the bounded channels (interface \<open>bounded_fifo\<close>, and the model of the channel).
  \<^item> \<open>Sz_Config_Reload\<close>, \<open>Sz_Reload_Steps\<close>: \<open>config_reload.rs\<close>, first as the code of one thread, then split at
    its atomic operations and run in any number of threads.
  \<^item> \<open>Sz_Worker\<close>, \<open>Sz_Worker_Laws\<close>: \<open>worker.rs\<close>, over the record \<open>proc\<close> of what all threads share.
  \<^item> \<open>Sz_Redo\<close>: \<open>redo.rs\<close>, the fetcher loop with a log of what it did.
  \<^item> \<open>Sz_Redo_System\<close>: fetcher, redo channel and workers together, as the events of \<open>redo_step\<close>.
  \<^item> \<open>Sz_File_Loader\<close>: \<open>file_loader.rs\<close>; reader, workers, consumer and signals as the events of \<open>fl_step\<close>.
  \<^item> \<open>Sz_Rabbit\<close>, \<open>Sz_Rabbit_System\<close>: \<open>crates/rabbit/src/combined.rs\<close>; one definition per arm of its
    \<open>select!\<close>, and the async task with workers, broker and signals as the step relation \<open>rb_step\<close>.
  \<^item> \<open>Sz_Rabbit_Run\<close>: the same task as a function of the events of a run (\<open>rl_step\<close>, \<open>rabbit_loop_run\<close>), with what
    \<open>rb_step\<close> leaves out: statistics thread, depth probe, shutdown deadline. Every such run is one of \<open>rb_step\<close>.
  \<^item> \<open>Sz_Sqs\<close>, \<open>Sz_Sqs_System\<close>: \<open>crates/sqs/src/sqs.rs\<close> in the same way, as the events of \<open>sq_step\<close>.
  \<^item> \<open>Sz_Contract\<close>: the contract of a consumer with its queue as a small machine that executes actions (a message
    arrives, is settled with a verdict, or is left to its source) and refuses those that are not allowed; the
    interfaces \<open>consumer\<close> and \<open>observed_consumer\<close>: each event of the program is a list of actions, its step is
    their execution, and what the program reports is computed from them.
  \<^item> \<open>Sz_Rabbit_Contract\<close>, \<open>Sz_Sqs_Contract\<close>, \<open>Sz_File_Contract\<close>: the actions of the events of \<open>rl_step\<close>, \<open>sq_step\<close> and
    \<open>fl_step\<close>, the interpretations, and the refinement of whole runs.
  \<^item> \<open>Sz_Sqs_Totals\<close>, \<open>Sz_File_Totals\<close>, \<open>Sz_Rabbit_Totals\<close>: what the printed totals account for.
  \<^item> \<open>Sz_File_Reasons\<close>, \<open>Sz_Sqs_Quiet\<close>: why each completed line is completed, and that a run which ends without a
    fatal error leaves nothing behind.
  \<^item> \<open>Sz_Progress\<close>, \<open>Sz_File_Progress\<close>, \<open>Sz_Sqs_Progress\<close>, \<open>Sz_Rabbit_Progress\<close>: the interface \<open>progress\<close> (a
    measure no step raises and some thread can always lower until the goal is reached), interpreted on a file
    load, on a stopped SQS run and on the hand-over of a delivery to the workers.
  \<^item> \<open>Sz_Join\<close>, \<open>Sz_Pool\<close>: the two bounded waits for threads, the worker contexts each run builds.
  \<^item> \<open>Sz_Pure_Redoer\<close>: \<open>pure_redoer.rs\<close>. \<open>Sz_Runs\<close>: set-up, loop and end of the other runs,
    composed; a record \<open>course\<close> holds what happens in a run (its events, the file, the answers of the set-up).
  \<^item> \<open>Sz_Unit_Tests\<close>: the unit tests of the repository's pure code, run on the definitions above, and what the
    declared defaults of the arguments amount to.
  \<^item> \<open>Sz_Runtime\<close>: \<open>runtime.rs\<close> and the two \<open>main\<close> functions, up to the exit code.
  \<^item> \<open>Sz_Programs\<close>: what the two programs promise from their arguments to exit code and last lines.

  \<^bold>\<open>How state and steps correspond.\<close> A struct is a record with its fields, a static a field of \<open>globals\<close> or
  \<open>reload\<close>, an enum a datatype; the integers are words of their width and wrap as the release profile does.
  A handler (\<open>process_load\<close>, \<open>handle_outcome\<close>, ...) is a function of the shared state and returns it; a loop
  is a sequence of passes (\<open>drive\<close>) between which the other threads act, given as an arbitrary function,
  or, where the interleaving is the point, an event of a step relation. An \<open>Err\<close>, an early return or a
  panic is a branch (a sum, or \<open>None\<close>). Calls to the queue are recorded in order; what a library or the
  operating system answers is a parameter or part of the event.

  \<^bold>\<open>What is shown.\<close>
  \<^item> From end to end: the account a RabbitMQ run gives of its deliveries; what exit code 0 of the two queue programs
    says of every delivery and message; how far the resume offset a file load prints can be trusted.
  \<^item> Deliveries: settled at most once, acknowledged only when the engine accepted exactly that body, never lost;
    an SQS message is deleted once and for a reason.
  \<^item> Refinement: a run of each of the three consumers is the contract machine executing, event by event, the actions
    of its events; the calls to the broker, the counters and the resume offset are functions of these actions.
  \<^item> Files: every line is in exactly one place, the reported watermark never skips an unloaded line.
  \<^item> Totals: the counters of an SQS run and of a file load match what was loaded and refused, one for one;
    every SQS message is in exactly one place; the total a RabbitMQ run prints lies between what was
    acknowledged and what was settled.
  \<^item> Workers and redo: one justified outcome per item, one count per redo record, the dispatch order, nothing left
    behind when a worker leaves; the fetcher hands over what it fetched; every redo record is in one place and
    a stop loses at most as many as the channel, the workers and the fetcher hold; a stopped process ends.
  \<^item> Configuration: what is accepted is runnable, the split of the pool is exact and is the one started.
  \<^item> Reload: no stacked and no repeated reinitialisation with the seeding, and what goes wrong without it.
  \<^item> Shutdown: the waits are bounded and tell the truth; when the environment is about to be destroyed every engine
    thread is finished, except for the statistics thread of a RabbitMQ queue run and in a file run that could not
    create its workers; what each exit code means.
  \<^item> Progress: under every schedule a file load comes to its end and a stopped SQS run to its bounded wait, except
    in the state where every worker has left while somebody still has work for them; the RabbitMQ task never
    wedges with its workers while it hands over a delivery.
  \<^item> Limits of the program, each proved: a file run is held up by a stuck worker, a file reader and an SQS run can
    wait for ever when every worker has left, a failed spawn destroys the environment under running workers,
    a clean exit of the RabbitMQ program does it under a busy statistics thread (\<open>detached_stats_thread_is_not_waited_for\<close>),
    a loaded delivery can be redelivered, a delivery still queued can be dead-lettered, a line that is not UTF-8
    blocks a file, the cap of SQS is not a cap.

  \<^bold>\<open>Bounds and fuel.\<close> \<open>drive n\<close> and \<open>join_rounds n\<close> give \<open>None\<close> when \<open>n\<close> passes were not enough; where a result is
  claimed it is proved that enough passes give it: 201 scans for the 10 s join at 50 ms a nap, two passes
  after the stop for fetcher and monitor loop, three passes per queued record for a redo worker, \<open>5 * lines + 1 +
  2 * workers\<close> productive steps for a file load, \<open>4 * threads + 2\<close> for a hand-over. Line and
  message counters are followed below \<open>2 ^ 64\<close>.

  \<^bold>\<open>Not modelled.\<close> What is logged (the choice of the filter is); \<open>clap\<close>; the SDK, \<open>lapin\<close>, the AWS client and
  \<open>serde_json\<close> beyond the parameters they are; a signal handler that cannot be installed (a signal is an
  event that clears \<open>RUNNING\<close>); poisoned locks (no thread panics while it holds one); weak memory (every
  atomic access is one step). A permit of a \<open>Notify\<close> may wake a waiter of the model that the program's
  \<open>notify_waiters\<close> would have missed: the model has more runs, and no property relies on the wake-up. The
  \<open>select!\<close> of the RabbitMQ task is taken to try its arms in any order; only the hand-over uses that it is
  biased.
\<close>

end
